(* ===== verification/Fuzz_Prelude.thy ===== *)
theory Fuzz_Prelude
  imports Main "HOL-Library.Word"
begin

unbundle bit_operations_syntax

text \<open>
  Shared vocabulary of the development: the machine types of \<^verbatim>\<open>types.h\<close>, the error
  values that stand for the ways the code stops (\<^verbatim>\<open>FATAL\<close>, a division by zero, an
  access outside a buffer), little-endian loads and stores on byte buffers (the casts
  \<^verbatim>\<open>*(u16*)\<close>, \<^verbatim>\<open>*(u32*)\<close> and \<^verbatim>\<open>*(u64*)\<close> of the x86_64 build), block writes
  (\<^verbatim>\<open>memcpy\<close>, \<^verbatim>\<open>memset\<close>, \<^verbatim>\<open>memmove\<close>), byte swapping, and a bounded loop
  that may leave early.
\<close>

named_theorems buf_simps \<open>lengths and elements of buffers after block operations\<close>

section \<open>Machine types and error values\<close>

type_synonym u8 = "8 word"
type_synonym u16 = "16 word"
type_synonym u32 = "32 word"
type_synonym u64 = "64 word"
type_synonym buf = "u8 list"

datatype err =
    OutOfBounds              \<comment> \<open>an access outside the allocated buffer\<close>
  | DivByZero                \<comment> \<open>an integer division or remainder by zero\<close>
  | NullDeref                \<comment> \<open>a field access through a null pointer\<close>
  | NoFuel                   \<comment> \<open>the bound given to a modelled loop ran out\<close>
  | Fatal string             \<comment> \<open>\<^verbatim>\<open>FATAL\<close>, \<^verbatim>\<open>PFATAL\<close> or \<^verbatim>\<open>ABORT\<close> with its message\<close>

text \<open>Sequencing of fallible steps, and a loop of fallible steps over a list, for any type of error.\<close>

definition err_bind :: "'x + 'a \<Rightarrow> ('a \<Rightarrow> 'x + 'b) \<Rightarrow> 'x + 'b" where
  "err_bind x f = (case x of Inl e \<Rightarrow> Inl e | Inr y \<Rightarrow> f y)"

lemma err_bind_simps [simp]: "err_bind (Inl e) f = Inl e" "err_bind (Inr y) f = f y"
  by (simp_all add: err_bind_def)

lemma err_bind_InrE:
  assumes "err_bind x f = Inr z"
  obtains y where "x = Inr y" "f y = Inr z"
  using assms by (cases x) auto

lemma err_bind_eq_Inr: "err_bind x f = Inr z \<longleftrightarrow> (\<exists>y. x = Inr y \<and> f y = Inr z)"
  by (cases x) auto

fun fold_err :: "('a \<Rightarrow> 's \<Rightarrow> 'x + 's) \<Rightarrow> 'a list \<Rightarrow> 's \<Rightarrow> 'x + 's" where
  "fold_err f [] s = Inr s"
| "fold_err f (x # xs) s = err_bind (f x s) (fold_err f xs)"

lemma fold_err_one: "fold_err f [x] s = f x s"
  by (cases "f x s") simp_all

lemma fold_err_append: "fold_err f (xs @ ys) s = err_bind (fold_err f xs s) (fold_err f ys)"
proof (induction xs arbitrary: s)
  case (Cons x xs)
  then show ?case by (cases "f x s") auto
qed simp

text \<open>The loop rule for a counted loop that must not fail.\<close>

lemma fold_err_upt:
  assumes "P 0 s"
    and "\<And>i s. i < n \<Longrightarrow> P i s \<Longrightarrow> \<exists>s'. f i s = Inr s' \<and> P (Suc i) s'"
  shows "\<exists>s'. fold_err f [0..<n] s = Inr s' \<and> P n s'"
proof -
  have "k \<le> n \<Longrightarrow> \<exists>s'. fold_err f [0..<k] s = Inr s' \<and> P k s'" for k
  proof (induction k)
    case (Suc k)
    then obtain s1 where s1: "fold_err f [0..<k] s = Inr s1" "P k s1" by auto
    with assms(2)[of k s1] Suc.prems show ?case by (auto simp: fold_err_append)
  qed (use assms(1) in simp)
  then show ?thesis by blast
qed

lemma fold_err_inv:
  assumes "fold_err f xs s = Inr s'" "P s"
    and "\<And>x s s'. x \<in> set xs \<Longrightarrow> P s \<Longrightarrow> f x s = Inr s' \<Longrightarrow> P s'"
  shows "P s'"
  using assms
proof (induction xs arbitrary: s)
  case (Cons x xs)
  from Cons.prems(1) obtain s1 where "f x s = Inr s1" "fold_err f xs s1 = Inr s'"
    by (auto elim: err_bind_InrE)
  with Cons show ?case by (metis list.set_intros)
qed simp

section \<open>Byte swapping\<close>

definition SWAP16 :: "u16 \<Rightarrow> u16" where
  "SWAP16 x = push_bit 8 x OR drop_bit 8 x"

definition SWAP32 :: "u32 \<Rightarrow> u32" where
  "SWAP32 x = push_bit 24 x OR drop_bit 24 x OR
     (push_bit 8 x AND 0x00FF0000) OR (drop_bit 8 x AND 0x0000FF00)"

section \<open>Little-endian loads and stores\<close>

fun load_le :: "u8 list \<Rightarrow> 'a::len word" where
  "load_le [] = 0"
| "load_le (b # bs) = ucast b OR push_bit 8 (load_le bs)"

fun store_le :: "nat \<Rightarrow> 'a::len word \<Rightarrow> u8 list" where
  "store_le 0 w = []"
| "store_le (Suc n) w = ucast w # store_le n (drop_bit 8 w)"

definition load16 :: "buf \<Rightarrow> nat \<Rightarrow> u16" where
  "load16 m i = load_le (take 2 (drop i m))"

definition load32 :: "buf \<Rightarrow> nat \<Rightarrow> u32" where
  "load32 m i = load_le (take 4 (drop i m))"

section \<open>Block writes\<close>

text \<open>\<open>write_at m i xs\<close> is \<^verbatim>\<open>memcpy(m + i, xs, length xs)\<close>; its callers check the range.\<close>

definition write_at :: "'a list \<Rightarrow> nat \<Rightarrow> 'a list \<Rightarrow> 'a list" where
  "write_at m i xs = take i m @ xs @ drop (i + length xs) m"

text \<open>The same with the range checked: \<open>None\<close> is a write out of the bounds of the buffer.\<close>

definition put_at :: "'a list \<Rightarrow> nat \<Rightarrow> 'a list \<Rightarrow> 'a list option" where
  "put_at m i xs = (if i + length xs \<le> length m then Some (write_at m i xs) else None)"

lemma put_at_Some: "i + length xs \<le> length m \<Longrightarrow> put_at m i xs = Some (write_at m i xs)"
  by (simp add: put_at_def)

definition store16 :: "buf \<Rightarrow> nat \<Rightarrow> u16 \<Rightarrow> buf" where
  "store16 m i w = write_at m i (store_le 2 w)"

definition store32 :: "buf \<Rightarrow> nat \<Rightarrow> u32 \<Rightarrow> buf" where
  "store32 m i w = write_at m i (store_le 4 w)"

section \<open>Loops with an early exit\<close>

text \<open>
  \<open>for_range k n body x\<close> is \<^verbatim>\<open>for (i = k; i < n; i++)\<close> over a state \<open>x\<close>; the body
  returns whether the loop is left by a jump out of it.
\<close>

function for_range :: "nat \<Rightarrow> nat \<Rightarrow> (nat \<Rightarrow> 'x \<Rightarrow> bool \<times> 'x) \<Rightarrow> 'x \<Rightarrow> bool \<times> 'x" where
  "for_range k n body x =
     (if k < n then
        (case body k x of
           (True, x') \<Rightarrow> (True, x')
         | (False, x') \<Rightarrow> for_range (Suc k) n body x')
      else (False, x))"
  by pat_completeness auto
termination
  by (relation "measure (\<lambda>(k, n, body, x). n - k)") auto

declare for_range.simps [simp del]

lemma for_range_done [simp]: "n \<le> k \<Longrightarrow> for_range k n body x = (False, x)"
  by (simp add: for_range.simps)

lemma for_range_step:
  "k < n \<Longrightarrow> for_range k n body x =
     (case body k x of (True, x') \<Rightarrow> (True, x') | (False, x') \<Rightarrow> for_range (Suc k) n body x')"
  by (simp add: for_range.simps)

text \<open>The loop rule: an invariant of the body that may depend on the loop counter.\<close>

lemma for_range_always:
  assumes "P x" "\<And>i x. k \<le> i \<Longrightarrow> i < n \<Longrightarrow> P x \<Longrightarrow> P (snd (body i x))"
  shows "P (snd (for_range k n body x))"
  using assms
proof (induction k n body x rule: for_range.induct)
  case (1 k n body x)
  show ?case
  proof (cases "k < n")
    case True
    obtain stop y where y: "body k x = (stop, y)" by fastforce
    with 1(2,3) True have "P y" by (metis le_refl snd_conv)
    moreover have "P (snd (for_range (Suc k) n body y))" if "\<not> stop"
      using 1(1)[OF True, of stop y] 1(3) y that \<open>P y\<close> by (cases stop) auto
    ultimately show ?thesis using True y by (cases stop) (simp_all add: for_range_step)
  qed (use 1(2) in simp)
qed

lemma for_range_inv:
  assumes "P k x" "k \<le> n"
    and "\<And>i y y'. k \<le> i \<Longrightarrow> i < n \<Longrightarrow> P i y \<Longrightarrow> body i y = (False, y') \<Longrightarrow> P (Suc i) y'"
    and "for_range k n body x = (False, x')"
  shows "P n x'"
  using assms
proof (induction k n body x rule: for_range.induct)
  case (1 k n body x)
  show ?case
  proof (cases "k < n")
    case True
    with "1.prems"(4) obtain y where y: "body k x = (False, y)"
      and r: "for_range (Suc k) n body y = (False, x')"
      by (auto simp: for_range_step split: prod.splits bool.splits)
    have "P (Suc k) y"
      using "1.prems"(3)[of k x y] "1.prems"(1) True y by simp
    then show ?thesis
      using "1.IH"[OF True y[symmetric] refl] r True "1.prems"(3) by simp
  next
    case False
    with "1.prems" show ?thesis by simp
  qed
qed

section \<open>Lemmas on words and bytes\<close>

lemma Suc_8: "Suc (Suc (Suc (Suc (Suc (Suc (Suc (Suc 0))))))) = 8"
  by simp

lemma bit_load_le:
  "bit (load_le bs :: 'a::len word) n \<longleftrightarrow>
     n < LENGTH('a) \<and> n div 8 < length bs \<and> bit (bs ! (n div 8)) (n mod 8)"
proof (induction bs arbitrary: n)
  case Nil
  then show ?case by simp
next
  case (Cons b bs)
  show ?case
  proof (cases "n < 8")
    case True
    then show ?thesis by (auto simp: bit_simps)
  next
    case False
    then obtain m where m: "n = 8 + m" using le_Suc_ex not_less by blast
    moreover have "(8 + m) div 8 = Suc (m div 8)" by simp
    ultimately show ?thesis
      using Cons.IH[of m] by (auto simp: bit_simps dest: bit_imp_le_length)
  qed
qed

lemma length_store_le [simp, buf_simps]: "length (store_le n w) = n"
  by (induction n arbitrary: w) auto

lemma store_le_numeral:
  "store_le (numeral k) w = ucast w # store_le (pred_numeral k) (drop_bit 8 w)"
  by (simp add: numeral_eq_Suc)

lemma nth_store_le:
  "i < n \<Longrightarrow> store_le n w ! i = ucast (drop_bit (8 * i) w)"
proof (induction n arbitrary: w i)
  case 0
  then show ?case by simp
next
  case (Suc n)
  then show ?case by (cases i) (auto simp: add.commute)
qed

lemma load_store_le: "LENGTH('a) \<le> 8 * n \<Longrightarrow> load_le (store_le n w) = (w :: 'a::len word)"
proof (rule bit_word_eqI)
  fix k
  assume a: "LENGTH('a) \<le> 8 * n" "k < LENGTH('a)"
  then have "k div 8 < n" by (simp add: less_mult_imp_div_less mult.commute)
  with a show "bit (load_le (store_le n w) :: 'a word) k = bit w k"
    by (simp add: bit_load_le nth_store_le bit_simps)
qed

lemma store_load_le:
  "8 * length bs \<le> LENGTH('a) \<Longrightarrow> store_le (length bs) (load_le bs :: 'a::len word) = bs"
proof (rule nth_equalityI, simp)
  fix i
  assume l: "8 * length bs \<le> LENGTH('a)" and i: "i < length (store_le (length bs) (load_le bs :: 'a word))"
  show "store_le (length bs) (load_le bs :: 'a word) ! i = bs ! i"
  proof (rule bit_word_eqI)
    fix k
    assume k: "k < LENGTH(8)"
    with l i show "bit (store_le (length bs) (load_le bs :: 'a word) ! i) k = bit (bs ! i) k"
      by (auto simp: nth_store_le bit_simps bit_load_le)
  qed
qed

lemma load_le_eq_0:
  assumes "8 * length bs \<le> LENGTH('a)"
  shows "(load_le bs :: 'a::len word) = 0 \<longleftrightarrow> (\<forall>b \<in> set bs. b = 0)"
proof
  assume z: "(load_le bs :: 'a word) = 0"
  have "bs = store_le (length bs) (load_le bs :: 'a word)"
    using store_load_le[OF assms] by simp
  also have "\<dots> = store_le (length bs) (0 :: 'a word)" using z by simp
  finally have "bs = store_le (length bs) (0 :: 'a word)" .
  moreover have "\<And>n. set (store_le n (0 :: 'a word)) \<subseteq> {0}"
    subgoal for n by (induction n) auto
    done
  ultimately show "\<forall>b \<in> set bs. b = 0"
    by (metis singletonD subsetD)
next
  assume "\<forall>b \<in> set bs. b = 0"
  then show "(load_le bs :: 'a word) = 0"
    by (induction bs) auto
qed

lemma load_le_and:
  "length bs = length cs \<Longrightarrow>
   load_le bs AND load_le cs = (load_le (map2 (AND) bs cs) :: 'a::len word)"
  by (rule bit_word_eqI) (auto simp: bit_simps bit_load_le)

lemma store_le_and_not:
  assumes "length bs = length cs" "8 * length bs \<le> LENGTH('a)"
  shows "store_le (length bs) (load_le bs AND NOT (load_le cs) :: 'a::len word)
           = map2 (\<lambda>b c. b AND NOT c) bs cs"
proof (rule nth_equalityI)
  show "length (store_le (length bs) (load_le bs AND NOT (load_le cs) :: 'a word))
          = length (map2 (\<lambda>b c. b AND NOT c) bs cs)"
    using assms by simp
next
  fix i
  assume "i < length (store_le (length bs) (load_le bs AND NOT (load_le cs) :: 'a word))"
  then have i: "i < length bs" by simp
  show "store_le (length bs) (load_le bs AND NOT (load_le cs) :: 'a word) ! i
          = map2 (\<lambda>b c. b AND NOT c) bs cs ! i"
  proof (rule bit_word_eqI)
    fix k
    assume "k < LENGTH(8)"
    with i assms show "bit (store_le (length bs) (load_le bs AND NOT (load_le cs) :: 'a word) ! i) k
        = bit (map2 (\<lambda>b c. b AND NOT c) bs cs ! i) k"
      by (auto simp: nth_store_le bit_simps bit_load_le)
  qed
qed

lemma bit_SWAP16:
  "bit (SWAP16 x) n \<longleftrightarrow> (n < 8 \<and> bit x (n + 8)) \<or> (8 \<le> n \<and> n < 16 \<and> bit x (n - 8))"
  by (auto simp: SWAP16_def bit_simps add.commute dest: bit_imp_le_length)

lemma mask_bytes:
  "bit (0x00FF0000 :: u32) n \<longleftrightarrow> 16 \<le> n \<and> n < 24"
  "bit (0x0000FF00 :: u32) n \<longleftrightarrow> 8 \<le> n \<and> n < 16"
proof -
  have a: "(0x00FF0000 :: u32) = push_bit 16 (mask 8)" and b: "(0x0000FF00 :: u32) = push_bit 8 (mask 8)"
    by (simp_all add: mask_eq_exp_minus_1 push_bit_eq_mult)
  show "bit (0x00FF0000 :: u32) n \<longleftrightarrow> 16 \<le> n \<and> n < 24"
    unfolding a by (auto simp: bit_push_bit_iff bit_mask_iff)
  show "bit (0x0000FF00 :: u32) n \<longleftrightarrow> 8 \<le> n \<and> n < 16"
    unfolding b by (auto simp: bit_push_bit_iff bit_mask_iff)
qed

lemma bit_SWAP32:
  "bit (SWAP32 x) n \<longleftrightarrow>
     (n < 8 \<and> bit x (n + 24)) \<or> (8 \<le> n \<and> n < 16 \<and> bit x (n + 8)) \<or>
     (16 \<le> n \<and> n < 24 \<and> bit x (n - 8)) \<or> (24 \<le> n \<and> n < 32 \<and> bit x (n - 24))"
proof -
  have a: "bit (push_bit 24 x) n \<longleftrightarrow> 24 \<le> n \<and> n < 32 \<and> bit x (n - 24)"
    by (simp add: bit_push_bit_iff)
  have b: "bit (drop_bit 24 x) n \<longleftrightarrow> n < 8 \<and> bit x (n + 24)"
    using bit_imp_le_length[of x "n + 24"] by (auto simp: bit_drop_bit_eq add.commute)
  have c: "bit (push_bit 8 x AND 0x00FF0000) n \<longleftrightarrow> 16 \<le> n \<and> n < 24 \<and> bit x (n - 8)"
    unfolding bit_and_iff mask_bytes bit_push_bit_iff by auto
  have d: "bit (drop_bit 8 x AND 0x0000FF00) n \<longleftrightarrow> 8 \<le> n \<and> n < 16 \<and> bit x (n + 8)"
    unfolding bit_and_iff mask_bytes bit_drop_bit_eq by (auto simp: add.commute)
  show ?thesis
    unfolding SWAP32_def bit_or_iff a b c d by blast
qed

lemma swap16_swap16 [simp]: "SWAP16 (SWAP16 x) = x"
proof (rule bit_word_eqI)
  fix n
  assume "n < LENGTH(16)"
  then consider "n < 8" | "8 \<le> n" "n < 16"
    by fastforce
  then show "bit (SWAP16 (SWAP16 x)) n = bit x n"
    by cases (simp_all add: bit_SWAP16 less_diff_conv2 le_diff_conv2)
qed

lemma swap32_swap32 [simp]: "SWAP32 (SWAP32 x) = x"
proof (rule bit_word_eqI)
  fix n
  assume "n < LENGTH(32)"
  then consider "n < 8" | "8 \<le> n" "n < 16" | "16 \<le> n" "n < 24" | "24 \<le> n" "n < 32"
    by fastforce
  then show "bit (SWAP32 (SWAP32 x)) n = bit x n"
    by cases (simp_all add: bit_SWAP32 less_diff_conv2 le_diff_conv2)
qed

end
