(* ===== verification/Bitmap.thy ===== *)
theory Bitmap
  imports Fuzz_Prelude
begin

unbundle bit_operations_syntax

text \<open>
  The coverage bitmaps of \<^verbatim>\<open>afl-fuzz.c\<close>: hit-count classification, the comparison of a
  trace with a virgin map, the counters of the status screen, the destructive
  simplification for crashes and hangs, and the compaction of a trace to one bit per
  byte. A map is a list of bytes; the code's \<^verbatim>\<open>MAP_SIZE\<close> is the length of the list,
  and every loop runs once per machine word of it, as the \<^verbatim>\<open>while (i--)\<close> loops do.
  Each routine exists in a 64-bit and a 32-bit flavour in the source; both are modelled,
  and both are shown equal to one reference over the single bytes.
\<close>

section \<open>Hit-count classes\<close>

definition MAP_SIZE_POW2 :: nat where "MAP_SIZE_POW2 = 16"

definition MAP_SIZE :: nat where "MAP_SIZE = 2 ^ MAP_SIZE_POW2"

definition count_class_lookup8 :: "u8 \<Rightarrow> u8" where
  "count_class_lookup8 b =
     (if b = 0 then 0 else if b = 1 then 1 else if b = 2 then 2 else if b = 3 then 4
      else if b \<le> 7 then 8 else if b \<le> 15 then 16 else if b \<le> 31 then 32
      else if b \<le> 127 then 64 else 128)"

text \<open>The table is filled by two nested loops, one assignment per pair of bytes.\<close>

definition init_count_class16 :: "(u16 \<Rightarrow> u16) \<Rightarrow> u16 \<Rightarrow> u16" where
  "init_count_class16 tbl =
     fold (\<lambda>b1. fold (\<lambda>b2 t.
         t(word_of_nat (b1 * 256 + b2) :=
             push_bit 8 (ucast (count_class_lookup8 (word_of_nat b1)))
             OR ucast (count_class_lookup8 (word_of_nat b2)))) [0..<256]) [0..<256] tbl"

definition classify_chunk64 :: "(u16 \<Rightarrow> u16) \<Rightarrow> buf \<Rightarrow> buf" where
  "classify_chunk64 lookup16 m =
     (if (load_le m :: u64) \<noteq> 0 then
        store_le 2 (lookup16 (load16 m 0)) @ store_le 2 (lookup16 (load16 m 2)) @
        store_le 2 (lookup16 (load16 m 4)) @ store_le 2 (lookup16 (load16 m 6))
      else m)"

fun classify_loop64 :: "(u16 \<Rightarrow> u16) \<Rightarrow> nat \<Rightarrow> buf \<Rightarrow> buf" where
  "classify_loop64 lookup16 0 mem = mem"
| "classify_loop64 lookup16 (Suc i) mem =
     classify_chunk64 lookup16 (take 8 mem) @ classify_loop64 lookup16 i (drop 8 mem)"

definition classify_counts :: "(u16 \<Rightarrow> u16) \<Rightarrow> buf \<Rightarrow> buf" where
  "classify_counts lookup16 mem = classify_loop64 lookup16 (length mem div 8) mem"

definition classify_chunk32 :: "(u16 \<Rightarrow> u16) \<Rightarrow> buf \<Rightarrow> buf" where
  "classify_chunk32 lookup16 m =
     (if (load_le m :: u32) \<noteq> 0 then
        store_le 2 (lookup16 (load16 m 0)) @ store_le 2 (lookup16 (load16 m 2))
      else m)"

fun classify_loop32 :: "(u16 \<Rightarrow> u16) \<Rightarrow> nat \<Rightarrow> buf \<Rightarrow> buf" where
  "classify_loop32 lookup16 0 mem = mem"
| "classify_loop32 lookup16 (Suc i) mem =
     classify_chunk32 lookup16 (take 4 mem) @ classify_loop32 lookup16 i (drop 4 mem)"

definition classify_counts_32 :: "(u16 \<Rightarrow> u16) \<Rightarrow> buf \<Rightarrow> buf" where
  "classify_counts_32 lookup16 mem = classify_loop32 lookup16 (length mem div 4) mem"

section \<open>Simplification of crash and hang traces\<close>

definition simplify_lookup :: "u8 \<Rightarrow> u8" where
  "simplify_lookup b = (if b = 0 then 1 else 128)"

definition simplify_chunk64 :: "buf \<Rightarrow> buf" where
  "simplify_chunk64 m =
     (if (load_le m :: u64) \<noteq> 0 then
        m[0 := simplify_lookup (m ! 0), 1 := simplify_lookup (m ! 1),
          2 := simplify_lookup (m ! 2), 3 := simplify_lookup (m ! 3),
          4 := simplify_lookup (m ! 4), 5 := simplify_lookup (m ! 5),
          6 := simplify_lookup (m ! 6), 7 := simplify_lookup (m ! 7)]
      else store_le 8 (0x0101010101010101 :: u64))"

fun simplify_loop64 :: "nat \<Rightarrow> buf \<Rightarrow> buf" where
  "simplify_loop64 0 mem = mem"
| "simplify_loop64 (Suc i) mem = simplify_chunk64 (take 8 mem) @ simplify_loop64 i (drop 8 mem)"

definition simplify_trace :: "buf \<Rightarrow> buf" where
  "simplify_trace mem = simplify_loop64 (length mem div 8) mem"

definition simplify_chunk32 :: "buf \<Rightarrow> buf" where
  "simplify_chunk32 m =
     (if (load_le m :: u32) \<noteq> 0 then
        m[0 := simplify_lookup (m ! 0), 1 := simplify_lookup (m ! 1),
          2 := simplify_lookup (m ! 2), 3 := simplify_lookup (m ! 3)]
      else store_le 4 (0x01010101 :: u32))"

fun simplify_loop32 :: "nat \<Rightarrow> buf \<Rightarrow> buf" where
  "simplify_loop32 0 mem = mem"
| "simplify_loop32 (Suc i) mem = simplify_chunk32 (take 4 mem) @ simplify_loop32 i (drop 4 mem)"

definition simplify_trace_32 :: "buf \<Rightarrow> buf" where
  "simplify_trace_32 mem = simplify_loop32 (length mem div 4) mem"

section \<open>New bits against a virgin map\<close>

text \<open>
  One machine word of \<^verbatim>\<open>has_new_bits\<close>: \<open>c\<close> and \<open>v\<close> are the bytes of \<^verbatim>\<open>*current\<close>
  and \<^verbatim>\<open>*virgin\<close>, \<open>ret\<close> is the verdict so far. The flag \<^verbatim>\<open>bitmap_changed\<close>, which only the statistics read, is left out.
\<close>

definition pristine_hit :: "buf \<Rightarrow> buf \<Rightarrow> nat \<Rightarrow> bool" where
  "pristine_hit c v k \<longleftrightarrow> c ! k \<noteq> 0 \<and> v ! k = 0xff"

definition hnb_chunk64 :: "buf \<Rightarrow> buf \<Rightarrow> nat \<Rightarrow> nat \<times> buf" where
  "hnb_chunk64 c v ret =
     (let current = (load_le c :: u64); virgin = (load_le v :: u64) in
      if current \<noteq> 0 \<and> current AND virgin \<noteq> 0 then
        ((if ret < 2 then
            (if pristine_hit c v 0 \<or> pristine_hit c v 1 \<or> pristine_hit c v 2 \<or> pristine_hit c v 3 \<or>
                pristine_hit c v 4 \<or> pristine_hit c v 5 \<or> pristine_hit c v 6 \<or> pristine_hit c v 7
             then 2 else 1)
          else ret),
         store_le 8 (virgin AND NOT current))
      else (ret, v))"

definition hnb_chunk32 :: "buf \<Rightarrow> buf \<Rightarrow> nat \<Rightarrow> nat \<times> buf" where
  "hnb_chunk32 c v ret =
     (let current = (load_le c :: u32); virgin = (load_le v :: u32) in
      if current \<noteq> 0 \<and> current AND virgin \<noteq> 0 then
        ((if ret < 2 then
            (if pristine_hit c v 0 \<or> pristine_hit c v 1 \<or> pristine_hit c v 2 \<or> pristine_hit c v 3
             then 2 else 1)
          else ret),
         store_le 4 (virgin AND NOT current))
      else (ret, v))"

fun has_new_bits_loop64 :: "nat \<Rightarrow> buf \<Rightarrow> buf \<Rightarrow> nat \<Rightarrow> nat \<times> buf" where
  "has_new_bits_loop64 0 current virgin ret = (ret, virgin)"
| "has_new_bits_loop64 (Suc i) current virgin ret =
     (let (ret', v) = hnb_chunk64 (take 8 current) (take 8 virgin) ret;
          (r, vs) = has_new_bits_loop64 i (drop 8 current) (drop 8 virgin) ret'
      in (r, v @ vs))"

fun has_new_bits_loop32 :: "nat \<Rightarrow> buf \<Rightarrow> buf \<Rightarrow> nat \<Rightarrow> nat \<times> buf" where
  "has_new_bits_loop32 0 current virgin ret = (ret, virgin)"
| "has_new_bits_loop32 (Suc i) current virgin ret =
     (let (ret', v) = hnb_chunk32 (take 4 current) (take 4 virgin) ret;
          (r, vs) = has_new_bits_loop32 i (drop 4 current) (drop 4 virgin) ret'
      in (r, v @ vs))"

definition has_new_bits :: "buf \<Rightarrow> buf \<Rightarrow> nat \<times> buf" where
  "has_new_bits current virgin = has_new_bits_loop64 (length virgin div 8) current virgin 0"

definition has_new_bits_32 :: "buf \<Rightarrow> buf \<Rightarrow> nat \<times> buf" where
  "has_new_bits_32 current virgin = has_new_bits_loop32 (length virgin div 4) current virgin 0"

section \<open>Counters\<close>

definition FF :: "nat \<Rightarrow> u32" where
  "FF b = push_bit (b * 8) 0xff"

definition count_bits_word :: "u32 \<Rightarrow> u32" where
  "count_bits_word v =
     (if v = 0xffffffff then 32 else
      let v1 = v - (drop_bit 1 v AND 0x55555555);
          v2 = (v1 AND 0x33333333) + (drop_bit 2 v1 AND 0x33333333)
      in drop_bit 24 (((v2 + drop_bit 4 v2) AND 0x0F0F0F0F) * 0x01010101))"

definition count_bytes_word :: "u32 \<Rightarrow> u32" where
  "count_bytes_word v =
     (if v = 0 then 0 else
      (if v AND FF 0 \<noteq> 0 then 1 else 0) + (if v AND FF 1 \<noteq> 0 then 1 else 0) +
      (if v AND FF 2 \<noteq> 0 then 1 else 0) + (if v AND FF 3 \<noteq> 0 then 1 else 0))"

definition count_non_255_word :: "u32 \<Rightarrow> u32" where
  "count_non_255_word v =
     (if v = 0xffffffff then 0 else
      (if v AND FF 0 \<noteq> FF 0 then 1 else 0) + (if v AND FF 1 \<noteq> FF 1 then 1 else 0) +
      (if v AND FF 2 \<noteq> FF 2 then 1 else 0) + (if v AND FF 3 \<noteq> FF 3 then 1 else 0))"

fun count_loop :: "(u32 \<Rightarrow> u32) \<Rightarrow> nat \<Rightarrow> buf \<Rightarrow> u32 \<Rightarrow> u32" where
  "count_loop f 0 mem ret = ret"
| "count_loop f (Suc i) mem ret = count_loop f i (drop 4 mem) (ret + f (load_le (take 4 mem)))"

definition count_bits :: "buf \<Rightarrow> u32" where
  "count_bits mem = count_loop count_bits_word (length mem div 4) mem 0"

definition count_bytes :: "buf \<Rightarrow> u32" where
  "count_bytes mem = count_loop count_bytes_word (length mem div 4) mem 0"

definition count_non_255_bytes :: "buf \<Rightarrow> u32" where
  "count_non_255_bytes mem = count_loop count_non_255_word (length mem div 4) mem 0"

section \<open>Compaction\<close>

text \<open>\<open>minimize_bits dst src\<close>: every non-zero byte \<open>i\<close> of the trace sets bit \<open>i\<close> of \<open>dst\<close>.\<close>

fun minimize_loop :: "nat \<Rightarrow> buf \<Rightarrow> buf \<Rightarrow> buf" where
  "minimize_loop i dst [] = dst"
| "minimize_loop i dst (s # src) =
     minimize_loop (Suc i)
       (if s \<noteq> 0 then dst[i div 8 := dst ! (i div 8) OR push_bit (i mod 8) 1] else dst) src"

definition minimize_bits :: "buf \<Rightarrow> buf \<Rightarrow> buf" where
  "minimize_bits dst src = minimize_loop 0 dst src"

definition mini_bit :: "buf \<Rightarrow> nat \<Rightarrow> bool" where
  "mini_bit m i \<longleftrightarrow> m ! (i div 8) AND push_bit (i mod 8) 1 \<noteq> 0"

section \<open>Word-wise loops as byte-wise maps\<close>

text \<open>
  The contract shared by the word-wise in-place loops: a step rewrites one machine word
  of \<open>w\<close> bytes, and on such a word it agrees with a function of the single bytes.
\<close>

locale word_loop =
  fixes w :: nat
    and chunk :: "buf \<Rightarrow> buf"
    and loop :: "nat \<Rightarrow> buf \<Rightarrow> buf"
    and byte_op :: "u8 \<Rightarrow> u8"
  assumes w_pos: "0 < w"
    and loop_0: "loop 0 m = m"
    and loop_Suc: "loop (Suc i) m = chunk (take w m) @ loop i (drop w m)"
    and chunk_bytes: "length c = w \<Longrightarrow> chunk c = map byte_op c"
begin

lemma loop_bytes: "i * w \<le> length m \<Longrightarrow> loop i m = map byte_op (take (i * w) m) @ drop (i * w) m"
proof (induction i arbitrary: m)
  case 0
  then show ?case by (simp add: loop_0)
next
  case (Suc i)
  then have "loop i (drop w m) = map byte_op (take (i * w) (drop w m)) @ drop (i * w) (drop w m)"
    by (intro Suc.IH) simp
  moreover have "chunk (take w m) = map byte_op (take w m)"
    using Suc.prems by (intro chunk_bytes) simp
  ultimately show ?case
    by (simp add: loop_Suc take_add add.commute)
qed

lemma loop_all: "w dvd length m \<Longrightarrow> loop (length m div w) m = map byte_op m"
  using loop_bytes[of "length m div w" m] by simp

end

lemma count_class_lookup8_0 [simp]: "count_class_lookup8 0 = 0"
  by (simp add: count_class_lookup8_def)

lemma fold_upd_unique:
  "\<lbrakk>k \<in> set ks; \<And>j. j \<in> set ks \<Longrightarrow> g j = g k \<Longrightarrow> h j = h k\<rbrakk>
   \<Longrightarrow> fold (\<lambda>k t. t(g k := h k)) ks t (g k) = h k"
proof (induction ks arbitrary: t rule: rev_induct)
  case Nil
  then show ?case by simp
next
  case (snoc j ks)
  show ?case
  proof (cases "g j = g k")
    case True
    then show ?thesis using snoc.prems(2)[of j] by simp
  next
    case False
    then have "k \<in> set ks" using snoc.prems(1) by auto
    then have "fold (\<lambda>k t. t(g k := h k)) ks t (g k) = h k"
      by (rule snoc.IH) (rule snoc.prems(2), simp_all)
    then show ?thesis using False by (simp add: fun_upd_def)
  qed
qed

lemma fold_fold_pairs:
  "fold (\<lambda>a. fold (\<lambda>b. f (a, b)) bs) as t = fold f (List.product as bs) t"
  by (induction as arbitrary: t) (auto simp: fold_map comp_def)

lemma word_of_nat16_pair:
  assumes "a < 256" "b < 256" "c < 256" "d < 256"
  shows "(word_of_nat (a * 256 + b) :: u16) = word_of_nat (c * 256 + d) \<longleftrightarrow> a = c \<and> b = d"
proof -
  have "(word_of_nat (a * 256 + b) :: u16) = word_of_nat (c * 256 + d) \<longleftrightarrow>
        a * 256 + b = c * 256 + d"
    using assms by (simp add: word_of_nat_eq_iff take_bit_eq_mod del: of_nat_add of_nat_mult)
  moreover have "a * 256 + b = c * 256 + d \<longleftrightarrow> a = c \<and> b = d" 
  proof
    assume "a * 256 + b = c * 256 + d"
    then have "(a * 256 + b) div 256 = (c * 256 + d) div 256" "(a * 256 + b) mod 256 = (c * 256 + d) mod 256"
      by simp_all
    then show "a = c \<and> b = d" using assms by simp
  qed simp
  ultimately show ?thesis by blast
qed

lemma init_count_class16_pair:
  assumes "a < 256" "b < 256"
  shows "init_count_class16 tbl (word_of_nat (a * 256 + b)) =
           push_bit 8 (ucast (count_class_lookup8 (word_of_nat a)))
             OR ucast (count_class_lookup8 (word_of_nat b))"
proof -
  let ?g = "\<lambda>(a, b). word_of_nat (a * 256 + b) :: u16"
  let ?h = "\<lambda>(a, b). push_bit 8 (ucast (count_class_lookup8 (word_of_nat a)))
             OR ucast (count_class_lookup8 (word_of_nat b)) :: u16"
  have "init_count_class16 tbl = fold (\<lambda>k t. t(?g k := ?h k)) (List.product [0..<256] [0..<256]) tbl"
    unfolding init_count_class16_def fold_fold_pairs[symmetric] by (simp del: upt_rec_numeral)
  moreover have "fold (\<lambda>k t. t(?g k := ?h k)) (List.product [0..<256] [0..<256]) tbl (?g (a, b)) = ?h (a, b)"
    using assms by (intro fold_upd_unique) (auto simp: word_of_nat16_pair simp del: of_nat_add of_nat_mult upt_rec_numeral)
  ultimately show ?thesis by simp
qed

lemma load_le_pair: "(load_le [a, b] :: u16) = word_of_nat (unat b * 256 + unat a)"
proof (rule bit_word_eqI)
  fix n
  assume n: "n < LENGTH(16)"
  have "word_of_nat (unat b * 256 + unat a) = (push_bit 8 (ucast b) + ucast a :: u16)"
    by (simp add: push_bit_eq_mult)
  also have "\<dots> = push_bit 8 (ucast b) OR ucast a"
    by (rule disjunctive_add_eq_or) (rule bit_word_eqI, auto simp: bit_simps dest: bit_imp_le_length)
  finally show "bit (load_le [a, b] :: u16) n = bit (word_of_nat (unat b * 256 + unat a) :: u16) n"
    by (simp add: or.commute)
qed

lemma class16_bytes:
  "store_le 2 (init_count_class16 tbl (load_le [a, b])) =
     [count_class_lookup8 a, count_class_lookup8 b]"
proof -
  have u: "unat a < 256" "unat b < 256" using unsigned_less[of a] unsigned_less[of b] by simp_all
  have "init_count_class16 tbl (load_le [a, b]) =
          (load_le [count_class_lookup8 a, count_class_lookup8 b] :: u16)"
    unfolding load_le_pair[of a b] init_count_class16_pair[OF u(2) u(1)] by (simp add: or.commute)
  then show ?thesis
    using store_load_le[where 'a=16 and bs="[count_class_lookup8 a, count_class_lookup8 b]"] 
    by (simp add: numeral_2_eq_2)
qed

lemma load_le64_eq_0: "length c = 8 \<Longrightarrow> (load_le c :: u64) = 0 \<longleftrightarrow> (\<forall>b \<in> set c. b = 0)"
  and load_le32_eq_0: "length c = 4 \<Longrightarrow> (load_le c :: u32) = 0 \<longleftrightarrow> (\<forall>b \<in> set c. b = 0)"
  by (rule load_le_eq_0, simp)+

lemma list8_cases:
  assumes "length c = 8"
  obtains a0 a1 a2 a3 a4 a5 a6 a7 where "c = [a0, a1, a2, a3, a4, a5, a6, a7]"
  using assms by (auto simp: numeral_eq_Suc length_Suc_conv)

lemma list4_cases:
  assumes "length c = 4"
  obtains a0 a1 a2 a3 where "c = [a0, a1, a2, a3]"
  using assms by (auto simp: numeral_eq_Suc length_Suc_conv)

lemma store_le_ones:
  "store_le 8 (0x0101010101010101 :: u64) = [1, 1, 1, 1, 1, 1, 1, 1]"
  "store_le 4 (0x01010101 :: u32) = [1, 1, 1, 1]"
  by (simp_all add: store_le_numeral)

lemma map_const_zero: "\<forall>b \<in> set c. b = 0 \<Longrightarrow> f 0 = 0 \<Longrightarrow> map f c = c"
  by (induction c) auto

lemma classify_chunk64_bytes:
  assumes "length c = 8"
  shows "classify_chunk64 (init_count_class16 tbl) c = map count_class_lookup8 c"
proof (cases "(load_le c :: u64) = 0")
  case True
  then show ?thesis
    using assms by (simp add: classify_chunk64_def load_le64_eq_0 map_const_zero)
next
  case False
  obtain a0 a1 a2 a3 a4 a5 a6 a7 where c: "c = [a0, a1, a2, a3, a4, a5, a6, a7]"
    using assms by (rule list8_cases)
  have "load16 c 0 = load_le [a0, a1]" "load16 c 2 = load_le [a2, a3]"
    "load16 c 4 = load_le [a4, a5]" "load16 c 6 = load_le [a6, a7]"
    unfolding c load16_def by (simp_all del: load_le.simps)
  with False show ?thesis
    by (simp add: classify_chunk64_def class16_bytes c del: load_le.simps)
qed

lemma classify_chunk32_bytes:
  assumes "length c = 4"
  shows "classify_chunk32 (init_count_class16 tbl) c = map count_class_lookup8 c"
proof (cases "(load_le c :: u32) = 0")
  case True
  then show ?thesis
    using assms by (simp add: classify_chunk32_def load_le32_eq_0 map_const_zero)
next
  case False
  obtain a0 a1 a2 a3 where c: "c = [a0, a1, a2, a3]"
    using assms by (rule list4_cases)
  have "load16 c 0 = load_le [a0, a1]" "load16 c 2 = load_le [a2, a3]"
    unfolding c load16_def by (simp_all del: load_le.simps)
  with False show ?thesis
    by (simp add: classify_chunk32_def class16_bytes c del: load_le.simps)
qed

lemma simplify_chunk64_bytes:
  assumes "length c = 8"
  shows "simplify_chunk64 c = map simplify_lookup c"
proof (cases "(load_le c :: u64) = 0")
  case True
  then have "c = [0, 0, 0, 0, 0, 0, 0, 0]"
    using list8_cases[OF assms] load_le64_eq_0[OF assms] by (metis list.set_intros)
  then show ?thesis
    using True by (simp add: simplify_chunk64_def store_le_ones simplify_lookup_def)
next
  case False
  obtain a0 a1 a2 a3 a4 a5 a6 a7 where c: "c = [a0, a1, a2, a3, a4, a5, a6, a7]"
    using assms by (rule list8_cases)
  from False show ?thesis
    by (simp add: simplify_chunk64_def c del: load_le.simps)
qed

lemma simplify_chunk32_bytes:
  assumes "length c = 4"
  shows "simplify_chunk32 c = map simplify_lookup c"
proof (cases "(load_le c :: u32) = 0")
  case True
  then have "c = [0, 0, 0, 0]"
    using list4_cases[OF assms] load_le32_eq_0[OF assms] by (metis list.set_intros)
  then show ?thesis
    using True by (simp add: simplify_chunk32_def store_le_ones simplify_lookup_def)
next
  case False
  obtain a0 a1 a2 a3 where c: "c = [a0, a1, a2, a3]"
    using assms by (rule list4_cases)
  from False show ?thesis
    by (simp add: simplify_chunk32_def c del: load_le.simps)
qed

interpretation classify64: word_loop 8 "classify_chunk64 (init_count_class16 tbl)"
    "classify_loop64 (init_count_class16 tbl)" count_class_lookup8 for tbl
  by unfold_locales (simp_all add: classify_chunk64_bytes)

interpretation classify32: word_loop 4 "classify_chunk32 (init_count_class16 tbl)"
    "classify_loop32 (init_count_class16 tbl)" count_class_lookup8 for tbl
  by unfold_locales (simp_all add: classify_chunk32_bytes)

interpretation simplify64: word_loop 8 simplify_chunk64 simplify_loop64 simplify_lookup
  by unfold_locales (simp_all add: simplify_chunk64_bytes)

interpretation simplify32: word_loop 4 simplify_chunk32 simplify_loop32 simplify_lookup
  by unfold_locales (simp_all add: simplify_chunk32_bytes)

text \<open>
  C15: after \<^verbatim>\<open>init_count_class16\<close> has filled the 16-bit table (whatever it held), the
  word-wise \<^verbatim>\<open>classify_counts\<close>, in its 64-bit and in its 32-bit flavour, replaces every
  byte of a map by its hit-count class and does nothing else.
\<close>

theorem classify_counts_correct:
  assumes "8 dvd length mem"
  shows "classify_counts (init_count_class16 tbl) mem = map count_class_lookup8 mem \<and>
    classify_counts_32 (init_count_class16 tbl) mem = map count_class_lookup8 mem"
proof -
  have "4 dvd length mem" using dvd_trans[OF _ assms, of 4] by simp
  then show ?thesis
    using classify64.loop_all[OF assms] classify32.loop_all
    unfolding classify_counts_def classify_counts_32_def by blast
qed

theorem classify_counts_witness:
  "classify_counts (init_count_class16 (\<lambda>_. 0)) [0, 1, 2, 3, 5, 9, 100, 200] = [0, 1, 2, 4, 8, 16, 64, 128]"
  using classify_counts_correct[of "[0, 1, 2, 3, 5, 9, 100, 200]" "\<lambda>_. 0"]
  by (simp add: Suc_8 count_class_lookup8_def)

section \<open>The verdict of has_new_bits\<close>

text \<open>The reference over single bytes: 2 for a pristine virgin byte, 1 for a new count bit.\<close>

definition byte_verdict :: "u8 \<Rightarrow> u8 \<Rightarrow> nat" where
  "byte_verdict c v = (if c \<noteq> 0 \<and> v = 0xff then 2 else if c AND v \<noteq> 0 then 1 else 0)"

definition verdict :: "buf \<Rightarrow> buf \<Rightarrow> nat" where
  "verdict cs vs = foldr max (map2 byte_verdict cs vs) 0"

lemma foldr_max_append: "foldr max (xs @ ys) (0 :: nat) = max (foldr max xs 0) (foldr max ys 0)"
  by (induction xs) auto

lemma verdict_append:
  "length c = length v \<Longrightarrow> verdict (c @ cs) (v @ vs) = max (verdict c v) (verdict cs vs)"
  by (simp add: verdict_def foldr_max_append del: foldr_append)

lemma verdict_le_2: "verdict cs vs \<le> 2"
proof -
  have "foldr max ns (0 :: nat) \<le> 2" if "\<forall>n \<in> set ns. n \<le> 2" for ns
    using that by (induction ns) auto
  then show ?thesis unfolding verdict_def by (auto simp: byte_verdict_def set_zip)
qed

lemma foldr_max_ge: "(k :: nat) \<le> foldr max ns 0 \<longleftrightarrow> k = 0 \<or> (\<exists>n \<in> set ns. k \<le> n)"
  by (induction ns) (auto simp: le_max_iff_disj)

lemma verdict_ge:
  assumes "length cs = length vs" "0 < k"
  shows "k \<le> verdict cs vs \<longleftrightarrow> (\<exists>i < length vs. k \<le> byte_verdict (cs ! i) (vs ! i))"
  using assms by (fastforce simp: verdict_def foldr_max_ge set_zip)

lemma and_ff: "(c :: u8) AND 0xff = c"
proof -
  have e: "(0xff :: u8) = - 1" by simp
  show ?thesis unfolding e by simp
qed

lemma byte_verdict_ge_1: "Suc 0 \<le> byte_verdict c v \<longleftrightarrow> c AND v \<noteq> 0"
  by (auto simp: byte_verdict_def and_ff)

lemma byte_verdict_ge_2: "2 \<le> byte_verdict c v \<longleftrightarrow> c \<noteq> 0 \<and> v = 0xff"
  by (auto simp: byte_verdict_def)

lemma and_not_disjoint:
  assumes "(c :: u8) AND v = 0"
  shows "v AND NOT c = v"
proof (rule bit_word_eqI)
  fix n
  assume n: "n < LENGTH(8)"
  have "\<not> bit (c AND v) n" by (simp add: assms)
  with n show "bit (v AND NOT c) n = bit v n" by (auto simp: bit_simps)
qed

lemma load_le_and_nonzero:
  assumes "length c = length v" "8 * length v \<le> LENGTH('a)"
  shows "(load_le c AND load_le v :: 'a::len word) \<noteq> 0 \<longleftrightarrow> 1 \<le> verdict c v"
proof -
  have "(load_le c AND load_le v :: 'a word) = 0 \<longleftrightarrow> (\<forall>i < length v. c ! i AND v ! i = 0)"
    using assms by (auto simp: load_le_and load_le_eq_0 set_zip)
  then show ?thesis
    using assms(1) by (auto simp: verdict_ge byte_verdict_ge_1)
qed

lemma map2_and_not_disjoint:
  assumes "length c = length v" "verdict c v = 0"
  shows "map2 (\<lambda>v c. v AND NOT c) v c = v"
proof (rule nth_equalityI)
  fix i
  assume i: "i < length (map2 (\<lambda>v c. v AND NOT c) v c)"
  have "c ! i AND v ! i = 0"
    using assms i verdict_ge[OF assms(1), of 1] by (auto simp: byte_verdict_ge_1)
  then show "map2 (\<lambda>v c. v AND NOT c) v c ! i = v ! i"
    using i by (simp add: and_not_disjoint)
qed (use assms in simp)

text \<open>The contract of the word-wise comparison and what it gives for a whole map.\<close>

locale virgin_loop =
  fixes w :: nat
    and chunk :: "buf \<Rightarrow> buf \<Rightarrow> nat \<Rightarrow> nat \<times> buf"
    and loop :: "nat \<Rightarrow> buf \<Rightarrow> buf \<Rightarrow> nat \<Rightarrow> nat \<times> buf"
  assumes vl_0: "loop 0 cur vir ret = (ret, vir)"
    and vl_Suc: "loop (Suc i) cur vir ret =
       (let (ret', v) = chunk (take w cur) (take w vir) ret;
            (r, vs) = loop i (drop w cur) (drop w vir) ret' in (r, v @ vs))"
    and vl_chunk: "\<lbrakk>length c = w; length v = w; ret \<le> 2\<rbrakk> \<Longrightarrow>
       chunk c v ret = (max ret (verdict c v), map2 (\<lambda>v c. v AND NOT c) v c)"
begin

lemma vl_loop:
  "\<lbrakk>length cur = i * w; length vir = i * w; ret \<le> 2\<rbrakk> \<Longrightarrow>
   loop i cur vir ret = (max ret (verdict cur vir), map2 (\<lambda>v c. v AND NOT c) vir cur)"
proof (induction i arbitrary: cur vir ret)
  case 0
  then show ?case by (simp add: vl_0 verdict_def)
next
  case (Suc i)
  let ?c = "take w cur" and ?v = "take w vir" and ?cs = "drop w cur" and ?vs = "drop w vir"
  have l: "length ?c = w" "length ?v = w" using Suc.prems by simp_all
  have "loop i ?cs ?vs (max ret (verdict ?c ?v)) =
          (max (max ret (verdict ?c ?v)) (verdict ?cs ?vs), map2 (\<lambda>v c. v AND NOT c) ?vs ?cs)"
    using Suc.prems verdict_le_2 by (intro Suc.IH) simp_all
  moreover have "verdict cur vir = max (verdict ?c ?v) (verdict ?cs ?vs)"
    using verdict_append[of ?c ?v ?cs ?vs] l by simp
  moreover have "map2 (\<lambda>v c. v AND NOT c) vir cur =
      map2 (\<lambda>v c. v AND NOT c) ?v ?c @ map2 (\<lambda>v c. v AND NOT c) ?vs ?cs"
    using l by (metis append_take_drop_id map_append zip_append)
  ultimately show ?case
    using vl_chunk[OF l Suc.prems(3)] by (simp add: vl_Suc max.assoc)
qed

end

lemma hnb_chunk64_bytes:
  assumes l: "length c = 8" "length v = 8" and "ret \<le> 2"
  shows "hnb_chunk64 c v ret = (max ret (verdict c v), map2 (\<lambda>v c. v AND NOT c) v c)"
proof -
  have nz: "(load_le c \<noteq> (0 :: u64) \<and> load_le c AND load_le v \<noteq> (0 :: u64)) \<longleftrightarrow> 1 \<le> verdict c v"
    using load_le_and_nonzero[where 'a=64, of c v] l by auto
  have p: "(\<exists>i < 8. c ! i \<noteq> 0 \<and> v ! i = 0xff) \<longleftrightarrow> 2 \<le> verdict c v"
    using verdict_ge[of c v 2] l by (simp add: byte_verdict_ge_2)
  have "(\<exists>i < 8. c ! i \<noteq> 0 \<and> v ! i = 0xff) \<longleftrightarrow>
      pristine_hit c v 0 \<or> pristine_hit c v 1 \<or> pristine_hit c v 2 \<or> pristine_hit c v 3 \<or>
      pristine_hit c v 4 \<or> pristine_hit c v 5 \<or> pristine_hit c v 6 \<or> pristine_hit c v 7"
    unfolding pristine_hit_def by (simp add: numeral_eq_Suc less_Suc_eq) blast
  moreover have "store_le 8 (load_le v AND NOT (load_le c) :: u64) = map2 (\<lambda>v c. v AND NOT c) v c"
    using store_le_and_not[of v c, where 'a=64] l by simp
  moreover have "verdict c v = 0 \<Longrightarrow> map2 (\<lambda>v c. v AND NOT c) v c = v"
    using l by (intro map2_and_not_disjoint) simp_all
  ultimately show ?thesis
    using nz p verdict_le_2[of c v] assms(3)
    by (cases "verdict c v = 0"; cases "verdict c v = 1") (auto simp: hnb_chunk64_def Let_def)
qed

lemma hnb_chunk32_bytes:
  assumes l: "length c = 4" "length v = 4" and "ret \<le> 2"
  shows "hnb_chunk32 c v ret = (max ret (verdict c v), map2 (\<lambda>v c. v AND NOT c) v c)"
proof -
  have nz: "(load_le c \<noteq> (0 :: u32) \<and> load_le c AND load_le v \<noteq> (0 :: u32)) \<longleftrightarrow> 1 \<le> verdict c v"
    using load_le_and_nonzero[where 'a=32, of c v] l by auto
  have p: "(\<exists>i < 4. c ! i \<noteq> 0 \<and> v ! i = 0xff) \<longleftrightarrow> 2 \<le> verdict c v"
    using verdict_ge[of c v 2] l by (simp add: byte_verdict_ge_2)
  have "(\<exists>i < 4. c ! i \<noteq> 0 \<and> v ! i = 0xff) \<longleftrightarrow>
      pristine_hit c v 0 \<or> pristine_hit c v 1 \<or> pristine_hit c v 2 \<or> pristine_hit c v 3"
    unfolding pristine_hit_def by (simp add: numeral_eq_Suc less_Suc_eq) blast
  moreover have "store_le 4 (load_le v AND NOT (load_le c) :: u32) = map2 (\<lambda>v c. v AND NOT c) v c"
    using store_le_and_not[of v c, where 'a=32] l by simp
  moreover have "verdict c v = 0 \<Longrightarrow> map2 (\<lambda>v c. v AND NOT c) v c = v"
    using l by (intro map2_and_not_disjoint) simp_all
  ultimately show ?thesis
    using nz p verdict_le_2[of c v] assms(3)
    by (cases "verdict c v = 0"; cases "verdict c v = 1") (auto simp: hnb_chunk32_def Let_def)
qed

interpretation hnb64: virgin_loop 8 hnb_chunk64 has_new_bits_loop64
  by unfold_locales (simp_all add: hnb_chunk64_bytes)

interpretation hnb32: virgin_loop 4 hnb_chunk32 has_new_bits_loop32
  by unfold_locales (simp_all add: hnb_chunk32_bytes)

lemma has_new_bits_verdict:
  assumes "length cur = length vir" "8 dvd length vir"
  shows "has_new_bits cur vir = (verdict cur vir, map2 (\<lambda>v c. v AND NOT c) vir cur)"
  using hnb64.vl_loop[of cur "length vir div 8" vir 0] assms by (simp add: has_new_bits_def)

lemma has_new_bits_32_verdict:
  assumes "length cur = length vir" "4 dvd length vir"
  shows "has_new_bits_32 cur vir = (verdict cur vir, map2 (\<lambda>v c. v AND NOT c) vir cur)"
  using hnb32.vl_loop[of cur "length vir div 4" vir 0] assms by (simp add: has_new_bits_32_def)

lemma verdict_cases:
  assumes "length cur = length vir"
  shows "verdict cur vir =
    (if \<exists>i < length vir. cur ! i \<noteq> 0 \<and> vir ! i = 0xff then 2
     else if \<exists>i < length vir. cur ! i AND vir ! i \<noteq> 0 then 1 else 0)"
  using verdict_le_2[of cur vir] verdict_ge[OF assms, of "Suc 0"] verdict_ge[OF assms, of 2]
  by (auto simp: byte_verdict_ge_1 byte_verdict_ge_2)

lemma ex_less_8: "(\<exists>i < 8. P i) \<longleftrightarrow> P 0 \<or> P 1 \<or> P 2 \<or> P 3 \<or> P 4 \<or> P 5 \<or> P 6 \<or> P (7 :: nat)"
  by (simp add: numeral_eq_Suc less_Suc_eq) blast

text \<open>
  C4: on maps of equal, word-aligned length \<^verbatim>\<open>has_new_bits\<close> returns 2 exactly if a hit
  tuple was never hit before (its virgin byte is pristine), else 1 exactly if a tuple shows
  a count class not seen before, else 0; in every case the virgin map loses the bits of
  the trace and nothing else. The 32-bit flavour computes the same.
\<close>

theorem has_new_bits_correct:
  assumes "length cur = length vir" "8 dvd length vir"
  shows "has_new_bits cur vir =
     (if \<exists>i < length vir. cur ! i \<noteq> 0 \<and> vir ! i = 0xff then 2
      else if \<exists>i < length vir. cur ! i AND vir ! i \<noteq> 0 then 1 else 0,
      map2 (\<lambda>v c. v AND NOT c) vir cur)
   \<and> has_new_bits_32 cur vir = has_new_bits cur vir"
proof -
  have "4 dvd length vir" using dvd_trans[OF _ assms(2), of 4] by simp
  then show ?thesis
    using has_new_bits_verdict[OF assms] has_new_bits_32_verdict[OF assms(1)] verdict_cases[OF assms(1)]
    by simp
qed

theorem has_new_bits_correct_witness:
  "has_new_bits [0, 1, 0, 0, 4, 0, 0, 0] [255, 254, 255, 255, 251, 255, 255, 0]
     = (0, [255, 254, 255, 255, 251, 255, 255, 0]) \<and>
   has_new_bits [0, 3, 0, 0, 4, 0, 0, 0] [255, 254, 255, 255, 251, 255, 255, 0]
     = (1, [255, 252, 255, 255, 251, 255, 255, 0]) \<and>
   has_new_bits [8, 3, 0, 0, 4, 0, 0, 0] [255, 254, 255, 255, 251, 255, 255, 0]
     = (2, [247, 252, 255, 255, 251, 255, 255, 0])"
  using has_new_bits_correct[of "[0, 1, 0, 0, 4, 0, 0, 0]" "[255, 254, 255, 255, 251, 255, 255, 0]"]
    has_new_bits_correct[of "[0, 3, 0, 0, 4, 0, 0, 0]" "[255, 254, 255, 255, 251, 255, 255, 0]"]
    has_new_bits_correct[of "[8, 3, 0, 0, 4, 0, 0, 0]" "[255, 254, 255, 255, 251, 255, 255, 0]"]
  by (simp add: Suc_8 ex_less_8)

text \<open>The virgin map after a sequence of traces.\<close>

definition virgin_after :: "buf list \<Rightarrow> buf \<Rightarrow> buf" where
  "virgin_after ts vir = fold (\<lambda>t v. snd (has_new_bits t v)) ts vir"

lemma virgin_after_bits:
  assumes "8 dvd length vir" "\<forall>t \<in> set ts. length t = length vir"
  shows "length (virgin_after ts vir) = length vir"
    and "i < length vir \<Longrightarrow> bit (virgin_after ts vir ! i) b \<longleftrightarrow> bit (vir ! i) b \<and> (\<forall>t \<in> set ts. \<not> bit (t ! i) b)"
proof -
  have "length (virgin_after ts vir) = length vir \<and>
      (i < length vir \<longrightarrow> bit (virgin_after ts vir ! i) b = (bit (vir ! i) b \<and> (\<forall>t \<in> set ts. \<not> bit (t ! i) b)))"
    using assms
  proof (induction ts arbitrary: vir)
    case (Cons t ts)
    let ?v = "map2 (\<lambda>v c. v AND NOT c) vir t"
    have t: "length t = length vir" using Cons.prems(2) by simp
    have "virgin_after (t # ts) vir = virgin_after ts ?v"
      using has_new_bits_verdict[OF t Cons.prems(1)] by (simp add: virgin_after_def)
    moreover have "length ?v = length vir" using t by simp
    moreover have "bit (?v ! i) b \<longleftrightarrow> bit (vir ! i) b \<and> \<not> bit (t ! i) b" if "i < length vir"
      using that t by (auto simp: bit_and_iff bit_not_iff dest: bit_imp_le_length)
    ultimately show ?case using Cons.IH[of ?v] Cons.prems by auto
  qed (simp add: virgin_after_def)
  then show "length (virgin_after ts vir) = length vir"
    and "i < length vir \<Longrightarrow> bit (virgin_after ts vir ! i) b \<longleftrightarrow> bit (vir ! i) b \<and> (\<forall>t \<in> set ts. \<not> bit (t ! i) b)" by blast+
qed

lemma byte_bit_less: "bit (c :: u8) b \<Longrightarrow> b < 8"
  using bit_imp_le_length[of c b] by simp

lemma byte_bits:
  fixes c v :: u8
  shows "c AND v \<noteq> 0 \<longleftrightarrow> (\<exists>b. bit c b \<and> bit v b)" and "c = 0 \<longleftrightarrow> (\<forall>b. \<not> bit c b)" and "v = 0xff \<longleftrightarrow> (\<forall>b < 8. bit v b)"
proof -
  show "c AND v \<noteq> 0 \<longleftrightarrow> (\<exists>b. bit c b \<and> bit v b)" by (auto simp: bit_eq_iff bit_and_iff dest: byte_bit_less)
  show "c = 0 \<longleftrightarrow> (\<forall>b. \<not> bit c b)" by (auto simp: bit_eq_iff dest: byte_bit_less)
  have e: "(0xff :: u8) = - 1" by simp
  show "v = 0xff \<longleftrightarrow> (\<forall>b < 8. bit v b)" unfolding e by (auto simp: bit_minus_1_iff intro!: bit_word_eqI)
qed

text \<open>
  C14: what is new is judged against the whole history. Start with the map that has seen nothing (all bytes 255) and let
  \<^verbatim>\<open>has_new_bits\<close> look at any sequence of traces. The next call returns 2 exactly if its trace hits a
  tuple that no earlier trace hit, else 1 exactly if it shows a count class that no earlier trace showed for that tuple, else
  0. In particular a trace that occurred anywhere in the sequence is never reported as new again.
\<close>

theorem has_new_bits_history:
  assumes "8 dvd n" "\<forall>t \<in> set ts. length t = n" "length cur = n"
  shows "fst (has_new_bits cur (virgin_after ts (replicate n 255))) =
      (if \<exists>i < n. cur ! i \<noteq> 0 \<and> (\<forall>t \<in> set ts. t ! i = 0) then 2
       else if \<exists>i < n. \<exists>b. bit (cur ! i) b \<and> (\<forall>t \<in> set ts. \<not> bit (t ! i) b) then 1 else 0)
    \<and> (cur \<in> set ts \<longrightarrow> fst (has_new_bits cur (virgin_after ts (replicate n 255))) = 0)"
proof -
  let ?v = "virgin_after ts (replicate n 255)"
  have l: "length ?v = n" and v: "\<And>i b. i < n \<Longrightarrow> bit (?v ! i) b \<longleftrightarrow> b < 8 \<and> (\<forall>t \<in> set ts. \<not> bit (t ! i) b)"
    using virgin_after_bits[of "replicate n 255" ts] assms(1,2) byte_bits(3)[of 255]
    by (auto dest: byte_bit_less)
  have p: "?v ! i = 0xff \<longleftrightarrow> (\<forall>t \<in> set ts. t ! i = 0)" if "i < n" for i
    unfolding byte_bits(2,3) using v[OF that] byte_bit_less by blast
  have q: "cur ! i AND ?v ! i \<noteq> 0 \<longleftrightarrow> (\<exists>b. bit (cur ! i) b \<and> (\<forall>t \<in> set ts. \<not> bit (t ! i) b))" if "i < n" for i
    unfolding byte_bits(1) using v[OF that] byte_bit_less by blast
  have "fst (has_new_bits cur ?v) = verdict cur ?v"
    using has_new_bits_verdict[of cur ?v] l assms(1,3) by simp
  also have "\<dots> = (if \<exists>i < n. cur ! i \<noteq> 0 \<and> (\<forall>t \<in> set ts. t ! i = 0) then 2
       else if \<exists>i < n. \<exists>b. bit (cur ! i) b \<and> (\<forall>t \<in> set ts. \<not> bit (t ! i) b) then 1 else 0)"
    using verdict_cases[of cur ?v] l assms(3) p q by (simp cong: conj_cong)
  finally show ?thesis by auto
qed

theorem has_new_bits_history_witness:
  "fst (has_new_bits [8, 3, 0, 0, 4, 0, 0, 0]
     (virgin_after [[8, 3, 0, 0, 4, 0, 0, 0], [0, 4, 1, 0, 0, 0, 0, 0]] (replicate 8 255))) = 0"
  using has_new_bits_history[of 8 "[[8, 3, 0, 0, 4, 0, 0, 0], [0, 4, 1, 0, 0, 0, 0, 0]]" "[8, 3, 0, 0, 4, 0, 0, 0]"] by simp

text \<open>
  C16: \<^verbatim>\<open>simplify_trace\<close>, in both flavours, maps every byte of the trace to 1 if the tuple
  was not hit and to 128 if it was, so two traces become equal exactly if they hit the same tuples.
\<close>

theorem simplify_trace_correct:
  assumes "8 dvd length mem" "8 dvd length mem'"
  shows "simplify_trace mem = map (\<lambda>b. if b = 0 then 1 else 128) mem
    \<and> simplify_trace_32 mem = simplify_trace mem
    \<and> (simplify_trace mem = simplify_trace mem' \<longleftrightarrow> map (\<lambda>b. b = 0) mem = map (\<lambda>b. b = 0) mem')"
proof -
  have s: "simplify_trace m = map simplify_lookup m \<and> simplify_trace_32 m = map simplify_lookup m"
    if "8 dvd length m" for m
    using simplify64.loop_all[OF that] simplify32.loop_all[of m] dvd_trans[OF _ that, of 4]
    by (simp add: simplify_trace_def simplify_trace_32_def)
  have inj: "map simplify_lookup m = map simplify_lookup m' \<longleftrightarrow> map (\<lambda>b. b = 0) m = map (\<lambda>b. b = 0) m'" for m m'
    by (induction m m' rule: list_induct2') (auto simp: simplify_lookup_def)
  show ?thesis
    using s[OF assms(1)] s[OF assms(2)] by (simp add: inj) (simp add: simplify_lookup_def)
qed

theorem simplify_trace_witness:
  "simplify_trace [0, 7, 0, 0, 1, 0, 0, 255] = [1, 128, 1, 1, 128, 1, 1, 128]"
  using simplify_trace_correct[of "[0, 7, 0, 0, 1, 0, 0, 255]" "[]"] by (simp add: Suc_8)

end
