(* ===== verification/Bitcount.thy ===== *)
theory Bitcount
  imports Bitmap
begin

unbundle bit_operations_syntax

text \<open>
  The counters of \<^verbatim>\<open>afl-fuzz.c\<close> over a bitmap. \<^verbatim>\<open>count_bytes\<close> and
  \<^verbatim>\<open>count_non_255_bytes\<close> test the four bytes of a 32-bit word with masks;
  \<^verbatim>\<open>count_bits\<close> adds up the bits of a word in parallel. All three are shown equal to a
  sum over the single bytes of the map.
\<close>

section \<open>The counters as sums over bytes\<close>

locale word_counter =
  fixes f :: "u32 \<Rightarrow> u32"
    and weight :: "u8 \<Rightarrow> nat"
  assumes f_word: "f (load_le [a, b, c, d]) = of_nat (weight a + weight b + weight c + weight d)"
begin

lemma count_loop_sum:
  "length m = i * 4 \<Longrightarrow> count_loop f i m ret = ret + of_nat (sum_list (map weight m))"
proof (induction i arbitrary: m ret)
  case 0
  then show ?case by simp
next
  case (Suc i)
  have "length (take 4 m) = 4" using Suc.prems by simp
  then obtain a b c d where t: "take 4 m = [a, b, c, d]" by (rule list4_cases)
  have "m = [a, b, c, d] @ drop 4 m" using t by (metis append_take_drop_id)
  then have "sum_list (map weight m) =
      weight a + weight b + weight c + weight d + sum_list (map weight (drop 4 m))"
    by (metis (no_types, lifting) add.assoc append_Cons append_Nil list.simps(9) sum_list.Cons)
  moreover have "count_loop f i (drop 4 m) (ret + f (load_le [a, b, c, d])) =
      ret + f (load_le [a, b, c, d]) + of_nat (sum_list (map weight (drop 4 m)))"
    using Suc.prems by (intro Suc.IH) simp
  ultimately show ?case by (simp add: t f_word del: load_le.simps)
qed

lemma count_all:
  "4 dvd length m \<Longrightarrow> count_loop f (length m div 4) m 0 = of_nat (sum_list (map weight m))"
  by (simp add: count_loop_sum)

end

lemma FF_byte: "k < 4 \<Longrightarrow> FF k = push_bit (k * 8) (ucast (0xff :: u8))"
  by (simp add: FF_def)

lemma ucast_ff_bit: "bit (0xff :: int) n \<longleftrightarrow> n < 8"
proof -
  have e: "(0xff :: int) = mask 8" by (simp add: mask_eq_exp_minus_1)
  show ?thesis unfolding e by (auto simp: bit_mask_iff)
qed

lemma load_le_and_FF:
  assumes "length bs = 4" "k < 4"
  shows "load_le bs AND FF k = push_bit (k * 8) (ucast (bs ! k))"
proof (rule bit_word_eqI)
  fix n
  assume n: "n < LENGTH(32)"
  show "bit (load_le bs AND FF k) n = bit (push_bit (k * 8) (ucast (bs ! k)) :: u32) n"
  proof (cases "k * 8 \<le> n \<and> n - k * 8 < 8")
    case True
    then obtain j where j: "n = k * 8 + j" "j < 8" using le_Suc_ex by (metis add_diff_cancel_left')
    with n assms show ?thesis
      by (simp add: FF_def bit_load_le bit_and_iff bit_push_bit_iff ucast_ff_bit bit_unsigned_iff)
  next
    case False
    with n assms show ?thesis
      using bit_imp_le_length[of "bs ! k" "n - k * 8"]
      by (auto simp: FF_def bit_and_iff bit_push_bit_iff ucast_ff_bit bit_unsigned_iff)
  qed
qed

lemma push_byte_inj:
  assumes "k < 4"
  shows "push_bit (k * 8) (ucast (a :: u8)) = (push_bit (k * 8) (ucast b) :: u32) \<longleftrightarrow> a = b"
proof
  assume e: "push_bit (k * 8) (ucast a) = (push_bit (k * 8) (ucast b) :: u32)"
  show "a = b"
  proof (rule bit_word_eqI)
    fix n
    assume "n < LENGTH(8)"
    then show "bit a n = bit b n"
      using arg_cong[OF e, of "\<lambda>w. bit w (k * 8 + n)"] assms
      by (auto simp: bit_push_bit_iff bit_unsigned_iff)
  qed
qed simp

lemma load_le_FF_zero:
  "length bs = 4 \<Longrightarrow> k < 4 \<Longrightarrow> load_le bs AND FF k = 0 \<longleftrightarrow> bs ! k = 0"
  using push_byte_inj[of k "bs ! k" 0] by (simp add: load_le_and_FF)

lemma load_le_FF_full:
  "length bs = 4 \<Longrightarrow> k < 4 \<Longrightarrow> load_le bs AND FF k = FF k \<longleftrightarrow> bs ! k = 0xff"
  by (metis load_le_and_FF FF_byte push_byte_inj)

lemma load_le_ff_iff:
  "(load_le [a, b, c, d] :: u32) = 0xffffffff \<longleftrightarrow> a = 0xff \<and> b = 0xff \<and> c = 0xff \<and> d = 0xff"
  (is "?l = _ \<longleftrightarrow> ?r")
proof
  assume "?l = 0xffffffff"
  then have "store_le 4 ?l = store_le 4 (0xffffffff :: u32)" by simp
  then show ?r
    using store_load_le[of "[a, b, c, d]", where 'a=32]
    by (simp add: store_le_numeral del: load_le.simps)
next
  assume ?r
  have "store_le 4 (0xffffffff :: u32) = [0xff, 0xff, 0xff, 0xff]" by (simp add: store_le_numeral)
  then show "?l = 0xffffffff"
    using \<open>?r\<close> load_store_le[of 4 "0xffffffff :: u32"] by (simp del: load_le.simps)
qed

interpretation bytes_counter: word_counter count_bytes_word "\<lambda>b. if b = 0 then 0 else 1"
proof
  fix a b c d :: u8
  show "count_bytes_word (load_le [a, b, c, d]) = of_nat ((if a = 0 then 0 else 1) +
      (if b = 0 then 0 else 1) + (if c = 0 then 0 else 1) + (if d = 0 then 0 else 1))"
    using load_le_eq_0[where 'a=32 and bs="[a, b, c, d]"]
    by (auto simp: count_bytes_word_def load_le_FF_zero simp del: load_le.simps)
qed

interpretation non_255_counter: word_counter count_non_255_word "\<lambda>b. if b = 0xff then 0 else 1"
proof
  fix a b c d :: u8
  show "count_non_255_word (load_le [a, b, c, d]) = of_nat ((if a = 0xff then 0 else 1) +
      (if b = 0xff then 0 else 1) + (if c = 0xff then 0 else 1) + (if d = 0xff then 0 else 1))"
    by (auto simp: count_non_255_word_def load_le_FF_full load_le_ff_iff simp del: load_le.simps)
qed

section \<open>Counting bits in parallel\<close>

definition popcount8 :: "u8 \<Rightarrow> nat" where
  "popcount8 b = length (filter (bit b) [0..<8])"

text \<open>The first two reduction steps of \<^verbatim>\<open>count_bits\<close>, on a word and on a single byte.\<close>

definition nibble_sums32 :: "u32 \<Rightarrow> u32" where
  "nibble_sums32 v =
     (let v1 = v - (drop_bit 1 v AND 0x55555555)
      in (v1 AND 0x33333333) + (drop_bit 2 v1 AND 0x33333333))"

definition nibble_sums8 :: "u8 \<Rightarrow> u8" where
  "nibble_sums8 v =
     (let v1 = v - (drop_bit 1 v AND 0x55) in (v1 AND 0x33) + (drop_bit 2 v1 AND 0x33))"

definition popcount_int :: "int \<Rightarrow> int" where
  "popcount_int n = n mod 2 + n div 2 mod 2 + n div 4 mod 2 + n div 8 mod 2 + n div 16 mod 2
     + n div 32 mod 2 + n div 64 mod 2 + n div 128 mod 2"

lemma popcount8_int: "int (popcount8 b) = popcount_int (uint b)"
proof -
  have s: "int (length (filter P xs)) = (\<Sum>x\<leftarrow>xs. of_bool (P x))" for P and xs :: "nat list"
    by (induction xs) auto
  have b: "of_bool (bit b i) = uint b div 2 ^ i mod 2" if "i < 8" for i
  proof -
    have "bit b i \<longleftrightarrow> bit (uint b) i" using that by (simp add: bit_uint_iff)
    then show ?thesis unfolding bit_iff_odd by (simp add: mod_2_eq_odd)
  qed
  show ?thesis
    unfolding popcount8_def s popcount_int_def by (simp add: b upt_rec)
qed

definition swar_byte_ok :: "u8 \<Rightarrow> bool" where
  "swar_byte_ok x \<longleftrightarrow>
     (let h = drop_bit 1 x AND 0x55; v1 = x - h; s = uint (nibble_sums8 x) in
      h \<le> x \<and> uint (v1 AND 0x33) + uint (drop_bit 2 v1 AND 0x33) < 256 \<and>
      s mod 16 \<le> 4 \<and> s div 16 \<le> 4 \<and> popcount_int (uint x) = s mod 16 + s div 16)"

lemma swar_byte_table: "list_all swar_byte_ok (map word_of_int [0..255])"
  by code_simp

lemma swar_byte: "swar_byte_ok x"
proof -
  have "uint x \<in> {0..255}" using unsigned_less[where 'a=int, of x] by simp
  then have "swar_byte_ok (word_of_int (uint x))"
    using swar_byte_table unfolding list_all_iff set_map set_upto by blast
  then show ?thesis by simp
qed


lemma load_le_sum:
  "(load_le [a, b, c, d] :: u32) = ucast a + 256 * ucast b + 65536 * ucast c + 16777216 * ucast d"
proof -
  have s: "(ucast x OR push_bit 8 w :: u32) = ucast x + push_bit 8 w" for x :: u8 and w :: u32
    by (rule disjunctive_add_eq_or[symmetric])
       (rule bit_word_eqI, auto simp: bit_simps dest: bit_imp_le_length)
  show ?thesis by (simp add: s) (simp add: push_bit_eq_mult algebra_simps)
qed
declare load_le.simps [simp del]

lemma ucast_diff:
  assumes "y \<le> x"
  shows "(ucast (x - y :: u8) :: u32) = ucast x - ucast y"
proof -
  have "uint x - uint y < 256" 
  proof -
    have "uint x < 256" using unsigned_less[where 'a=int, of x] by simp
    moreover have "0 \<le> uint y" by simp
    ultimately show ?thesis by linarith
  qed
  then have "uint (x - y) = uint x - uint y"
    using assms by (simp add: uint_word_ariths take_bit_eq_mod word_le_def)
  then have "(of_int (uint (x - y)) :: u32) = of_int (uint x) - of_int (uint y)" by simp
  then show ?thesis by simp
qed

lemma ucast_sum:
  assumes "uint x + uint y < 256"
  shows "(ucast (x + y :: u8) :: u32) = ucast x + ucast y"
proof -
  have "uint (x + y) = uint x + uint y"
    using assms by (simp add: uint_word_ariths take_bit_eq_mod)
  then have "(of_int (uint (x + y)) :: u32) = of_int (uint x) + of_int (uint y)" by simp
  then show ?thesis by simp
qed

lemma load_le_add:
  assumes "uint a + uint a' < 256" "uint b + uint b' < 256" "uint c + uint c' < 256" "uint d + uint d' < 256"
  shows "(load_le [a, b, c, d] + load_le [a', b', c', d'] :: u32) = load_le [a + a', b + b', c + c', d + d']"
  unfolding load_le_sum ucast_sum[OF assms(1)] ucast_sum[OF assms(2)] ucast_sum[OF assms(3)]
    ucast_sum[OF assms(4)] by (simp add: algebra_simps)

lemma load_le_diff:
  assumes "a' \<le> a" "b' \<le> b" "c' \<le> c" "d' \<le> d"
  shows "(load_le [a, b, c, d] - load_le [a', b', c', d'] :: u32) = load_le [a - a', b - b', c - c', d - d']"
  unfolding load_le_sum ucast_diff[OF assms(1)] ucast_diff[OF assms(2)] ucast_diff[OF assms(3)]
    ucast_diff[OF assms(4)] by (simp add: algebra_simps)

lemma load_le_const:
  "(0x55555555 :: u32) = load_le [0x55, 0x55, 0x55, 0x55]"
  "(0x33333333 :: u32) = load_le [0x33, 0x33, 0x33, 0x33]"
  "(0x0F0F0F0F :: u32) = load_le [0x0F, 0x0F, 0x0F, 0x0F]"
  unfolding load_le_sum by simp_all

lemma load_le_mask:
  "(load_le [a, b, c, d] AND load_le [m, m, m, m] :: u32) = load_le [a AND m, b AND m, c AND m, d AND m]"
  by (simp add: load_le_and del: load_le.simps)

lemma load_le_drop_mask:
  assumes m: "\<And>n. bit m n \<Longrightarrow> n + k < 8" and l: "length bs = 4" "length ms = 4" "\<forall>x \<in> set ms. x = m"
  shows "drop_bit k (load_le bs) AND load_le ms = (load_le (map (\<lambda>x. drop_bit k x AND m) bs) :: u32)"
proof (rule bit_word_eqI)
  fix n
  assume n: "n < LENGTH(32)"
  have i: "n div 8 < 4" using n by simp
  have ms: "ms ! (n div 8) = m" using l i nth_mem[of "n div 8" ms] by auto
  show "bit (drop_bit k (load_le bs) AND load_le ms :: u32) n = bit (load_le (map (\<lambda>x. drop_bit k x AND m) bs) :: u32) n"
  proof (cases "bit m (n mod 8)")
    case True
    then have k: "n mod 8 + k < 8" by (rule m)
    have "k + n = (n div 8) * 8 + (n mod 8 + k)" by simp
    then have "(k + n) div 8 = n div 8" "(k + n) mod 8 = n mod 8 + k"
      using k by (simp_all only: div_mult_self3 mod_mult_self3) simp_all
    with True n i l ms show ?thesis
      by (auto simp: bit_and_iff bit_drop_bit_eq bit_load_le add.commute)
  next
    case False
    with n i l(1,2) ms show ?thesis by (simp add: bit_and_iff bit_drop_bit_eq bit_load_le)
  qed
qed

lemma nibble_sums32_bytes:
  "nibble_sums32 (load_le [a, b, c, d]) =
     load_le [nibble_sums8 a, nibble_sums8 b, nibble_sums8 c, nibble_sums8 d]"
proof -
  let ?h = "\<lambda>x. drop_bit 1 x AND 0x55 :: u8"
  let ?v = "\<lambda>x. x - ?h x"
  have m1: "bit (0x55 :: u8) n \<Longrightarrow> n + 1 < 8" and m2: "bit (0x33 :: u8) n \<Longrightarrow> n + 2 < 8" for n
    by (cases "n < 8"; auto simp: numeral_eq_Suc less_Suc_eq dest: bit_imp_le_length)+
  have h: "drop_bit 1 (load_le [a, b, c, d]) AND 0x55555555 = (load_le [?h a, ?h b, ?h c, ?h d] :: u32)"
    unfolding load_le_const(1) using load_le_drop_mask[OF m1, where bs="[a, b, c, d]" and ms="[0x55, 0x55, 0x55, 0x55]"]
    by (simp del: load_le.simps)
  have v: "load_le [a, b, c, d] - load_le [?h a, ?h b, ?h c, ?h d] = (load_le [?v a, ?v b, ?v c, ?v d] :: u32)"
    using swar_byte unfolding swar_byte_ok_def Let_def by (intro load_le_diff) blast+
  have q: "drop_bit 2 (load_le [?v a, ?v b, ?v c, ?v d]) AND 0x33333333 =
      (load_le [drop_bit 2 (?v a) AND 0x33, drop_bit 2 (?v b) AND 0x33,
               drop_bit 2 (?v c) AND 0x33, drop_bit 2 (?v d) AND 0x33] :: u32)"
    unfolding load_le_const(2)
    using load_le_drop_mask[OF m2, where bs="[?v a, ?v b, ?v c, ?v d]" and ms="[0x33, 0x33, 0x33, 0x33]"]
    by (simp del: load_le.simps)
  have s: "uint (?v x AND 0x33) + uint (drop_bit 2 (?v x) AND 0x33) < 256" for x
    using swar_byte unfolding swar_byte_ok_def Let_def by blast
  show ?thesis
    unfolding nibble_sums32_def Let_def h v q
    unfolding load_le_const load_le_mask
    unfolding nibble_sums8_def Let_def by (rule load_le_add) (rule s)+
qed

lemma bit_load_le_at:
  "k < 8 \<Longrightarrow> length bs = 4 \<Longrightarrow>
   bit (load_le bs :: u32) (8 * j + k) \<longleftrightarrow> j < 4 \<and> bit (bs ! j) k"
  by (simp add: bit_load_le) linarith

lemma drop4_load_le:
  "drop_bit 4 (load_le [p, q, r, s]) =
     (load_le [drop_bit 4 p OR push_bit 4 q, drop_bit 4 q OR push_bit 4 r,
               drop_bit 4 r OR push_bit 4 s, drop_bit 4 s] :: u32)" (is "?l = load_le ?bs")
proof (rule bit_word_eqI)
  fix n
  assume n: "n < LENGTH(32)"
  define j m where "j = n div 8" and "m = n mod 8"
  have e: "n = 8 * j + m" and m: "m < 8" and "j < 4" using n by (simp_all add: j_def m_def)
  from \<open>j < 4\<close> have j: "j = 0 \<or> j = 1 \<or> j = 2 \<or> j = 3" by linarith
  have l: "bit ?l n \<longleftrightarrow> bit (load_le [p, q, r, s] :: u32) (8 * j + (m + 4))"
    by (simp add: bit_drop_bit_eq e ac_simps)
  have r: "bit (load_le ?bs :: u32) n \<longleftrightarrow> bit (?bs ! j) m"
    using \<open>j < 4\<close> m unfolding e by (subst bit_load_le_at) simp_all
  have high: "\<not> bit (x :: u8) (4 + m)" if "4 \<le> m" for x
    using that bit_imp_le_length[of x "4 + m"] by auto
  show "bit ?l n = bit (load_le ?bs :: u32) n"
  proof (cases "m < 4")
    case True
    then have "bit ?l n \<longleftrightarrow> bit ([p, q, r, s] ! j) (m + 4)"
      unfolding l using \<open>j < 4\<close> by (subst bit_load_le_at) simp_all
    with True j show ?thesis
      unfolding r by (elim disjE) (simp_all add: bit_or_iff bit_drop_bit_eq bit_push_bit_iff add.commute)
  next
    case False
    have sh: "8 * j + (m + 4) = 8 * Suc j + (m - 4)" using False by simp
    have "bit ?l n \<longleftrightarrow> Suc j < 4 \<and> bit ([p, q, r, s] ! Suc j) (m - 4)"
      unfolding l sh using m by (subst bit_load_le_at) simp_all
    with False j m show ?thesis
      unfolding r by (elim disjE) (simp_all add: bit_or_iff bit_drop_bit_eq bit_push_bit_iff high)
  qed
qed

lemma swar_low_nibble:
  assumes "uint x mod 16 \<le> 4" "uint x div 16 \<le> 4" "uint y mod 16 \<le> 4"
  shows "uint (drop_bit 4 x OR push_bit 4 y :: u8) = uint x div 16 + 16 * (uint y mod 16)"
proof -
  have "(drop_bit 4 x OR push_bit 4 y :: u8) = drop_bit 4 x + push_bit 4 y"
    by (rule disjunctive_add_eq_or[symmetric])
       (rule bit_word_eqI, auto simp: bit_simps dest: bit_imp_le_length)
  moreover have "uint (drop_bit 4 x) = uint x div 16"
    by (simp add: drop_bit_eq_div uint_div)
  moreover have "uint (push_bit 4 y :: u8) = 16 * (uint y mod 16)"
    by (simp add: push_bit_eq_mult uint_word_ariths take_bit_eq_mod mult_mod_right mult.commute)
  ultimately have "uint (drop_bit 4 x OR push_bit 4 y :: u8) = (uint x div 16 + 16 * (uint y mod 16)) mod 256"
    by (simp add: uint_word_ariths take_bit_eq_mod)
  also have "\<dots> = uint x div 16 + 16 * (uint y mod 16)"
    using assms by (intro mod_pos_pos_trivial) (simp_all add: pos_imp_zdiv_nonneg_iff)
  finally show ?thesis .
qed


text \<open>The value of a byte after the reduction: the sum of its two nibbles is its bit count.\<close>

lemma swar_byte_count:
  assumes "x = nibble_sums8 a" "y = nibble_sums8 b \<or> y = 0"
  shows "uint x + uint (drop_bit 4 x OR push_bit 4 y) < 256"
    and "(x + (drop_bit 4 x OR push_bit 4 y)) AND 0x0F = word_of_nat (popcount8 a)"
proof -
  have nx: "uint x mod 16 \<le> 4" "uint x div 16 \<le> 4" "int (popcount8 a) = uint x mod 16 + uint x div 16"
    using swar_byte[of a] assms(1) by (auto simp: swar_byte_ok_def Let_def popcount8_int)
  have ny: "uint y mod 16 \<le> 4"
    using swar_byte[of b] assms(2) by (auto simp: swar_byte_ok_def Let_def)
  have sx: "uint x = 16 * (uint x div 16) + uint x mod 16" by simp
  note n = swar_low_nibble[OF nx(1,2) ny]
  show lt: "uint x + uint (drop_bit 4 x OR push_bit 4 y) < 256"
    unfolding n using nx ny sx by linarith
  have "uint ((x + (drop_bit 4 x OR push_bit 4 y)) AND 0x0F) = (uint x + uint x div 16 + 16 * (uint y mod 16)) mod 16"
  proof -
    have m: "(0x0F :: u8) = mask 4" by (simp add: mask_eq_exp_minus_1)
    have "uint (x + (drop_bit 4 x OR push_bit 4 y)) = uint x + uint x div 16 + 16 * (uint y mod 16)"
    proof -
      have "uint (x + (drop_bit 4 x OR push_bit 4 y)) = (uint x + uint (drop_bit 4 x OR push_bit 4 y)) mod 256"
        by (simp add: uint_word_ariths take_bit_eq_mod)
      also have "\<dots> = uint x + uint (drop_bit 4 x OR push_bit 4 y)"
        using lt by (intro mod_pos_pos_trivial) simp_all
      finally show ?thesis by (simp add: n)
    qed
    then show ?thesis
      unfolding m take_bit_eq_mask[symmetric] by (simp add: take_bit_eq_mod uint_mod)
  qed
  also have "\<dots> = (uint x mod 16 + uint x div 16) mod 16" by (simp add: mod_add_left_eq)
  also have "\<dots> = int (popcount8 a)" using nx by simp
  also have "\<dots> = uint (word_of_nat (popcount8 a) :: u8)"
    using nx by (simp add: unsigned_of_nat take_bit_nat_eq_self_iff take_bit_nat_eq_self)
  finally show "(x + (drop_bit 4 x OR push_bit 4 y)) AND 0x0F = word_of_nat (popcount8 a)"
    by (simp add: word_uint_eq_iff)
qed

lemma popcount8_le_8: "popcount8 a \<le> 8"
  unfolding popcount8_def by (rule order_trans[OF length_filter_le]) simp

lemma drop24_load_le: "drop_bit 24 (load_le [a, b, c, d] :: u32) = ucast d"
proof (rule bit_word_eqI)
  fix n
  assume n: "n < LENGTH(32)"
  show "bit (drop_bit 24 (load_le [a, b, c, d] :: u32)) n = bit (ucast d :: u32) n"
  proof (cases "n < 8")
    case True
    then show ?thesis
      using n bit_load_le_at[of n "[a, b, c, d]" 3] by (simp add: bit_drop_bit_eq bit_unsigned_iff)
  next
    case False
    then show ?thesis
      using bit_imp_le_length[of d n] bit_imp_le_length[of "load_le [a, b, c, d] :: u32" "24 + n"]
      by (auto simp: bit_drop_bit_eq bit_unsigned_iff)
  qed
qed

lemma swar_multiply:
  assumes "i \<le> 8" "j \<le> 8" "k \<le> 8" "l \<le> 8"
  shows "drop_bit 24 (load_le [word_of_nat i, word_of_nat j, word_of_nat k, word_of_nat l] * 0x01010101 :: u32)
           = word_of_nat (i + j + k + l)"
proof -
  have u: "(ucast (word_of_nat n :: u8) :: u32) = word_of_nat n" if "n \<le> 32" for n
    using that by (simp add: unsigned_ucast_eq unsigned_of_nat take_bit_nat_eq_self)
  have z: "(4294967296 :: u32) = 0" "(1103806595072 :: u32) = 0" "(282578783305728 :: u32) = 0"
    by simp_all
  have "(load_le [word_of_nat i, word_of_nat j, word_of_nat k, word_of_nat l] * 0x01010101 :: u32)
      = load_le [word_of_nat i, word_of_nat (i + j), word_of_nat (i + j + k), word_of_nat (i + j + k + l)]"
    using assms unfolding load_le_sum
    by (simp add: u del: of_nat_add) (simp add: algebra_simps, simp only: z, simp)
  then show ?thesis using assms by (simp add: drop24_load_le u del: of_nat_add)
qed


lemma count_bits_word_bytes:
  "count_bits_word (load_le [a, b, c, d]) =
     of_nat (popcount8 a + popcount8 b + popcount8 c + popcount8 d)"
proof (cases "(load_le [a, b, c, d] :: u32) = 0xffffffff")
  case True
  have "popcount8 0xff = 8" by code_simp
  with True show ?thesis by (simp add: count_bits_word_def load_le_ff_iff)
next
  case False
  let ?n = "nibble_sums8"
  let ?w = "load_le [?n a, ?n b, ?n c, ?n d] :: u32"
  have s: "?w + drop_bit 4 ?w = load_le
      [?n a + (drop_bit 4 (?n a) OR push_bit 4 (?n b)), ?n b + (drop_bit 4 (?n b) OR push_bit 4 (?n c)),
       ?n c + (drop_bit 4 (?n c) OR push_bit 4 (?n d)), ?n d + (drop_bit 4 (?n d) OR push_bit 4 0)]"
    unfolding drop4_load_le using swar_byte_count(1)[of "?n d" d 0]
    by (subst load_le_add) (simp_all add: swar_byte_count(1)[OF refl disjI1[OF refl]])
  have "(?w + drop_bit 4 ?w) AND 0x0F0F0F0F =
      load_le [word_of_nat (popcount8 a), word_of_nat (popcount8 b), word_of_nat (popcount8 c), word_of_nat (popcount8 d)]"
    unfolding s load_le_const load_le_mask 
    using swar_byte_count(2)[OF refl disjI1[OF refl]] swar_byte_count(2)[OF refl, of 0 d]
    by (simp only: simp_thms)
  then have "drop_bit 24 (((?w + drop_bit 4 ?w) AND 0x0F0F0F0F) * 0x01010101) =
      word_of_nat (popcount8 a + popcount8 b + popcount8 c + popcount8 d)"
    using swar_multiply[OF popcount8_le_8 popcount8_le_8 popcount8_le_8 popcount8_le_8] by simp
  moreover have "count_bits_word (load_le [a, b, c, d]) =
      drop_bit 24 (((?w + drop_bit 4 ?w) AND 0x0F0F0F0F) * 0x01010101)"
    using False unfolding count_bits_word_def nibble_sums32_bytes[symmetric] nibble_sums32_def by (simp add: Let_def)
  ultimately show ?thesis by simp
qed

interpretation bits_counter: word_counter count_bits_word popcount8
  by unfold_locales (rule count_bits_word_bytes)


lemma Suc_4: "4 dvd Suc (Suc (Suc (Suc 0)))"
  by (simp add: numeral_eq_Suc)

lemma sum_list_weight_le:
  "(\<And>x. weight x \<le> k) \<Longrightarrow> sum_list (map weight m) \<le> k * length m" for weight :: "'a \<Rightarrow> nat"
proof (induction m)
  case (Cons x m)
  then have "weight x \<le> k" "sum_list (map weight m) \<le> k * length m" by blast+
  then show ?case by simp
qed simp

lemma unat_of_small: "n < 4294967296 \<Longrightarrow> unat (of_nat n :: u32) = n"
  by (simp add: unsigned_of_nat take_bit_nat_eq_self_iff)

lemma sum_list_if: "sum_list (map (\<lambda>x. if P x then 0 else 1) m) = length (filter (\<lambda>x. \<not> P x) m)"
  by (induction m) auto

text \<open>
  C17: on a bitmap of at most \<^verbatim>\<open>MAP_SIZE\<close> bytes the three counters are exact and never wrap
  around: \<^verbatim>\<open>count_bits\<close>, which adds the bits of a word in parallel, is the number of set bits,
  \<^verbatim>\<open>count_bytes\<close> the number of non-zero bytes and \<^verbatim>\<open>count_non_255_bytes\<close> the number of
  bytes other than 255.
\<close>

theorem counters_exact:
  assumes "4 dvd length mem" "length mem \<le> MAP_SIZE"
  shows "unat (count_bits mem) = sum_list (map popcount8 mem)
    \<and> unat (count_bytes mem) = length (filter (\<lambda>b. b \<noteq> 0) mem)
    \<and> unat (count_non_255_bytes mem) = length (filter (\<lambda>b. b \<noteq> 0xff) mem)"
proof -
  have l: "length mem \<le> 65536" using assms(2) by (simp add: MAP_SIZE_def MAP_SIZE_POW2_def)
  have "sum_list (map popcount8 mem) < 4294967296"
    using sum_list_weight_le[of popcount8 8 mem] popcount8_le_8 l by fastforce
  moreover have "length (filter P mem) < 4294967296" for P
    using length_filter_le[of P mem] l by linarith
  ultimately show ?thesis
    using bits_counter.count_all[OF assms(1)] bytes_counter.count_all[OF assms(1)]
      non_255_counter.count_all[OF assms(1)]
    by (simp add: count_bits_def count_bytes_def count_non_255_bytes_def sum_list_if unat_of_small)
qed

theorem counters_exact_witness:
  "unat (count_bits [0, 3, 255, 128]) = 11 \<and> unat (count_bytes [0, 3, 255, 128]) = 3 \<and>
   unat (count_non_255_bytes [0, 3, 255, 128]) = 3"
proof -
  have "sum_list (map popcount8 [0, 3, 255, 128]) = 11" by code_simp
  then show ?thesis
    using counters_exact[of "[0, 3, 255, 128]"] Suc_4 by (simp add: MAP_SIZE_def MAP_SIZE_POW2_def)
qed

section \<open>Compaction\<close>

lemma mini_bit_iff: "mini_bit m i \<longleftrightarrow> bit (m ! (i div 8)) (i mod 8)"
proof -
  have "(w AND push_bit k 1 = 0) \<longleftrightarrow> \<not> bit w k" if "k < 8" for w :: u8 and k
    using that by (simp add: push_bit_eq_mult bit_iff_and_push_bit_not_eq_0)
  then show ?thesis by (simp add: mini_bit_def)
qed

lemma minimize_step:
  assumes "k < 8 * length dst" "i < 8 * length dst"
  shows "mini_bit (dst[k div 8 := dst ! (k div 8) OR push_bit (k mod 8) 1]) i \<longleftrightarrow> mini_bit dst i \<or> i = k"
proof -
  have "k div 8 < length dst" "i div 8 < length dst" using assms by (simp_all add: less_mult_imp_div_less mult.commute)
  moreover have "i = k \<longleftrightarrow> i div 8 = k div 8 \<and> i mod 8 = k mod 8" by (metis div_mult_mod_eq)
  ultimately show ?thesis
    by (auto simp: mini_bit_iff nth_list_update bit_simps)
qed

lemma minimize_loop_bits:
  "\<lbrakk>k + length src \<le> 8 * length dst; i < 8 * length dst\<rbrakk> \<Longrightarrow>
   mini_bit (minimize_loop k dst src) i \<longleftrightarrow>
     mini_bit dst i \<or> (k \<le> i \<and> i < k + length src \<and> src ! (i - k) \<noteq> 0)"
proof (induction k dst src rule: minimize_loop.induct)
  case (1 k dst)
  then show ?case by auto
next
  case (2 k dst s src)
  let ?d = "if s \<noteq> 0 then dst[k div 8 := dst ! (k div 8) OR push_bit (k mod 8) 1] else dst"
  have "mini_bit (minimize_loop (Suc k) ?d src) i \<longleftrightarrow>
      mini_bit ?d i \<or> (Suc k \<le> i \<and> i < Suc k + length src \<and> src ! (i - Suc k) \<noteq> 0)"
    using "2.prems" by (intro "2.IH") simp_all
  moreover have "mini_bit ?d i \<longleftrightarrow> mini_bit dst i \<or> (s \<noteq> 0 \<and> i = k)"
    using "2.prems" minimize_step[of k dst i] by simp
  moreover have "k \<le> i \<and> i < k + length (s # src) \<and> (s # src) ! (i - k) \<noteq> 0 \<longleftrightarrow>
      (s \<noteq> 0 \<and> i = k) \<or> (Suc k \<le> i \<and> i < Suc k + length src \<and> src ! (i - Suc k) \<noteq> 0)"
    by (cases "i = k") (auto simp: nth_Cons')
  ultimately show ?case
    unfolding minimize_loop.simps by blast
qed

text \<open>
  C18: \<^verbatim>\<open>minimize_bits\<close> compacts a trace to one bit per tuple: written into a cleared bitmap of
  an eighth of the size (as \<^verbatim>\<open>update_bitmap_score\<close> does), bit \<open>i\<close> of the result is set exactly
  if tuple \<open>i\<close> was hit, for every \<open>i\<close> of the map.
\<close>

theorem minimize_bits_correct:
  assumes "length src = 8 * n" "i < length src"
  shows "mini_bit (minimize_bits (replicate n 0) src) i \<longleftrightarrow> src ! i \<noteq> 0"
  using assms minimize_loop_bits[of 0 src "replicate n 0" i]
  by (simp add: minimize_bits_def mini_bit_iff less_mult_imp_div_less mult.commute)

theorem minimize_bits_witness:
  "mini_bit (minimize_bits [0] [0, 0, 9, 0, 0, 1, 0, 0]) 5 \<and>
   \<not> mini_bit (minimize_bits [0] [0, 0, 9, 0, 0, 1, 0, 0]) 6"
  using minimize_bits_correct[of "[0, 0, 9, 0, 0, 1, 0, 0]" 1 5]
    minimize_bits_correct[of "[0, 0, 9, 0, 0, 1, 0, 0]" 1 6] by simp

end
