(* ===== verification/Config.thy ===== *)
theory Config
  imports Fuzz_Prelude
begin

text \<open>
  The tunables of \<^verbatim>\<open>config.h\<close> that the modelled components use. The interesting values are
  kept as the signed bytes, halfwords and words of the source, in two's complement.
\<close>

definition EXEC_TIMEOUT :: nat where [simp]: "EXEC_TIMEOUT = 1000"
definition EXEC_TM_ROUND :: nat where [simp]: "EXEC_TM_ROUND = 20"
definition CAL_CYCLES :: nat where [simp]: "CAL_CYCLES = 8"
definition CAL_CYCLES_LONG :: nat where [simp]: "CAL_CYCLES_LONG = 40"
definition HANG_LIMIT :: nat where [simp]: "HANG_LIMIT = 250"
definition KEEP_UNIQUE_HANG :: nat where [simp]: "KEEP_UNIQUE_HANG = 500"
definition KEEP_UNIQUE_CRASH :: nat where [simp]: "KEEP_UNIQUE_CRASH = 5000"
definition HAVOC_CYCLES :: nat where [simp]: "HAVOC_CYCLES = 256"
definition HAVOC_CYCLES_INIT :: nat where [simp]: "HAVOC_CYCLES_INIT = 1024"
definition HAVOC_MAX_MULT :: nat where [simp]: "HAVOC_MAX_MULT = 16"
definition HAVOC_MIN :: nat where [simp]: "HAVOC_MIN = 16"
definition HAVOC_STACK_POW2 :: nat where [simp]: "HAVOC_STACK_POW2 = 7"
definition HAVOC_BLK_SMALL :: nat where [simp]: "HAVOC_BLK_SMALL = 32"
definition HAVOC_BLK_MEDIUM :: nat where [simp]: "HAVOC_BLK_MEDIUM = 128"
definition HAVOC_BLK_LARGE :: nat where [simp]: "HAVOC_BLK_LARGE = 1500"
definition SKIP_TO_NEW_PROB :: nat where [simp]: "SKIP_TO_NEW_PROB = 99"
definition SKIP_NFAV_OLD_PROB :: nat where [simp]: "SKIP_NFAV_OLD_PROB = 95"
definition SKIP_NFAV_NEW_PROB :: nat where [simp]: "SKIP_NFAV_NEW_PROB = 75"
definition SPLICE_CYCLES :: nat where [simp]: "SPLICE_CYCLES = 15"
definition SPLICE_HAVOC :: nat where [simp]: "SPLICE_HAVOC = 32"
definition ARITH_MAX :: nat where [simp]: "ARITH_MAX = 35"
definition TRIM_MIN_BYTES :: nat where [simp]: "TRIM_MIN_BYTES = 4"
definition TRIM_START_STEPS :: nat where [simp]: "TRIM_START_STEPS = 16"
definition TRIM_END_STEPS :: nat where [simp]: "TRIM_END_STEPS = 1024"
definition MAX_FILE :: nat where [simp]: "MAX_FILE = 1 * 1024 * 1024"
definition TMIN_MAX_FILE :: nat where [simp]: "TMIN_MAX_FILE = 10 * 1024 * 1024"
definition TMIN_SET_MIN_SIZE :: nat where [simp]: "TMIN_SET_MIN_SIZE = 4"
definition TMIN_SET_STEPS :: nat where [simp]: "TMIN_SET_STEPS = 128"
definition MAX_DICT_FILE :: nat where [simp]: "MAX_DICT_FILE = 128"
definition MIN_AUTO_EXTRA :: nat where [simp]: "MIN_AUTO_EXTRA = 3"
definition MAX_AUTO_EXTRA :: nat where [simp]: "MAX_AUTO_EXTRA = 32"
definition MAX_DET_EXTRAS :: nat where [simp]: "MAX_DET_EXTRAS = 200"
definition USE_AUTO_EXTRAS :: nat where [simp]: "USE_AUTO_EXTRAS = 50"
definition MAX_AUTO_EXTRAS :: nat where [simp]: "MAX_AUTO_EXTRAS = USE_AUTO_EXTRAS * 10"
definition EFF_MAP_SCALE2 :: nat where [simp]: "EFF_MAP_SCALE2 = 3"
definition EFF_MIN_LEN :: nat where [simp]: "EFF_MIN_LEN = 128"
definition EFF_MAX_PERC :: nat where [simp]: "EFF_MAX_PERC = 90"
definition RESEED_RNG :: nat where [simp]: "RESEED_RNG = 10000"
definition CAL_CHANCES :: nat where [simp]: "CAL_CHANCES = 3"
definition MAX_ALLOC :: nat where [simp]: "MAX_ALLOC = 0x40000000"

definition interesting_8 :: "u8 list" where
  "interesting_8 = [- 128, - 1, 0, 1, 16, 32, 64, 100, 127]"

text \<open>\<^verbatim>\<open>interesting_16\<close> and \<^verbatim>\<open>interesting_32\<close> start with the sign-extended narrower values.\<close>

definition interesting_16 :: "u16 list" where
  "interesting_16 = map scast interesting_8 @
     [- 32768, - 129, 128, 255, 256, 512, 1000, 1024, 4096, 32767]"

definition interesting_32 :: "u32 list" where
  "interesting_32 = map scast interesting_16 @
     [- 2147483648, - 100663046, - 32769, 32768, 65535, 65536, 100663045, 2147483647]"

lemma length_interesting [simp]:
  "length interesting_8 = 9" "length interesting_16 = 19" "length interesting_32 = 27"
  by (simp_all add: interesting_8_def interesting_16_def interesting_32_def)

end
