(* ===== verification/Hash.thy ===== *)
theory Hash
  imports Fuzz_Prelude
begin

unbundle bit_operations_syntax

text \<open>
  \<^verbatim>\<open>hash32\<close> of \<^verbatim>\<open>hash.h\<close>, in its 64-bit and its 32-bit flavour: the checksum that
  stands for a trace in the queue (\<^verbatim>\<open>exec_cksum\<close>), in trimming and in the dictionary
  builder. The lemmas show what the mixing guarantees before the final truncation:
  every step is a bijection of the running state for a fixed input word and of the input
  word for a fixed state, so a change in a single word always changes the final state.
\<close>

section \<open>The two flavours\<close>

definition HASH_CONST :: u32 where "HASH_CONST = 0xa5b35705"

definition ROL64 :: "u64 \<Rightarrow> nat \<Rightarrow> u64" where
  "ROL64 x r = push_bit r x OR drop_bit (64 - r) x"

definition mix_k64 :: "u64 \<Rightarrow> u64" where
  "mix_k64 k1 = ROL64 (k1 * 0x87c37b91114253d5) 31 * 0x4cf5ad432745937f"

definition mix_h64 :: "u64 \<Rightarrow> u64 \<Rightarrow> u64" where
  "mix_h64 h1 k1 = ROL64 (h1 XOR mix_k64 k1) 27 * 5 + 0x52dce729"

fun hash_loop64 :: "nat \<Rightarrow> buf \<Rightarrow> u64 \<Rightarrow> u64" where
  "hash_loop64 0 data h1 = h1"
| "hash_loop64 (Suc len) data h1 = hash_loop64 len (drop 8 data) (mix_h64 h1 (load_le (take 8 data)))"

definition finish64 :: "u64 \<Rightarrow> u64" where
  "finish64 h1 =
     (let h1 = h1 XOR drop_bit 33 h1; h1 = h1 * 0xff51afd7ed558ccd;
          h1 = h1 XOR drop_bit 33 h1; h1 = h1 * 0xc4ceb9fe1a85ec53
      in h1 XOR drop_bit 33 h1)"

definition hash_state64 :: "buf \<Rightarrow> u32 \<Rightarrow> u32 \<Rightarrow> u64" where
  "hash_state64 key len seed =
     finish64 (hash_loop64 (unat (drop_bit 3 len)) key (ucast (seed XOR len)))"

definition hash32 :: "buf \<Rightarrow> u32 \<Rightarrow> u32 \<Rightarrow> u32" where
  "hash32 key len seed = ucast (hash_state64 key len seed)"

definition ROL32 :: "u32 \<Rightarrow> nat \<Rightarrow> u32" where
  "ROL32 x r = push_bit r x OR drop_bit (32 - r) x"

definition mix_k32 :: "u32 \<Rightarrow> u32" where
  "mix_k32 k1 = ROL32 (k1 * 0xcc9e2d51) 15 * 0x1b873593"

definition mix_h32 :: "u32 \<Rightarrow> u32 \<Rightarrow> u32" where
  "mix_h32 h1 k1 = ROL32 (h1 XOR mix_k32 k1) 13 * 5 + 0xe6546b64"

fun hash_loop32 :: "nat \<Rightarrow> buf \<Rightarrow> u32 \<Rightarrow> u32" where
  "hash_loop32 0 data h1 = h1"
| "hash_loop32 (Suc len) data h1 = hash_loop32 len (drop 4 data) (mix_h32 h1 (load_le (take 4 data)))"

definition finish32 :: "u32 \<Rightarrow> u32" where
  "finish32 h1 =
     (let h1 = h1 XOR drop_bit 16 h1; h1 = h1 * 0x85ebca6b;
          h1 = h1 XOR drop_bit 13 h1; h1 = h1 * 0xc2b2ae35
      in h1 XOR drop_bit 16 h1)"

definition hash32_32 :: "buf \<Rightarrow> u32 \<Rightarrow> u32 \<Rightarrow> u32" where
  "hash32_32 key len seed =
     finish32 (hash_loop32 (unat (drop_bit 2 len)) key (seed XOR len))"

section \<open>Injectivity of the steps\<close>

lemma odd_mult_inj:
  fixes c :: "'a::len word"
  assumes "c * d = 1"
  shows "x * c = y * c \<longleftrightarrow> x = y"
proof
  assume "x * c = y * c"
  then have "x * (c * d) = y * (c * d)" by (simp add: mult.assoc[symmetric])
  then show "x = y" using assms by simp
qed simp

lemma bit_xorshift:
  fixes x :: "'a::len word"
  shows "bit (x XOR drop_bit s x) n \<longleftrightarrow> (bit x n \<noteq> bit x (s + n))"
  by (simp add: bit_xor_iff bit_drop_bit_eq)

text \<open>An xor with the word shifted right by \<open>s\<close> is undone from the top bit downwards.\<close>

lemma xorshift_inj:
  fixes x y :: "'a::len word"
  assumes s: "0 < s" and e: "x XOR drop_bit s x = y XOR drop_bit s y"
  shows "x = y"
proof -
  have "bit x n = bit y n" for n
  proof (induction "LENGTH('a) - n" arbitrary: n rule: less_induct)
    case less
    show ?case
    proof (cases "n < LENGTH('a)")
      case True
      then have "bit x (s + n) = bit y (s + n)" using s by (intro less) linarith
      moreover have "(bit x n \<noteq> bit x (s + n)) = (bit y n \<noteq> bit y (s + n))"
        using e by (metis bit_xorshift)
      ultimately show ?thesis by blast
    next
      case False
      then show ?thesis using bit_imp_le_length[of x n] bit_imp_le_length[of y n] by auto
    qed
  qed
  then show ?thesis by (simp add: bit_eq_iff)
qed

lemma rol_inj:
  fixes x y :: "'a::len word"
  assumes r: "r < LENGTH('a)"
    and e: "push_bit r x OR drop_bit (LENGTH('a) - r) x = push_bit r y OR drop_bit (LENGTH('a) - r) y"
  shows "x = y"
proof (rule bit_word_eqI)
  fix n
  assume n: "n < LENGTH('a)"
  have b: "bit (push_bit r z OR drop_bit (LENGTH('a) - r) z) k =
      (if k < r then bit z (LENGTH('a) - r + k) else k < LENGTH('a) \<and> bit z (k - r))" for z :: "'a word" and k
  proof -
    have "\<not> bit z (LENGTH('a) - r + k)" if "r \<le> k"
      using that r bit_imp_le_length[of z "LENGTH('a) - r + k"] by auto
    then show ?thesis by (auto simp: bit_or_iff bit_push_bit_iff bit_drop_bit_eq)
  qed
  let ?k = "if n + r < LENGTH('a) then n + r else n + r - LENGTH('a)"
  show "bit x n = bit y n"
    using arg_cong[OF e, of "\<lambda>w. bit w ?k"] n r unfolding b by (auto split: if_splits)
qed

lemmas rol64_inj = rol_inj[where 'a=64, simplified] and rol32_inj = rol_inj[where 'a=32, simplified]

lemma finish64_inj: "finish64 x = finish64 y \<Longrightarrow> x = y"
proof -
  have "(0xff51afd7ed558ccd :: u64) * 0x4f74430c22a54005 = 1" "(0xc4ceb9fe1a85ec53 :: u64) * 0x9cb4b2f8129337db = 1"
    by simp_all
  note i = odd_mult_inj[OF this(1)] odd_mult_inj[OF this(2)]
  have s: "a XOR drop_bit 33 a = b XOR drop_bit 33 b \<longleftrightarrow> a = b" for a b :: u64
    using xorshift_inj[of 33 a b] by auto
  show "finish64 x = finish64 y \<Longrightarrow> x = y" by (simp add: finish64_def Let_def s i)
qed

lemma finish32_inj: "finish32 x = finish32 y \<Longrightarrow> x = y"
proof -
  have "(0x85ebca6b :: u32) * 0xa5cb9243 = 1" "(0xc2b2ae35 :: u32) * 0x7ed1b41d = 1"
    by simp_all
  note i = odd_mult_inj[OF this(1)] odd_mult_inj[OF this(2)]
  have s: "a XOR drop_bit k a = b XOR drop_bit k b \<longleftrightarrow> a = b" if "0 < k" for a b :: u32 and k
    using that xorshift_inj[of k a b] by auto
  show "finish32 x = finish32 y \<Longrightarrow> x = y" by (simp add: finish32_def Let_def s i)
qed

lemma xor_cancel: "(a XOR b = a XOR c) \<longleftrightarrow> b = c" "(b XOR a = c XOR a) \<longleftrightarrow> b = c"
  for a b c :: "'a::len word"
  by (metis xor.left_commute xor_self_eq xor.right_neutral xor.commute)+

section \<open>A single changed word changes the state\<close>

text \<open>
  The contract of a block hash: reading the words of a buffer one by one, each step being
  injective in the state and in the word.
\<close>

locale block_hash =
  fixes w :: nat
    and step :: "'h::len word \<Rightarrow> 'h word \<Rightarrow> 'h word"
    and loop :: "nat \<Rightarrow> buf \<Rightarrow> 'h word \<Rightarrow> 'h word"
  assumes w_pos: "0 < w" and w_len: "8 * w \<le> LENGTH('h)"
    and hash_0: "loop 0 data h = h"
    and hash_Suc: "loop (Suc n) data h = loop n (drop w data) (step h (load_le (take w data)))"
    and step_state: "step h k = step h' k \<Longrightarrow> h = h'"
    and step_word: "step h k = step h k' \<Longrightarrow> k = k'"
begin

lemma loop_split: "length a = n * w \<Longrightarrow> loop (n + m) (a @ b) h = loop m b (loop n a h)"
proof (induction n arbitrary: a h)
  case 0
  then show ?case by (simp add: hash_0)
next
  case (Suc n)
  then have "loop (n + m) (drop w a @ b) h' = loop m b (loop n (drop w a) h')" for h'
    by (intro Suc.IH) simp
  with Suc.prems show ?case by (simp add: hash_Suc)
qed

lemma loop_state_inj: "loop n b h = loop n b h' \<Longrightarrow> h = h'"
  by (induction n arbitrary: b h h') (auto simp: hash_0 hash_Suc dest: step_state)

lemma single_word:
  assumes "length a = n * w" "length c = w" "length c' = w"
    and "loop (n + Suc m) (a @ c @ b) h = loop (n + Suc m) (a @ c' @ b) h"
  shows "c = c'"
proof -
  let ?h = "loop n a h"
  have "loop m b (step ?h (load_le c)) = loop m b (step ?h (load_le c'))"
    using assms by (simp only: loop_split[OF assms(1)]) (simp add: hash_Suc)
  then have "(load_le c :: 'h word) = load_le c'"
    by (blast dest: loop_state_inj step_word)
  then show ?thesis
    using assms(2,3) w_len store_load_le[of c, where 'a='h] store_load_le[of c', where 'a='h] by simp
qed

end

interpretation murmur64: block_hash 8 mix_h64 hash_loop64
proof
  have "(0x87c37b91114253d5 :: u64) * 0xa98409e882ce4d7d = 1" "(0x4cf5ad432745937f :: u64) * 0xa81e14edd9de2c7f = 1"
    "(5 :: u64) * 0xcccccccccccccccd = 1" by simp_all
  note i = odd_mult_inj[OF this(1)] odd_mult_inj[OF this(2)] odd_mult_inj[OF this(3)]
  have r: "ROL64 x 31 = ROL64 y 31 \<longleftrightarrow> x = y" "ROL64 x 27 = ROL64 y 27 \<longleftrightarrow> x = y" for x y
    using rol64_inj[of 31 x y] rol64_inj[of 27 x y] by (auto simp: ROL64_def)
  show "h = h'" if "mix_h64 h k = mix_h64 h' k" for h k h'
    using that by (simp add: mix_h64_def i r xor_cancel)
  show "k = k'" if "mix_h64 h k = mix_h64 h k'" for h k k'
    using that by (simp add: mix_h64_def mix_k64_def i r xor_cancel)
qed simp_all

interpretation murmur32: block_hash 4 mix_h32 hash_loop32
proof
  have "(0xcc9e2d51 :: u32) * 0xdee13bb1 = 1" "(0x1b873593 :: u32) * 0x56ed309b = 1"
    "(5 :: u32) * 0xcccccccd = 1" by simp_all
  note i = odd_mult_inj[OF this(1)] odd_mult_inj[OF this(2)] odd_mult_inj[OF this(3)]
  have r: "ROL32 x 15 = ROL32 y 15 \<longleftrightarrow> x = y" "ROL32 x 13 = ROL32 y 13 \<longleftrightarrow> x = y" for x y
    using rol32_inj[of 15 x y] rol32_inj[of 13 x y] by (auto simp: ROL32_def)
  show "h = h'" if "mix_h32 h k = mix_h32 h' k" for h k h'
    using that by (simp add: mix_h32_def i r xor_cancel)
  show "k = k'" if "mix_h32 h k = mix_h32 h k'" for h k k'
    using that by (simp add: mix_h32_def mix_k32_def i r xor_cancel)
qed simp_all

lemma unat_len: "n < 536870912 \<Longrightarrow> unat (drop_bit 3 (word_of_nat (8 * n) :: u32)) = n"
  by (simp add: drop_bit_eq_div unat_div unsigned_of_nat take_bit_nat_eq_self del: of_nat_mult)

text \<open>
  C19: the checksum of a map is sensitive to every single word: if two maps of the same length
  (below 4 GB) differ in exactly one aligned 8-byte word, the 64-bit states from which
  \<^verbatim>\<open>hash32\<close> takes its low half are different, whatever the seed and the rest of the map.
\<close>

theorem hash_state_single_word:
  assumes "length a = 8 * n" "length b = 8 * m" "length c = 8" "length c' = 8"
    and "n + m < 536870911" "c \<noteq> c'"
  shows "hash_state64 (a @ c @ b) (word_of_nat (8 * (n + Suc m))) seed
    \<noteq> hash_state64 (a @ c' @ b) (word_of_nat (8 * (n + Suc m))) seed"
proof
  have l: "unat (drop_bit 3 (word_of_nat (8 * (n + Suc m)) :: u32)) = n + Suc m"
    using assms(5) by (intro unat_len) simp
  assume "hash_state64 (a @ c @ b) (word_of_nat (8 * (n + Suc m))) seed
    = hash_state64 (a @ c' @ b) (word_of_nat (8 * (n + Suc m))) seed"
  then have "c = c'"
    using murmur64.single_word[of a n c c'] assms(1,3,4)
    unfolding hash_state64_def l by (auto dest!: finish64_inj simp: mult.commute)
  with assms(6) show False by simp
qed

theorem hash_state_witness:
  "hash_state64 ([] @ [1, 0, 0, 0, 0, 0, 0, 0] @ [7, 0, 0, 0, 0, 0, 0, 0]) (word_of_nat (8 * (0 + Suc 1))) HASH_CONST
   \<noteq> hash_state64 ([] @ [2, 0, 0, 0, 0, 0, 0, 0] @ [7, 0, 0, 0, 0, 0, 0, 0]) (word_of_nat (8 * (0 + Suc 1))) HASH_CONST"
  by (rule hash_state_single_word) simp_all

end
