(* ===== verification/Rng.thy ===== *)
theory Rng
  imports Config "HOL-Library.Monad_Syntax" "HOL-Library.Multiset"
begin

text \<open>
  Random choices: \<^verbatim>\<open>UR\<close>, \<^verbatim>\<open>shuffle_ptrs\<close> and \<^verbatim>\<open>choose_block_len\<close>. The libc generator
  (\<^verbatim>\<open>random\<close>, \<^verbatim>\<open>srandom\<close>) and the bytes of \<^verbatim>\<open>/dev/urandom\<close> are parameters. A result
  \<^term>\<open>None\<close> stands for a run that the processor stops: a remainder by zero in \<^verbatim>\<open>UR\<close>, or an
  access outside an array.
\<close>

section \<open>The generator\<close>

record 's rng =
  rand_cnt :: u32
  prng :: 's                     \<comment> \<open>the state of libc's \<^verbatim>\<open>random\<close>\<close>
  urandom :: "nat \<Rightarrow> u32"        \<comment> \<open>what \<^verbatim>\<open>dev_urandom_fd\<close> delivers\<close>
  upos :: nat

definition reseed :: "(u32 \<Rightarrow> 's) \<Rightarrow> 's rng \<Rightarrow> 's rng" where
  "reseed srandom r =
     r\<lparr>prng := srandom (urandom r (upos r)), upos := upos r + 2,
       rand_cnt := word_of_nat (RESEED_RNG div 2 + unat (urandom r (upos r + 1)) mod RESEED_RNG)\<rparr>"

definition UR :: "('s \<Rightarrow> nat \<times> 's) \<Rightarrow> (u32 \<Rightarrow> 's) \<Rightarrow> nat \<Rightarrow> 's rng \<Rightarrow> (nat \<times> 's rng) option" where
  "UR random srandom limit r =
     (let r1 = (if rand_cnt r = 0 then reseed srandom r else r\<lparr>rand_cnt := rand_cnt r - 1\<rparr>);
          (v, s) = random (prng r1)
      in if limit = 0 then None else Some (v mod limit, r1\<lparr>prng := s\<rparr>))"

text \<open>
  What the callers rely on: a positive limit always gives a value below it. The callers are
  modelled over any such source of values; \<^const>\<open>UR\<close> is the one of the program.
\<close>

locale rng_source =
  fixes ur :: "nat \<Rightarrow> 'r \<Rightarrow> (nat \<times> 'r) option"
  assumes ur_below: "0 < limit \<Longrightarrow> \<exists>v r'. ur limit r = Some (v, r') \<and> v < limit"
begin

lemma ur_SomeE:
  assumes "0 < limit"
  obtains v r' where "ur limit r = Some (v, r')" "v < limit"
  using ur_below[OF assms] by blast

lemma ur_lt: "0 < limit \<Longrightarrow> ur limit r = Some (v, r') \<Longrightarrow> v < limit"
  using ur_below[of limit r] by auto

end

interpretation UR: rng_source "UR random srandom" for random srandom
  by unfold_locales (auto simp: UR_def Let_def split: prod.splits)

section \<open>Shuffling\<close>

fun shuffle_loop :: "(nat \<Rightarrow> 'r \<Rightarrow> (nat \<times> 'r) option) \<Rightarrow> nat \<Rightarrow> nat \<Rightarrow> 'a list \<Rightarrow> 'r \<Rightarrow> ('a list \<times> 'r) option" where
  "shuffle_loop ur 0 i ptrs r = Some (ptrs, r)"
| "shuffle_loop ur (Suc k) i ptrs r = do {
     (v, r) \<leftarrow> ur (length ptrs - i) r;
     let j = i + v;
     if j < length ptrs then shuffle_loop ur k (Suc i) (ptrs[i := ptrs ! j, j := ptrs ! i]) r else None
   }"

text \<open>The bound \<^verbatim>\<open>cnt - 2\<close> is computed in 32 bits and wraps around below two pointers.\<close>

definition shuffle_ptrs :: "(nat \<Rightarrow> 'r \<Rightarrow> (nat \<times> 'r) option) \<Rightarrow> 'a list \<Rightarrow> 'r \<Rightarrow> ('a list \<times> 'r) option" where
  "shuffle_ptrs ur ptrs r = shuffle_loop ur (unat (word_of_nat (length ptrs) - 2 :: u32)) 0 ptrs r"

section \<open>Block lengths\<close>

definition block_range :: "nat \<Rightarrow> nat \<times> nat" where
  "block_range choice =
     (if choice = 0 then (1, HAVOC_BLK_SMALL)
      else if choice = 1 then (HAVOC_BLK_SMALL, HAVOC_BLK_MEDIUM)
      else (HAVOC_BLK_MEDIUM, HAVOC_BLK_LARGE))"

definition choose_block_len ::
  "(nat \<Rightarrow> 'r \<Rightarrow> (nat \<times> 'r) option) \<Rightarrow> nat \<Rightarrow> bool \<Rightarrow> nat \<Rightarrow> 'r \<Rightarrow> (nat \<times> 'r) option" where
  "choose_block_len ur queue_cycle run_over10m limit r = do {
     let rlim = (if run_over10m then min queue_cycle 3 else 1);
     (c, r) \<leftarrow> ur rlim r;
     let (min_value, max_value) = block_range c;
     let min_value = (if limit \<le> min_value then 1 else min_value);
     (v, r) \<leftarrow> ur (min max_value limit + 1 - min_value) r;
     Some (min_value + v, r)
   }"

section \<open>Properties\<close>

context rng_source
begin

lemma shuffle_loop_perm:
  "k + i \<le> length ptrs \<Longrightarrow>
   \<exists>ptrs' r'. shuffle_loop ur k i ptrs r = Some (ptrs', r') \<and> mset ptrs' = mset ptrs"
proof (induction k arbitrary: i ptrs r)
  case 0
  then show ?case by simp
next
  case (Suc k)
  obtain v r1 where v: "ur (length ptrs - i) r = Some (v, r1)" "v < length ptrs - i"
    using Suc.prems by (auto intro: ur_SomeE[of "length ptrs - i" r])
  let ?p = "ptrs[i := ptrs ! (i + v), i + v := ptrs ! i]"
  have j: "i < length ptrs" "i + v < length ptrs" using v(2) by auto
  obtain ptrs' r' where "shuffle_loop ur k (Suc i) ?p r1 = Some (ptrs', r')" "mset ptrs' = mset ?p"
    using Suc.IH[of "Suc i" ?p r1] Suc.prems by auto
  moreover have "mset ?p = mset ptrs" using j by (simp add: mset_swap)
  ultimately show ?case using v(1) j by simp
qed

lemma shuffle_ptrs_perm:
  assumes "2 \<le> length ptrs" "length ptrs < 2 ^ 32"
  shows "\<exists>ptrs' r'. shuffle_ptrs ur ptrs r = Some (ptrs', r') \<and> mset ptrs' = mset ptrs"
proof -
  have "unat (word_of_nat (length ptrs) - 2 :: u32) = length ptrs - 2"
  proof -
    have e: "(word_of_nat (length ptrs) - 2 :: u32) = word_of_nat (length ptrs - 2)"
      using assms(1) by (simp add: of_nat_diff)
    show ?thesis unfolding e using assms by (simp add: unsigned_of_nat take_bit_nat_eq_self del: of_nat_diff)
  qed
  then show ?thesis using assms shuffle_loop_perm[of "length ptrs - 2" 0 ptrs r] by (simp add: shuffle_ptrs_def)
qed

lemma block_len_bounds:
  assumes "0 < queue_cycle" "0 < limit"
  shows "\<exists>n r'. choose_block_len ur queue_cycle run_over10m limit r = Some (n, r')
           \<and> 1 \<le> n \<and> n \<le> limit \<and> n \<le> HAVOC_BLK_LARGE"
proof -
  have "0 < (if run_over10m then min queue_cycle 3 else 1)" using assms(1) by simp
  then obtain c r1 where c: "ur (if run_over10m then min queue_cycle 3 else 1) r = Some (c, r1)"
    by (rule ur_SomeE)
  obtain lo hi where b: "block_range c = (lo, hi)" by fastforce
  then have lh: "1 \<le> lo" "lo \<le> hi" "hi \<le> 1500" by (auto simp: block_range_def split: if_splits)
  let ?lo = "if limit \<le> lo then 1 else lo"
  have "0 < min hi limit + 1 - ?lo" using lh assms(2) by auto
  then obtain v r2 where "ur (min hi limit + 1 - ?lo) r1 = Some (v, r2)" "v < min hi limit + 1 - ?lo"
    by (rule ur_SomeE)
  then show ?thesis using c b lh assms(2) by (auto simp: choose_block_len_def)
qed

end

text \<open>
  C20: \<^verbatim>\<open>choose_block_len\<close> never divides by zero and returns a length between 1 and the
  limit (and at most \<^verbatim>\<open>HAVOC_BLK_LARGE\<close>) for every positive limit, once the first queue cycle
  has begun. This is the contract every block operation of the havoc stage relies on.
\<close>

theorem choose_block_len_bounds:
  assumes "0 < queue_cycle" "0 < limit"
  shows "\<exists>n r'. choose_block_len (UR random srandom) queue_cycle run_over10m limit r = Some (n, r')
           \<and> 1 \<le> n \<and> n \<le> limit \<and> n \<le> HAVOC_BLK_LARGE"
  using assms by (rule UR.block_len_bounds)

theorem choose_block_len_witness:
  "\<exists>n r'. choose_block_len (UR (\<lambda>s. (s, s + 7)) unat) 2 True 10
       \<lparr>rand_cnt = 0, prng = 3, urandom = (\<lambda>i. word_of_nat (i + 5)), upos = 0\<rparr> = Some (n, r')
     \<and> 1 \<le> n \<and> n \<le> 10 \<and> n \<le> HAVOC_BLK_LARGE"
  by (rule choose_block_len_bounds) simp_all

text \<open>
  C21: \<^verbatim>\<open>shuffle_ptrs\<close> on at least two pointers stays inside the array, never divides by zero and
  returns a permutation of it; two pointers, however, are never exchanged.
\<close>

theorem shuffle_ptrs_permutes:
  assumes "2 \<le> length ptrs" "length ptrs < 2 ^ 32"
  shows "(\<exists>ptrs' r'. shuffle_ptrs (UR random srandom) ptrs r = Some (ptrs', r') \<and> mset ptrs' = mset ptrs)
    \<and> (length ptrs = 2 \<longrightarrow> shuffle_ptrs (UR random srandom) ptrs r = Some (ptrs, r))"
  using UR.shuffle_ptrs_perm[OF assms] by (auto simp: shuffle_ptrs_def)

theorem shuffle_ptrs_witness:
  "shuffle_ptrs (UR (\<lambda>s. (s, s + 7)) unat) [10 :: nat, 20]
     \<lparr>rand_cnt = 9, prng = 3, urandom = (\<lambda>i. word_of_nat i), upos = 0\<rparr>
   = Some ([10 :: nat, 20], \<lparr>rand_cnt = 9, prng = 3, urandom = (\<lambda>i. word_of_nat i), upos = 0\<rparr>)"
  using shuffle_ptrs_permutes[of "[10 :: nat, 20]" "\<lambda>s. (s, s + 7)" unat
      "\<lparr>rand_cnt = 9, prng = 3, urandom = (\<lambda>i. word_of_nat i), upos = 0\<rparr>"] by simp

end
