(* ===== verification/Queue.thy ===== *)
theory Queue
  imports Bitcount Config
begin

unbundle bit_operations_syntax

text \<open>
  The fuzzing queue of \<^verbatim>\<open>afl-fuzz.c\<close>: the linked list of \<^verbatim>\<open>struct queue_entry\<close> with its
  shortcut pointers, the per-tuple winners \<^verbatim>\<open>top_rated\<close> with their reference-counted
  compacted traces, and the selection of the favored entries. The entries live in an
  explicit heap (a list); a pointer is an index into it, a null pointer is \<^term>\<open>None\<close>,
  so that aliasing between \<^verbatim>\<open>top_rated\<close> slots, the list and the entry being scored is
  the one of the code.
\<close>

section \<open>Entries and state\<close>

record queue_entry =
  fname :: string
  q_len :: nat
  cal_failed :: nat
  trim_done :: bool
  was_fuzzed :: bool
  passed_det :: bool
  has_new_cov :: bool
  var_behavior :: bool
  favored :: bool
  fs_redundant :: bool
  bitmap_size :: nat
  exec_cksum :: u32
  exec_us :: nat
  handicap :: nat
  depth :: nat
  trace_mini :: "buf option"
  tc_ref :: nat
  next_ent :: "nat option"
  next_100 :: "nat option"

text \<open>A zeroed entry, as \<^verbatim>\<open>ck_alloc\<close> returns it.\<close>

definition blank_entry :: queue_entry where
  "blank_entry = \<lparr>fname = [], q_len = 0, cal_failed = 0, trim_done = False, was_fuzzed = False,
     passed_det = False, has_new_cov = False, var_behavior = False, favored = False,
     fs_redundant = False, bitmap_size = 0, exec_cksum = 0, exec_us = 0, handicap = 0, depth = 0,
     trace_mini = None, tc_ref = 0, next_ent = None, next_100 = None\<rparr>"

record qstate =
  heap :: "queue_entry list"
  queue :: "nat option"
  queue_top :: "nat option"
  q_prev100 :: "nat option"
  queued_paths :: nat
  pending_not_fuzzed :: nat
  cycles_wo_finds :: nat
  cur_depth :: nat
  max_depth :: nat
  last_path_time :: nat
  top_rated :: "nat option list"
  score_changed :: bool
  queued_favored :: nat
  pending_favored :: nat
  dumb_mode :: bool
  redundant_edges :: "string set"     \<comment> \<open>files under \<^verbatim>\<open>queue/.state/redundant_edges\<close>\<close>
  deterministic_done :: "string set"  \<comment> \<open>files under \<^verbatim>\<open>queue/.state/deterministic_done\<close>\<close>

text \<open>The globals before the first test case is read.\<close>

definition empty_queue :: "nat \<Rightarrow> qstate" where
  "empty_queue map_size = \<lparr>heap = [], queue = None, queue_top = None, q_prev100 = None,
     queued_paths = 0, pending_not_fuzzed = 0, cycles_wo_finds = 0, cur_depth = 0, max_depth = 0,
     last_path_time = 0, top_rated = replicate map_size None, score_changed = False,
     queued_favored = 0, pending_favored = 0, dumb_mode = False, redundant_edges = {},
     deterministic_done = {}\<rparr>"

definition upd_entry :: "nat \<Rightarrow> (queue_entry \<Rightarrow> queue_entry) \<Rightarrow> qstate \<Rightarrow> qstate" where
  "upd_entry p f st = st\<lparr>heap := (heap st)[p := f (heap st ! p)]\<rparr>"

section \<open>Appending and walking\<close>

definition link_100 :: "nat \<Rightarrow> qstate \<Rightarrow> qstate" where
  "link_100 q st =
     (if queued_paths st mod 100 = 0 then
        (case q_prev100 st of
           Some p \<Rightarrow> (upd_entry p (\<lambda>e. e\<lparr>next_100 := Some q\<rparr>) st)\<lparr>q_prev100 := Some q\<rparr>
         | None \<Rightarrow> st)
      else st)"

definition add_to_queue :: "string \<Rightarrow> nat \<Rightarrow> bool \<Rightarrow> nat \<Rightarrow> qstate \<Rightarrow> qstate" where
  "add_to_queue fn len det now st =
     (let q = length (heap st);
          e = blank_entry\<lparr>fname := fn, q_len := len, depth := cur_depth st + 1, passed_det := det\<rparr>;
          st = st\<lparr>heap := heap st @ [e]\<rparr>;
          st = (if depth e > max_depth st then st\<lparr>max_depth := depth e\<rparr> else st);
          st = (case queue_top st of
                  Some t \<Rightarrow> (upd_entry t (\<lambda>e. e\<lparr>next_ent := Some q\<rparr>) st)\<lparr>queue_top := Some q\<rparr>
                | None \<Rightarrow> st\<lparr>q_prev100 := Some q, queue := Some q, queue_top := Some q\<rparr>);
          st = st\<lparr>queued_paths := queued_paths st + 1, pending_not_fuzzed := pending_not_fuzzed st + 1,
                  cycles_wo_finds := 0\<rparr>;
          st = link_100 q st
      in st\<lparr>last_path_time := now\<rparr>)"

text \<open>The walk to the \<open>tid\<close>-th entry in the splicing stage: hundreds first, then single steps.\<close>

fun hop_100 :: "queue_entry list \<Rightarrow> nat option \<Rightarrow> nat \<Rightarrow> err + (nat option \<times> nat)" where
  "hop_100 h target tid =
     (if tid \<ge> 100 then
        (case target of None \<Rightarrow> Inl NullDeref | Some p \<Rightarrow> hop_100 h (next_100 (h ! p)) (tid - 100))
      else Inr (target, tid))"

declare hop_100.simps [simp del]

fun step_next :: "queue_entry list \<Rightarrow> nat option \<Rightarrow> nat \<Rightarrow> err + nat option" where
  "step_next h target 0 = Inr target"
| "step_next h target (Suc tid) =
     (case target of None \<Rightarrow> Inl NullDeref | Some p \<Rightarrow> step_next h (next_ent (h ! p)) tid)"

definition seek_entry :: "qstate \<Rightarrow> nat \<Rightarrow> err + nat option" where
  "seek_entry st tid =
     err_bind (hop_100 (heap st) (queue st) tid) (\<lambda>(target, tid). step_next (heap st) target tid)"

text \<open>\<^verbatim>\<open>while (q) { ...; q = q->next; }\<close>; the fuel bounds the length of the list.\<close>

fun walk_queue :: "nat \<Rightarrow> (nat \<Rightarrow> qstate \<Rightarrow> err + qstate) \<Rightarrow> nat option \<Rightarrow> qstate \<Rightarrow> err + qstate" where
  "walk_queue fuel f None st = Inr st"
| "walk_queue 0 f (Some q) st = Inl NoFuel"
| "walk_queue (Suc fuel) f (Some q) st =
     err_bind (f q st) (\<lambda>st. walk_queue fuel f (next_ent (heap st ! q)) st)"

section \<open>Marks on disk\<close>

text \<open>\<^verbatim>\<open>strrchr(s, '/') + 1\<close>; without a slash the code dereferences a null pointer plus one.\<close>

definition base_name :: "string \<Rightarrow> string option" where
  "base_name s = (if CHR ''/'' \<in> set s then Some (rev (takeWhile (\<lambda>c. c \<noteq> CHR ''/'') (rev s))) else None)"

definition mark_as_det_done :: "nat \<Rightarrow> qstate \<Rightarrow> err + qstate" where
  "mark_as_det_done q st =
     (case base_name (fname (heap st ! q)) of
        None \<Rightarrow> Inl NullDeref
      | Some fn \<Rightarrow> Inr (upd_entry q (\<lambda>e. e\<lparr>passed_det := True\<rparr>)
                        (st\<lparr>deterministic_done := insert fn (deterministic_done st)\<rparr>)))"

definition mark_as_redundant :: "nat \<Rightarrow> bool \<Rightarrow> qstate \<Rightarrow> err + qstate" where
  "mark_as_redundant q state st =
     (if state = fs_redundant (heap st ! q) then Inr st else
      let st = upd_entry q (\<lambda>e. e\<lparr>fs_redundant := state\<rparr>) st in
      case base_name (fname (heap st ! q)) of
        None \<Rightarrow> Inl NullDeref
      | Some fn \<Rightarrow>
          if state then
            (if fn \<in> redundant_edges st then Inl (Fatal ''Unable to create'')
             else Inr (st\<lparr>redundant_edges := insert fn (redundant_edges st)\<rparr>))
          else
            (if fn \<in> redundant_edges st then Inr (st\<lparr>redundant_edges := redundant_edges st - {fn}\<rparr>)
             else Inl (Fatal ''Unable to remove'')))"

section \<open>Winners per tuple\<close>

text \<open>\<^verbatim>\<open>exec_us * len\<close> in 64 bits.\<close>

definition fav_factor :: "queue_entry \<Rightarrow> nat" where
  "fav_factor e = (exec_us e * q_len e) mod 2 ^ 64"

definition drop_winner :: "nat \<Rightarrow> qstate \<Rightarrow> qstate" where
  "drop_winner p st =
     upd_entry p (\<lambda>e. let e = e\<lparr>tc_ref := (tc_ref e + (2 ^ 32 - 1)) mod 2 ^ 32\<rparr> in
                      if tc_ref e = 0 then e\<lparr>trace_mini := None\<rparr> else e) st"

definition take_slot :: "buf \<Rightarrow> nat \<Rightarrow> nat \<Rightarrow> qstate \<Rightarrow> qstate" where
  "take_slot trace_bits q i st =
     (let st = st\<lparr>top_rated := (top_rated st)[i := Some q]\<rparr>;
          st = upd_entry q (\<lambda>e. e\<lparr>tc_ref := tc_ref e + 1\<rparr>) st;
          st = (if trace_mini (heap st ! q) = None then
                  upd_entry q (\<lambda>e. e\<lparr>trace_mini :=
                    Some (minimize_bits (replicate (length trace_bits div 8) 0) trace_bits)\<rparr>) st
                else st)
      in st\<lparr>score_changed := True\<rparr>)"

definition score_slot :: "buf \<Rightarrow> nat \<Rightarrow> nat \<Rightarrow> nat \<Rightarrow> qstate \<Rightarrow> qstate" where
  "score_slot trace_bits factor q i st =
     (if trace_bits ! i \<noteq> 0 then
        (case top_rated st ! i of
           Some p \<Rightarrow> if factor > fav_factor (heap st ! p) then st
                     else take_slot trace_bits q i (drop_winner p st)
         | None \<Rightarrow> take_slot trace_bits q i st)
      else st)"

definition update_bitmap_score :: "buf \<Rightarrow> nat \<Rightarrow> qstate \<Rightarrow> qstate" where
  "update_bitmap_score trace_bits q st =
     (let factor = fav_factor (heap st ! q) in
      fold (score_slot trace_bits factor q) [0..<length trace_bits] st)"

section \<open>Favored entries\<close>

definition clear_mini :: "buf \<Rightarrow> buf \<Rightarrow> buf" where
  "clear_mini temp_v mini = map2 (\<lambda>t m. if m \<noteq> 0 then t AND NOT m else t) temp_v mini"

definition cull_slot :: "nat \<Rightarrow> qstate \<times> buf \<Rightarrow> err + qstate \<times> buf" where
  "cull_slot i = (\<lambda>(st, temp_v).
     case top_rated st ! i of
       None \<Rightarrow> Inr (st, temp_v)
     | Some p \<Rightarrow>
         if mini_bit temp_v i then
           (case trace_mini (heap st ! p) of
              None \<Rightarrow> Inl NullDeref
            | Some mini \<Rightarrow>
                let st = upd_entry p (\<lambda>e. e\<lparr>favored := True\<rparr>) st;
                    st = st\<lparr>queued_favored := queued_favored st + 1\<rparr>;
                    st = (if was_fuzzed (heap st ! p) then st
                          else st\<lparr>pending_favored := pending_favored st + 1\<rparr>)
                in Inr (st, clear_mini temp_v mini))
         else Inr (st, temp_v))"

definition cull_queue :: "qstate \<Rightarrow> err + qstate" where
  "cull_queue st =
     (if dumb_mode st \<or> \<not> score_changed st then Inr st else
      let n = length (top_rated st);
          st = st\<lparr>score_changed := False, queued_favored := 0, pending_favored := 0\<rparr>;
          fuel = length (heap st)
      in err_bind (walk_queue fuel (\<lambda>q st. Inr (upd_entry q (\<lambda>e. e\<lparr>favored := False\<rparr>) st)) (queue st) st)
        (\<lambda>st. err_bind (fold_err cull_slot [0..<n] (st, replicate (n div 8) 0xff))
        (\<lambda>(st, temp_v). walk_queue fuel (\<lambda>q st. mark_as_redundant q (\<not> favored (heap st ! q)) st) (queue st) st)))"

section \<open>The list and its shortcuts\<close>

text \<open>
  The shape that \<^const>\<open>add_to_queue\<close> builds: entry \<open>i\<close> is followed by entry \<open>i + 1\<close>, and the
  shortcut pointers sit on the first entry and on every hundredth one.
\<close>

definition shortcut :: "nat \<Rightarrow> nat \<Rightarrow> nat option" where
  "shortcut n i =
     (if i = 0 then (if 100 \<le> n then Some 99 else None)
      else if Suc i mod 100 = 0 \<and> i + 100 < n then Some (i + 100) else None)"

definition last_mark :: "nat \<Rightarrow> nat" where
  "last_mark n = (if n < 100 then 0 else 100 * (n div 100) - 1)"

definition linked :: "qstate \<Rightarrow> bool" where
  "linked st \<longleftrightarrow> (let n = length (heap st) in
     queued_paths st = n \<and>
     queue st = (if n = 0 then None else Some 0) \<and>
     queue_top st = (if n = 0 then None else Some (n - 1)) \<and>
     q_prev100 st = (if n = 0 then None else Some (last_mark n)) \<and>
     (\<forall>i < n. next_ent (heap st ! i) = (if Suc i < n then Some (Suc i) else None)) \<and>
     (\<forall>i < n. next_100 (heap st ! i) = shortcut n i))"

lemma hundredth: "Suc n mod 100 = 0 \<Longrightarrow> \<exists>k. n = 100 * k + 99"
proof -
  assume "Suc n mod 100 = 0"
  then obtain j where j: "Suc n = 100 * j" by auto
  then obtain k where "j = Suc k" by (cases j) auto
  with j show ?thesis by (intro exI[of _ k]) simp
qed

lemma last_mark_hundredth: "last_mark (100 * k + 99) = (if k = 0 then 0 else 100 * k - 1)"
  "last_mark (100 * k + 100) = 100 * k + 99"
  by (simp_all add: last_mark_def)

lemma last_mark_Suc:
  assumes "Suc n mod 100 \<noteq> 0"
  shows "last_mark (Suc n) = last_mark n"
proof -
  have "Suc n div 100 = n div 100" using assms by (simp add: div_Suc)
  moreover have "Suc n < 100 \<longleftrightarrow> n < 100" using assms by (cases "n = 99") auto
  ultimately show ?thesis by (simp add: last_mark_def)
qed

lemma shortcut_mark:
  "shortcut (100 * k + 100) (last_mark (100 * k + 99)) = Some (100 * k + 99)"
  unfolding last_mark_hundredth by (cases k) (simp_all add: shortcut_def)

lemma shortcut_other:
  assumes "i \<le> n" "Suc n mod 100 = 0 \<longrightarrow> i \<noteq> last_mark n"
  shows "shortcut (Suc n) i = (if i = n then None else shortcut n i)"
proof (cases "i = 0 \<or> i = n")
  case True
  have "Suc n \<noteq> 100" if "i = 0" using assms(2) that by (auto simp: last_mark_def)
  with True assms(1) show ?thesis by (auto simp: shortcut_def)
next
  case False
  have "i + 100 \<noteq> n" if "Suc i mod 100 = 0"
  proof
    assume n: "i + 100 = n"
    obtain k where k: "i = 100 * k + 99" using hundredth[OF \<open>Suc i mod 100 = 0\<close>] by blast
    with n have "n = 100 * Suc k + 99" by simp
    then show False using assms(2) k by (simp only: last_mark_hundredth) simp
  qed
  with False assms(1) show ?thesis by (auto simp: shortcut_def)
qed

lemma last_mark_less: "0 < n \<Longrightarrow> last_mark n < n"
  unfolding last_mark_def using times_div_less_eq_dividend[of 100 n] by (auto simp: not_less)

lemma add_to_queue_heap:
  assumes "linked st" and that: "i \<le> length (heap st)"
  shows "heap (add_to_queue fn len det now st) ! i =
     (let n = length (heap st);
          e = (if i < n then heap st ! i
               else blank_entry\<lparr>fname := fn, q_len := len, depth := cur_depth st + 1, passed_det := det\<rparr>);
          e = (if Suc i = n then e\<lparr>next_ent := Some n\<rparr> else e)
      in if Suc n mod 100 = 0 \<and> i = last_mark n then e\<lparr>next_100 := Some n\<rparr> else e)"
proof (cases "length (heap st) = 0")
  case True
  with assms that show ?thesis
    by (auto simp: linked_def add_to_queue_def Let_def link_100_def upd_entry_def)
next
  case False
  with assms have q: "queue_top st = Some (length (heap st) - 1)" "q_prev100 st = Some (last_mark (length (heap st)))"
    "queued_paths st = length (heap st)"
    by (simp_all add: linked_def Let_def)
  let ?n = "length (heap st)" and ?e = "blank_entry\<lparr>fname := fn, q_len := len, depth := cur_depth st + 1, passed_det := det\<rparr>"
  define H where "H = (heap st @ [?e])[?n - 1 := (heap st ! (?n - 1))\<lparr>next_ent := Some ?n\<rparr>]"
  have lm: "last_mark ?n < ?n" using False by (simp add: last_mark_less)
  have h: "heap (add_to_queue fn len det now st) =
      (if Suc ?n mod 100 = 0 then H[last_mark ?n := (H ! last_mark ?n)\<lparr>next_100 := Some ?n\<rparr>] else H)"
    using q False by (simp add: H_def add_to_queue_def Let_def link_100_def upd_entry_def nth_append)
  have hk: "H ! k = (let e = (if k < ?n then heap st ! k else ?e) in if Suc k = ?n then e\<lparr>next_ent := Some ?n\<rparr> else e)"
    if "k \<le> ?n" for k
  proof -
    have "?n - 1 = k \<longleftrightarrow> Suc k = ?n" using False by (cases ?n) auto
    with that False show ?thesis by (auto simp: H_def Let_def nth_list_update nth_append)
  qed
  have "length H = Suc ?n" by (simp add: H_def)
  with that lm hk[of i] hk[of "last_mark ?n"] show ?thesis unfolding h by (auto simp: Let_def nth_list_update)
qed

lemma add_to_queue_rest:
  assumes "linked st"
  shows "length (heap (add_to_queue fn len det now st)) = Suc (length (heap st))"
    and "queued_paths (add_to_queue fn len det now st) = Suc (length (heap st))"
    and "queue (add_to_queue fn len det now st) = Some 0"
    and "queue_top (add_to_queue fn len det now st) = Some (length (heap st))"
    and "q_prev100 (add_to_queue fn len det now st) = Some (last_mark (Suc (length (heap st))))"
    and "top_rated (add_to_queue fn len det now st) = top_rated st"
proof -
  let ?n = "length (heap st)"
  have m: "last_mark (Suc ?n) = (if Suc ?n mod 100 = 0 then ?n else last_mark ?n)"
    using last_mark_Suc[of ?n] hundredth[of ?n] last_mark_hundredth(2) by (auto simp: add.commute)
  show "length (heap (add_to_queue fn len det now st)) = Suc ?n"
    "queued_paths (add_to_queue fn len det now st) = Suc ?n"
    "queue (add_to_queue fn len det now st) = Some 0"
    "queue_top (add_to_queue fn len det now st) = Some ?n"
    "top_rated (add_to_queue fn len det now st) = top_rated st"
    using assms by (cases "?n = 0"; simp add: linked_def add_to_queue_def Let_def link_100_def upd_entry_def)+
  show "q_prev100 (add_to_queue fn len det now st) = Some (last_mark (Suc ?n))"
    unfolding m using assms
    by (cases "?n = 0"; simp add: linked_def add_to_queue_def Let_def link_100_def upd_entry_def last_mark_def)
qed

lemma linked_add_to_queue:
  assumes l: "linked st"
  shows "linked (add_to_queue fn len det now st)"
proof -
  let ?st = "add_to_queue fn len det now st" and ?n = "length (heap st)"
  have old: "next_ent (heap st ! i) = (if Suc i < ?n then Some (Suc i) else None)"
    "next_100 (heap st ! i) = shortcut ?n i" if "i < ?n" for i
    using l that by (simp_all add: linked_def Let_def)
  have "next_ent (heap ?st ! i) = (if Suc i < Suc ?n then Some (Suc i) else None)" if "i < Suc ?n" for i
    using that old(1)[of i] by (auto simp: add_to_queue_heap[OF l] Let_def blank_entry_def)
  moreover have "next_100 (heap ?st ! i) = shortcut (Suc ?n) i" if i: "i < Suc ?n" for i
  proof (cases "Suc ?n mod 100 = 0 \<and> i = last_mark ?n")
    case True
    then have "Suc ?n mod 100 = 0" by simp
    from hundredth[OF this] obtain k where k: "?n = 100 * k + 99" by auto
    have s: "Suc ?n = 100 * k + 100" using k by simp
    have "shortcut (Suc ?n) i = Some ?n" using True shortcut_mark[of k] by (simp only: s[symmetric] k[symmetric])
    with True i show ?thesis by (simp add: add_to_queue_heap[OF l] Let_def)
  next
    case False
    then have "shortcut (Suc ?n) i = (if i = ?n then None else shortcut ?n i)"
      using i by (intro shortcut_other) auto
    with False i old(2)[of i] show ?thesis
      by (auto simp: add_to_queue_heap[OF l] Let_def blank_entry_def)
  qed
  ultimately show ?thesis
    unfolding linked_def Let_def by (simp add: add_to_queue_rest[OF l])
qed

text \<open>Where \<open>j\<close> hops along the shortcuts lead.\<close>

definition hop_pos :: "nat \<Rightarrow> nat" where
  "hop_pos j = (if j = 0 then 0 else 100 * j - 1)"

lemma shortcut_hop: "100 * j + 100 < n \<Longrightarrow> shortcut n (hop_pos j) = Some (hop_pos (Suc j))"
  by (cases j) (auto simp: shortcut_def hop_pos_def)

lemma hop_100_linked:
  assumes l: "linked st"
  shows "100 * j + t < length (heap st) \<Longrightarrow>
    hop_100 (heap st) (Some (hop_pos j)) t = Inr (Some (hop_pos (j + t div 100)), t mod 100)"
proof (induction t arbitrary: j rule: less_induct)
  case (less t)
  show ?case
  proof (cases "100 \<le> t")
    case True
    let ?n = "length (heap st)"
    have "hop_pos j < ?n" using less.prems by (auto simp: hop_pos_def)
    then have "next_100 (heap st ! hop_pos j) = shortcut ?n (hop_pos j)"
      using l by (simp add: linked_def Let_def)
    also have "\<dots> = Some (hop_pos (Suc j))" using True less.prems by (intro shortcut_hop) simp
    finally have e: "next_100 (heap st ! hop_pos j) = Some (hop_pos (Suc j))" .
    have "hop_100 (heap st) (Some (hop_pos (Suc j))) (t - 100) =
        Inr (Some (hop_pos (Suc j + (t - 100) div 100)), (t - 100) mod 100)"
      using True less.prems by (intro less.IH) simp_all
    moreover have "t div 100 = Suc ((t - 100) div 100)" "t mod 100 = (t - 100) mod 100"
      using True by (simp_all add: le_div_geq le_mod_geq)
    ultimately show ?thesis using True e by (simp add: hop_100.simps[of _ _ t])
  next
    case False
    then show ?thesis by (simp add: hop_100.simps)
  qed
qed

lemma step_next_linked:
  "\<lbrakk>linked st; p + k < length (heap st)\<rbrakk> \<Longrightarrow> step_next (heap st) (Some p) k = Inr (Some (p + k))"
proof (induction k arbitrary: p)
  case (Suc k)
  then have "next_ent (heap st ! p) = Some (Suc p)" by (simp add: linked_def Let_def)
  with Suc show ?case by simp
qed simp

lemma seek_linked:
  assumes l: "linked st" and t: "tid < length (heap st)"
  shows "seek_entry st tid = Inr (Some (if tid < 100 then tid else tid - 1))"
proof -
  have q: "queue st = Some (hop_pos 0)" using l t by (auto simp: linked_def Let_def hop_pos_def)
  have e: "hop_pos (tid div 100) + tid mod 100 = (if tid < 100 then tid else tid - 1)"
  proof (cases "tid < 100")
    case False
    then have "0 < tid div 100" by (simp add: div_greater_zero_iff)
    moreover have "100 * (tid div 100) + tid mod 100 = tid" by simp
    ultimately have "100 * (tid div 100) - 1 + tid mod 100 = tid - 1" by linarith
    then show ?thesis using False \<open>0 < tid div 100\<close> by (simp add: hop_pos_def)
  qed (simp add: hop_pos_def)
  have "step_next (heap st) (Some (hop_pos (tid div 100))) (tid mod 100)
      = Inr (Some (hop_pos (tid div 100) + tid mod 100))"
    using l by (rule step_next_linked) (use t e in \<open>simp split: if_splits\<close>)
  then show ?thesis
    using hop_100_linked[OF l, of 0 tid] t unfolding seek_entry_def q e by simp
qed

lemma linked_cur_depth: "linked (st\<lparr>cur_depth := d\<rparr>) = linked st"
  by (simp add: linked_def Let_def)

text \<open>A sequence of finds: file name, length, deterministic flag, time and the depth of the parent.\<close>

definition add_all :: "(string \<times> nat \<times> bool \<times> nat \<times> nat) list \<Rightarrow> qstate \<Rightarrow> qstate" where
  "add_all calls st =
     fold (\<lambda>(fn, len, det, now, d) st. add_to_queue fn len det now (st\<lparr>cur_depth := d\<rparr>)) calls st"

lemma add_all_linked:
  "linked st \<Longrightarrow> linked (add_all calls st) \<and> length (heap (add_all calls st)) = length (heap st) + length calls"
proof (induction calls arbitrary: st)
  case Nil
  then show ?case by (simp add: add_all_def)
next
  case (Cons c calls)
  obtain fn len det now d where c: "c = (fn, len, det, now, d)" by (cases c) auto
  let ?st = "add_to_queue fn len det now (st\<lparr>cur_depth := d\<rparr>)"
  have l: "linked (st\<lparr>cur_depth := d\<rparr>)" using Cons.prems by (simp add: linked_cur_depth)
  have "linked ?st" "length (heap ?st) = Suc (length (heap st))"
    using linked_add_to_queue[OF l] add_to_queue_rest(1)[OF l] by simp_all
  with Cons.IH[of ?st] show ?case by (simp add: add_all_def c)
qed

text \<open>
  C22: appending to the queue keeps its shape: from an empty queue, after any sequence of
  \<^verbatim>\<open>add_to_queue\<close> calls the list runs through all entries in the order of their creation,
  and the walk of the splicing stage to entry \<open>tid\<close> never follows a null pointer. It arrives at
  entry \<open>tid\<close> for the first hundred entries, but one entry before it from there on, since the
  first shortcut spans 99 entries and not 100.
\<close>

theorem seek_after_adds:
  assumes "tid < length calls"
  shows "linked (add_all calls (empty_queue ms))
    \<and> length (heap (add_all calls (empty_queue ms))) = length calls
    \<and> seek_entry (add_all calls (empty_queue ms)) tid = Inr (Some (if tid < 100 then tid else tid - 1))"
proof -
  have "linked (empty_queue ms)" by (simp add: linked_def empty_queue_def)
  from add_all_linked[OF this, of calls] have "linked (add_all calls (empty_queue ms))"
    "length (heap (add_all calls (empty_queue ms))) = length calls"
    by (simp_all add: empty_queue_def)
  with seek_linked[of "add_all calls (empty_queue ms)" tid] assms show ?thesis by simp
qed

theorem seek_after_adds_witness:
  "seek_entry (add_all (replicate 150 (''q/id'', 4, False, 0, 0)) (empty_queue 8)) 42 = Inr (Some 42) \<and>
   seek_entry (add_all (replicate 150 (''q/id'', 4, False, 0, 0)) (empty_queue 8)) 120 = Inr (Some 119)"
  using seek_after_adds[of 42 "replicate 150 (''q/id'', 4, False, 0, 0)" 8]
    seek_after_adds[of 120 "replicate 150 (''q/id'', 4, False, 0, 0)" 8] by simp

end
