(* ===== verification/Favored.thy ===== *)
theory Favored
  imports Queue
begin

unbundle bit_operations_syntax

text \<open>
  Correctness of the favored-entry bookkeeping: the reference counts of the compacted traces
  under \<^const>\<open>update_bitmap_score\<close>, and the set of entries that \<^const>\<open>cull_queue\<close> selects.
\<close>

section \<open>Reference counts\<close>

definition entry_ok :: "nat option list \<Rightarrow> nat \<Rightarrow> queue_entry \<Rightarrow> bool" where
  "entry_ok tr k e \<longleftrightarrow> tc_ref e = count_list tr (Some k) \<and> (trace_mini e = None \<longleftrightarrow> tc_ref e = 0) \<and>
     (case trace_mini e of None \<Rightarrow> True | Some m \<Rightarrow> length m = length tr div 8)"

definition tc_wf :: "qstate \<Rightarrow> bool" where
  "tc_wf st \<longleftrightarrow> list_all (\<lambda>k. entry_ok (top_rated st) k (heap st ! k)) [0..<length (heap st)] \<and>
     list_all (\<lambda>s. case s of None \<Rightarrow> True | Some k \<Rightarrow> k < length (heap st)) (top_rated st)"

lemma tc_wfD:
  assumes "tc_wf st"
  shows "k < length (heap st) \<Longrightarrow> entry_ok (top_rated st) k (heap st ! k)"
    and "i < length (top_rated st) \<Longrightarrow> top_rated st ! i = Some p \<Longrightarrow> p < length (heap st)"
  using assms by (auto simp: tc_wf_def list_all_iff split: option.splits dest: nth_mem)

lemma tc_wfI:
  assumes "\<And>k. k < length (heap st) \<Longrightarrow> entry_ok (top_rated st) k (heap st ! k)"
    and "\<And>i p. i < length (top_rated st) \<Longrightarrow> top_rated st ! i = Some p \<Longrightarrow> p < length (heap st)"
  shows "tc_wf st"
  using assms by (auto simp: tc_wf_def list_all_iff in_set_conv_nth split: option.splits)

lemma count_list_update:
  "i < length xs \<Longrightarrow>
   count_list (xs[i := y]) z + (if xs ! i = z then 1 else 0) = count_list xs z + (if y = z then 1 else 0)"
proof (induction xs arbitrary: i)
  case (Cons x xs)
  show ?case
  proof (cases i)
    case (Suc j)
    with Cons.IH[of j] Cons.prems show ?thesis by auto
  qed auto
qed simp

lemma count_list_pos: "i < length xs \<Longrightarrow> xs ! i = z \<Longrightarrow> 0 < count_list xs z"
  by (metis count_list_0_iff nth_mem neq0_conv)

lemma length_minimize_bits [simp]: "length (minimize_bits dst src) = length dst"
proof -
  have "length (minimize_loop i dst src) = length dst" for i
    by (induction i dst src rule: minimize_loop.induct) auto
  then show ?thesis by (simp add: minimize_bits_def)
qed

text \<open>Taking a slot away from its holder, seen as a step of its own.\<close>

lemma tc_wf_drop_winner:
  assumes wf: "tc_wf st" and i: "i < length (top_rated st)" "top_rated st ! i = Some p"
    and b: "length (top_rated st) < 2 ^ 32"
  shows "tc_wf ((drop_winner p st)\<lparr>top_rated := (top_rated st)[i := None]\<rparr>)"
proof (rule tc_wfI)
  let ?tr = "(top_rated st)[i := None]"
  have p: "p < length (heap st)" using tc_wfD(2)[OF wf i] .
  have c: "count_list ?tr (Some k) = count_list (top_rated st) (Some k) - (if k = p then 1 else 0)" for k
    using count_list_update[OF i(1), of None "Some k"] i(2) by (auto split: if_splits)
  have pos: "0 < count_list (top_rated st) (Some p)" using i by (intro count_list_pos)
  have small: "count_list (top_rated st) (Some p) < 2 ^ 32"
    using b count_le_length[of "top_rated st" "Some p"] by linarith
  then have dec: "(count_list (top_rated st) (Some p) + (2 ^ 32 - 1)) mod 2 ^ 32
      = count_list (top_rated st) (Some p) - 1"
    using pos by (simp add: mod_if)
  fix k
  assume k: "k < length (heap ((drop_winner p st)\<lparr>top_rated := ?tr\<rparr>))"
  then have k': "k < length (heap st)" by (simp add: drop_winner_def upd_entry_def)
  from tc_wfD(1)[OF wf this] tc_wfD(1)[OF wf p]
  show "entry_ok (top_rated ((drop_winner p st)\<lparr>top_rated := ?tr\<rparr>)) k
      (heap ((drop_winner p st)\<lparr>top_rated := ?tr\<rparr>) ! k)"
    using dec pos p by (cases "k = p") (auto simp: entry_ok_def c drop_winner_def upd_entry_def Let_def split: option.splits)
next
  fix j r
  assume "j < length (top_rated ((drop_winner p st)\<lparr>top_rated := (top_rated st)[i := None]\<rparr>))"
    "top_rated ((drop_winner p st)\<lparr>top_rated := (top_rated st)[i := None]\<rparr>) ! j = Some r"
  then show "r < length (heap ((drop_winner p st)\<lparr>top_rated := (top_rated st)[i := None]\<rparr>))"
    using tc_wfD(2)[OF wf, of j r] i(1) by (cases "j = i") (auto simp: drop_winner_def upd_entry_def nth_list_update split: if_splits)
qed

lemma tc_wf_take_slot:
  assumes wf: "tc_wf st" and i: "i < length (top_rated st)" "top_rated st ! i = None"
    and q: "q < length (heap st)" and l: "length tb = length (top_rated st)"
  shows "tc_wf (take_slot tb q i st)"
proof (rule tc_wfI)
  let ?st = "take_slot tb q i st"
  have tr: "top_rated ?st = (top_rated st)[i := Some q]" "length (heap ?st) = length (heap st)"
    by (simp_all add: take_slot_def Let_def upd_entry_def)
  have c: "count_list (top_rated ?st) (Some k) = count_list (top_rated st) (Some k) + (if k = q then 1 else 0)" for k
    using count_list_update[OF i(1), of "Some q" "Some k"] i(2) tr(1) by (auto split: if_splits)
  fix k
  assume "k < length (heap ?st)"
  then have k: "k < length (heap st)" using tr(2) by simp
  from tc_wfD(1)[OF wf this] show "entry_ok (top_rated ?st) k (heap ?st ! k)"
    unfolding entry_ok_def c using q l
    by (cases "k = q") (auto simp: take_slot_def Let_def upd_entry_def split: option.splits)
next
  fix j r
  assume "j < length (top_rated (take_slot tb q i st))" "top_rated (take_slot tb q i st) ! j = Some r"
  then show "r < length (heap (take_slot tb q i st))"
    using tc_wfD(2)[OF wf, of j r] q i(1) by (cases "j = i") (auto simp: take_slot_def Let_def upd_entry_def nth_list_update split: if_splits)
qed

lemma take_slot_vacated:
  "take_slot tb q i (st\<lparr>top_rated := (top_rated st)[i := x]\<rparr>) = take_slot tb q i st"
  by (simp add: take_slot_def upd_entry_def Let_def)

lemma drop_winner_simps [simp]:
  "top_rated (drop_winner p st) = top_rated st" "length (heap (drop_winner p st)) = length (heap st)"
  by (simp_all add: drop_winner_def upd_entry_def)

lemma take_slot_simps [simp]:
  "top_rated (take_slot tb q i st) = (top_rated st)[i := Some q]"
  "length (heap (take_slot tb q i st)) = length (heap st)"
  by (simp_all add: take_slot_def upd_entry_def Let_def)

lemma fav_factor_slots [simp]:
  "fav_factor (heap (take_slot tb q i st) ! k) = fav_factor (heap st ! k)"
  "fav_factor (heap (drop_winner p st) ! k) = fav_factor (heap st ! k)"
proof -
  show "fav_factor (heap (drop_winner p st) ! k) = fav_factor (heap st ! k)"
    unfolding drop_winner_def upd_entry_def
    by (cases "p < length (heap st)"; cases "k = p") (simp_all add: list_update_beyond Let_def fav_factor_def)
  show "fav_factor (heap (take_slot tb q i st) ! k) = fav_factor (heap st ! k)"
    unfolding take_slot_def Let_def upd_entry_def
    by (cases "q < length (heap st)"; cases "k = q") (simp_all add: list_update_beyond fav_factor_def)
qed

lemma score_slot_simps [simp]:
  "length (top_rated (score_slot tb f q i st)) = length (top_rated st)"
  "length (heap (score_slot tb f q i st)) = length (heap st)"
  "fav_factor (heap (score_slot tb f q i st) ! k) = fav_factor (heap st ! k)"
  "j \<noteq> i \<Longrightarrow> top_rated (score_slot tb f q i st) ! j = top_rated st ! j"
  by (simp_all add: score_slot_def split: option.splits)

lemma tc_wf_score_slot:
  assumes "tc_wf st" "i < length (top_rated st)" "q < length (heap st)"
    and "length tb = length (top_rated st)" "length (top_rated st) < 2 ^ 32"
  shows "tc_wf (score_slot tb f q i st)"
proof (cases "top_rated st ! i")
  case None
  then show ?thesis using assms tc_wf_take_slot by (simp add: score_slot_def)
next
  case (Some p)
  let ?st = "(drop_winner p st)\<lparr>top_rated := (top_rated st)[i := None]\<rparr>"
  have "tc_wf ?st" using assms Some by (intro tc_wf_drop_winner)
  then have "tc_wf (take_slot tb q i ?st)" using assms by (intro tc_wf_take_slot) simp_all
  moreover have "take_slot tb q i ?st = take_slot tb q i (drop_winner p st)"
    using take_slot_vacated[of tb q i "drop_winner p st" None] by simp
  ultimately show ?thesis using assms Some by (simp add: score_slot_def)
qed

text \<open>What the loop has done after the first \<open>n\<close> tuples.\<close>

lemma score_prefix:
  assumes wf: "tc_wf st" and q: "q < length (heap st)"
    and l: "length tb = length (top_rated st)" "length (top_rated st) < 2 ^ 32"
    and n: "n \<le> length (top_rated st)" and f: "f = fav_factor (heap st ! q)"
  defines "st' \<equiv> fold (score_slot tb f q) [0..<n] st"
  shows "tc_wf st' \<and> length (heap st') = length (heap st) \<and> length (top_rated st') = length (top_rated st)
    \<and> (\<forall>k. fav_factor (heap st' ! k) = fav_factor (heap st ! k))
    \<and> (\<forall>i < length (top_rated st). if i < n \<and> tb ! i \<noteq> 0
          then (\<exists>p. top_rated st' ! i = Some p \<and> fav_factor (heap st ! p) \<le> f
                 \<and> (p = q \<or> top_rated st ! i = Some p \<and> fav_factor (heap st ! p) < f))
          else top_rated st' ! i = top_rated st ! i)"
  using n unfolding st'_def
proof (induction n)
  case 0
  then show ?case using wf by simp
next
  case (Suc n)
  define s where "s = fold (score_slot tb f q) [0..<n] st"
  have ih: "tc_wf s" "length (heap s) = length (heap st)" "length (top_rated s) = length (top_rated st)"
    "\<And>k. fav_factor (heap s ! k) = fav_factor (heap st ! k)" "top_rated s ! n = top_rated st ! n"
    using Suc by (auto simp: s_def)
  have "tc_wf (score_slot tb f q n s)"
    using ih l q Suc.prems by (intro tc_wf_score_slot) simp_all
  moreover have new: "if tb ! n \<noteq> 0
      then (\<exists>p. top_rated (score_slot tb f q n s) ! n = Some p \<and> fav_factor (heap st ! p) \<le> f
              \<and> (p = q \<or> top_rated st ! n = Some p \<and> fav_factor (heap st ! p) < f))
      else top_rated (score_slot tb f q n s) ! n = top_rated st ! n"
    using ih(3,5) Suc.prems f by (auto simp: score_slot_def ih(4) split: option.splits)
  moreover have "if i < Suc n \<and> tb ! i \<noteq> 0
      then (\<exists>p. top_rated (score_slot tb f q n s) ! i = Some p \<and> fav_factor (heap st ! p) \<le> f
              \<and> (p = q \<or> top_rated st ! i = Some p \<and> fav_factor (heap st ! p) < f))
      else top_rated (score_slot tb f q n s) ! i = top_rated st ! i" if "i < length (top_rated st)" for i
  proof (cases "i = n")
    case True
    with new show ?thesis by simp
  next
    case False
    with Suc that show ?thesis by (auto simp: s_def less_Suc_eq)
  qed
  moreover have e: "fold (score_slot tb f q) [0..<Suc n] st = score_slot tb f q n s" by (simp add: s_def)
  ultimately show ?case
    unfolding e using ih(2-4) by simp
qed

text \<open>
  C11: \<^verbatim>\<open>update_bitmap_score\<close> keeps the reference counts exact: before and after it, the count of
  every entry is the number of tuples it is the winner of, a compacted trace is kept exactly
  for the entries with a positive count, and it has the right size. Afterwards every tuple the
  trace hits has a winner whose speed-size factor is not worse than that of the scored entry,
  namely that entry or a strictly better previous winner, and the winners of all other
  tuples are unchanged.
\<close>

theorem update_bitmap_score_correct:
  assumes "tc_wf st" "q < length (heap st)"
    and "length tb = length (top_rated st)" "length (top_rated st) < 2 ^ 32"
  shows "tc_wf (update_bitmap_score tb q st)
    \<and> (\<forall>i < length (top_rated st). if tb ! i \<noteq> 0
          then (\<exists>p. top_rated (update_bitmap_score tb q st) ! i = Some p
                 \<and> fav_factor (heap st ! p) \<le> fav_factor (heap st ! q)
                 \<and> (p = q \<or> top_rated st ! i = Some p \<and> fav_factor (heap st ! p) < fav_factor (heap st ! q)))
          else top_rated (update_bitmap_score tb q st) ! i = top_rated st ! i)"
  using score_prefix[OF assms order_refl refl] assms(3) by (simp add: update_bitmap_score_def)

text \<open>The counts are exact from the start of a run on, and new entries keep them exact.\<close>

lemma tc_wf_empty: "tc_wf (empty_queue n)"
  by (simp add: tc_wf_def empty_queue_def list_all_iff)

lemma tc_wf_add_to_queue:
  assumes l: "linked st" and wf: "tc_wf st"
  shows "tc_wf (add_to_queue fn len det now st)"
proof (rule tc_wfI)
  let ?st = "add_to_queue fn len det now st" and ?n = "length (heap st)"
  have tr: "top_rated ?st = top_rated st" and n: "length (heap ?st) = Suc ?n"
    using add_to_queue_rest[OF l] by simp_all
  show "p < length (heap ?st)" if "i < length (top_rated ?st)" "top_rated ?st ! i = Some p" for i p
    using tc_wfD(2)[OF wf, of i p] that by (simp add: tr n)
  fix k
  assume "k < length (heap ?st)"
  then have k: "k \<le> ?n" using n by simp
  have "Some ?n \<notin> set (top_rated st)"
    using tc_wfD(2)[OF wf] by (auto simp: in_set_conv_nth)
  then have c: "count_list (top_rated st) (Some ?n) = 0" by (simp add: count_list_0_iff)
  show "entry_ok (top_rated ?st) k (heap ?st ! k)"
  proof (cases "k = ?n")
    case True
    then show ?thesis using c by (simp add: tr add_to_queue_heap[OF l] Let_def entry_ok_def blank_entry_def)
  next
    case False
    then have "tc_ref (heap ?st ! k) = tc_ref (heap st ! k)" "trace_mini (heap ?st ! k) = trace_mini (heap st ! k)"
      using k by (simp_all add: add_to_queue_heap[OF l k] Let_def)
    with False k tc_wfD(1)[OF wf, of k] show ?thesis by (simp add: tr entry_ok_def)
  qed
qed

lemma tc_wf_add_all: "linked st \<Longrightarrow> tc_wf st \<Longrightarrow> tc_wf (add_all calls st)"
proof (induction calls arbitrary: st)
  case Nil
  then show ?case by (simp add: add_all_def)
next
  case (Cons c calls)
  obtain fn len det now d where c: "c = (fn, len, det, now, d)" by (cases c) auto
  have "linked (st\<lparr>cur_depth := d\<rparr>)" "tc_wf (st\<lparr>cur_depth := d\<rparr>)"
    using Cons.prems unfolding tc_wf_def list_all_iff
    by (simp_all add: linked_cur_depth cong: option.case_cong)
  with Cons.IH[OF linked_add_to_queue tc_wf_add_to_queue] show ?case by (simp add: add_all_def c)
qed

theorem update_bitmap_score_witness:
  "tc_wf (update_bitmap_score [1, 0, 0, 0, 0, 0, 4, 0] 1
     (add_all [(''q/a'', 3, False, 0, 0), (''q/b'', 2, False, 0, 0)] (empty_queue 8)))"
proof -
  let ?st = "add_all [(''q/a'', 3, False, 0, 0), (''q/b'', 2, False, 0, 0)] (empty_queue 8)"
  have e: "linked (empty_queue 8)" by (simp add: linked_def empty_queue_def)
  have "tc_wf ?st" "length (heap ?st) = 2"
    using tc_wf_add_all[OF e tc_wf_empty] add_all_linked[OF e] by (simp_all add: empty_queue_def)
  moreover have "length (top_rated ?st) = 8"
    by (simp add: add_all_def add_to_queue_def empty_queue_def Let_def link_100_def upd_entry_def)
  ultimately show ?thesis using update_bitmap_score_correct[of ?st 1 "[1, 0, 0, 0, 0, 0, 4, 0]"] by simp
qed

lemma heap_upd_entry:
  "heap (upd_entry p f s) ! k = (if k = p \<and> p < length (heap s) then f (heap s ! p) else heap s ! k)"
  by (auto simp: upd_entry_def nth_list_update list_update_beyond)

section \<open>Walking the list\<close>

lemma walk_queue_rule:
  assumes step: "\<And>i s. i < n \<Longrightarrow> P i s \<Longrightarrow> \<exists>s'. f i s = Inr s' \<and> P (Suc i) s'"
    and ptr: "\<And>i k s. P i s \<Longrightarrow> k < n \<Longrightarrow> next_ent (heap s ! k) = (if Suc k < n then Some (Suc k) else None)"
    and init: "P 0 s"
  shows "\<exists>s'. walk_queue n f (if n = 0 then None else Some 0) s = Inr s' \<and> P n s'"
proof -
  have "P i s \<Longrightarrow> i \<le> n \<Longrightarrow> \<exists>s'. walk_queue (n - i) f (if i < n then Some i else None) s = Inr s' \<and> P n s'" for i s
  proof (induction "n - i" arbitrary: i s)
    case 0
    then show ?case by simp
  next
    case (Suc m)
    then have i: "i < n" by simp
    obtain s1 where s1: "f i s = Inr s1" "P (Suc i) s1" using step[OF i Suc.prems(1)] by blast
    have "n - i = Suc (n - Suc i)" using i by simp
    then show ?case
      using Suc.hyps(1)[of "Suc i" s1] Suc.hyps(2) s1 i ptr[OF s1(2) i] by simp
  qed
  from this[of 0 s] init show ?thesis by (cases "n = 0") simp_all
qed

text \<open>What neither favoring nor marking changes.\<close>

definition erase :: "queue_entry \<Rightarrow> queue_entry" where
  "erase e = e\<lparr>favored := False, fs_redundant := False\<rparr>"

definition same_core :: "qstate \<Rightarrow> qstate \<Rightarrow> bool" where
  "same_core s t \<longleftrightarrow> map erase (heap s) = map erase (heap t) \<and> queue s = queue t \<and> queue_top s = queue_top t \<and>
     q_prev100 s = q_prev100 t \<and> queued_paths s = queued_paths t \<and> top_rated s = top_rated t"

lemma same_coreD:
  assumes "same_core s t"
  shows "length (heap s) = length (heap t)" "top_rated s = top_rated t" "queue s = queue t"
    and "k < length (heap t) \<Longrightarrow> trace_mini (heap s ! k) = trace_mini (heap t ! k)"
    and "k < length (heap t) \<Longrightarrow> next_ent (heap s ! k) = next_ent (heap t ! k)"
    and "k < length (heap t) \<Longrightarrow> next_100 (heap s ! k) = next_100 (heap t ! k)"
    and "k < length (heap t) \<Longrightarrow> tc_ref (heap s ! k) = tc_ref (heap t ! k)"
    and "k < length (heap t) \<Longrightarrow> fname (heap s ! k) = fname (heap t ! k)"
proof -
  show l: "length (heap s) = length (heap t)"
    using assms by (auto simp: same_core_def dest: map_eq_imp_length_eq)
  show "top_rated s = top_rated t" "queue s = queue t" using assms by (simp_all add: same_core_def)
  assume k: "k < length (heap t)"
  have e: "erase (heap s ! k) = erase (heap t ! k)"
  proof -
    have "map erase (heap s) ! k = map erase (heap t) ! k" using assms by (simp add: same_core_def)
    then show ?thesis using k l by simp
  qed
  show "trace_mini (heap s ! k) = trace_mini (heap t ! k)" "next_ent (heap s ! k) = next_ent (heap t ! k)"
    "next_100 (heap s ! k) = next_100 (heap t ! k)" "tc_ref (heap s ! k) = tc_ref (heap t ! k)"
    "fname (heap s ! k) = fname (heap t ! k)"
    using arg_cong[OF e, of trace_mini] arg_cong[OF e, of next_ent] arg_cong[OF e, of next_100]
      arg_cong[OF e, of tc_ref] arg_cong[OF e, of fname] by (simp_all add: erase_def)
qed

lemma same_core_refl [simp]: "same_core s s"
  by (simp add: same_core_def)

lemma same_core_trans: "same_core s t \<Longrightarrow> same_core t u \<Longrightarrow> same_core s u"
  by (simp add: same_core_def)

lemma same_core_upd:
  assumes "\<And>e. erase (f e) = erase e"
  shows "same_core (upd_entry p f s) s"
proof -
  have "map erase ((heap s)[p := f (heap s ! p)]) = map erase (heap s)"
    by (cases "p < length (heap s)") (auto simp: map_update assms list_update_beyond list_update_same_conv)
  then show ?thesis by (simp add: same_core_def upd_entry_def)
qed

lemma linked_same_core:
  assumes "same_core s t"
  shows "linked s = linked t"
proof -
  have "queue_top s = queue_top t" "q_prev100 s = q_prev100 t" "queued_paths s = queued_paths t"
    using assms by (simp_all add: same_core_def)
  then show ?thesis unfolding linked_def Let_def by (simp add: same_coreD[OF assms])
qed

lemma tc_wf_same_core:
  assumes "same_core s t"
  shows "tc_wf s = tc_wf t"
  unfolding tc_wf_def entry_ok_def list_all_iff 
  by (simp add: same_coreD[OF assms] cong: option.case_cong)


section \<open>Marks\<close>

text \<open>
  The files under \<^verbatim>\<open>redundant_edges\<close> agree with the flags of the entries, whose file
  names are pairwise different.
\<close>

definition marks_ok :: "qstate \<Rightarrow> bool" where
  "marks_ok st \<longleftrightarrow>
     list_all (\<lambda>e. case base_name (fname e) of None \<Rightarrow> False
                   | Some fn \<Rightarrow> (fn \<in> redundant_edges st) = fs_redundant e) (heap st) \<and>
     distinct (map (\<lambda>e. base_name (fname e)) (heap st))"

lemma marks_okD:
  assumes "marks_ok st" "k < length (heap st)"
  obtains fn where "base_name (fname (heap st ! k)) = Some fn" "fn \<in> redundant_edges st \<longleftrightarrow> fs_redundant (heap st ! k)"
  using assms by (auto simp: marks_ok_def list_all_length split: option.splits)

lemma mark_as_redundant_ok:
  assumes m: "marks_ok st" and k: "k < length (heap st)"
  shows "\<exists>st'. mark_as_redundant k b st = Inr st' \<and> marks_ok st' \<and> same_core st' st \<and>
    (\<forall>j < length (heap st). favored (heap st' ! j) = favored (heap st ! j) \<and>
       fs_redundant (heap st' ! j) = (if j = k then b else fs_redundant (heap st ! j)))"
proof (cases "b = fs_redundant (heap st ! k)")
  case True
  then show ?thesis using m by (auto simp: mark_as_redundant_def)
next
  case False
  obtain fn where fn: "base_name (fname (heap st ! k)) = Some fn" "fn \<in> redundant_edges st \<longleftrightarrow> fs_redundant (heap st ! k)"
    using m k by (rule marks_okD)
  let ?st = "(upd_entry k (\<lambda>e. e\<lparr>fs_redundant := b\<rparr>) st)
      \<lparr>redundant_edges := (if b then insert fn (redundant_edges st) else redundant_edges st - {fn})\<rparr>"
  have r: "mark_as_redundant k b st = Inr ?st"
    using False fn k by (auto simp: mark_as_redundant_def upd_entry_def)
  have same: "same_core (upd_entry k (\<lambda>e. e\<lparr>fs_redundant := b\<rparr>) st) st"
    by (rule same_core_upd) (simp add: erase_def)
  have nm: "map (\<lambda>e. base_name (fname e)) (heap ?st) = map (\<lambda>e. base_name (fname e)) (heap st)"
    using k by (auto simp: upd_entry_def map_update list_update_same_conv)
  have d: "distinct (map (\<lambda>e. base_name (fname e)) (heap st))" using m by (simp add: marks_ok_def)
  have other: "base_name (fname (heap st ! j)) \<noteq> Some fn" if "j < length (heap st)" "j \<noteq> k" for j
    using nth_eq_iff_index_eq[OF d, of j k] that k fn(1) by auto
  have ok: "case base_name (fname (heap ?st ! j)) of None \<Rightarrow> False
      | Some f \<Rightarrow> (f \<in> redundant_edges ?st) = fs_redundant (heap ?st ! j)" if j: "j < length (heap st)" for j
  proof (cases "j = k")
    case True
    then show ?thesis using fn k by (auto simp: upd_entry_def)
  next
    case False
    obtain f where "base_name (fname (heap st ! j)) = Some f" "f \<in> redundant_edges st \<longleftrightarrow> fs_redundant (heap st ! j)"
      using m j by (rule marks_okD)
    with False other[OF j False] show ?thesis by (auto simp: upd_entry_def)
  qed
  have len: "length (heap ?st) = length (heap st)" by (simp add: upd_entry_def)
  have "marks_ok ?st" unfolding marks_ok_def list_all_length nm len using ok d by blast
  then show ?thesis using r same k by (auto simp: upd_entry_def same_core_def nth_list_update)
qed


lemma marks_ok_same:
  assumes c: "same_core s t" and r: "redundant_edges s = redundant_edges t"
    and f: "\<forall>k < length (heap t). fs_redundant (heap s ! k) = fs_redundant (heap t ! k)"
    and m: "marks_ok t"
  shows "marks_ok s"
proof -
  have "map (\<lambda>e. base_name (fname e)) (heap s) = map (\<lambda>e. base_name (fname e)) (heap t)"
    by (rule nth_equalityI) (simp_all add: same_coreD[OF c])
  with m f show ?thesis
    unfolding marks_ok_def list_all_length by (simp add: same_coreD[OF c] r cong: option.case_cong)
qed

section \<open>Selecting the favored entries\<close>

lemma linked_next:
  assumes "linked st" "same_core s st" "k < length (heap st)"
  shows "next_ent (heap s ! k) = (if Suc k < length (heap st) then Some (Suc k) else None)"
  using assms(1,3) unfolding same_coreD(5)[OF assms(2,3)] linked_def Let_def by blast

lemma clear_phase:
  assumes l: "linked st"
  shows "\<exists>s. walk_queue (length (heap st)) (\<lambda>q st. Inr (upd_entry q (\<lambda>e. e\<lparr>favored := False\<rparr>) st)) (queue st) st = Inr s
    \<and> same_core s st \<and> redundant_edges s = redundant_edges st
    \<and> (\<forall>k < length (heap st). \<not> favored (heap s ! k) \<and> fs_redundant (heap s ! k) = fs_redundant (heap st ! k))"
proof -
  let ?n = "length (heap st)" and ?f = "\<lambda>q st. Inr (upd_entry q (\<lambda>e. e\<lparr>favored := False\<rparr>) st)"
  let ?P = "\<lambda>i s. same_core s st \<and> redundant_edges s = redundant_edges st \<and>
      (\<forall>k < ?n. (k < i \<longrightarrow> \<not> favored (heap s ! k)) \<and> fs_redundant (heap s ! k) = fs_redundant (heap st ! k))"
  have q: "queue st = (if ?n = 0 then None else Some 0)" using l by (simp add: linked_def Let_def)
  have "\<exists>s. walk_queue ?n ?f (if ?n = 0 then None else Some 0) st = Inr s \<and> ?P ?n s"
  proof (rule walk_queue_rule[where P = ?P])
    fix i s
    assume i: "i < ?n" and P: "?P i s"
    have "same_core (upd_entry i (\<lambda>e. e\<lparr>favored := False\<rparr>) s) s"
      by (rule same_core_upd) (simp add: erase_def)
    moreover have "redundant_edges (upd_entry i (\<lambda>e. e\<lparr>favored := False\<rparr>) s) = redundant_edges s"
      by (simp add: upd_entry_def)
    ultimately show "\<exists>s'. ?f i s = Inr s' \<and> ?P (Suc i) s'"
      using P i same_coreD(1)[of s st] by (auto simp: heap_upd_entry less_Suc_eq intro: same_core_trans)
  next
    fix i k s
    assume "?P i s" "k < ?n"
    then show "next_ent (heap s ! k) = (if Suc k < ?n then Some (Suc k) else None)"
      using l by (intro linked_next) simp_all
  qed simp
  then show ?thesis unfolding q by auto
qed

lemma mini_bit_clear_mini:
  assumes "length tv = length m" "i < 8 * length m"
  shows "mini_bit (clear_mini tv m) i \<longleftrightarrow> mini_bit tv i \<and> \<not> mini_bit m i"
proof -
  have "i div 8 < length m" using assms(2) by (simp add: less_mult_imp_div_less mult.commute)
  with assms(1) show ?thesis by (auto simp: mini_bit_iff clear_mini_def bit_simps)
qed

text \<open>What holds after the first \<open>i\<close> tuples.\<close>

definition cull_inv :: "qstate \<Rightarrow> nat \<Rightarrow> qstate \<times> buf \<Rightarrow> bool" where
  "cull_inv st i = (\<lambda>(s, tv). let n = length (top_rated st); l = length (heap st) in
     same_core s st \<and> redundant_edges s = redundant_edges st \<and>
     (\<forall>k < l. fs_redundant (heap s ! k) = fs_redundant (heap st ! k)) \<and> length tv = n div 8 \<and>
     (\<forall>j < n. \<not> mini_bit tv j \<longrightarrow> (\<exists>f < l. favored (heap s ! f) \<and> mini_bit (the (trace_mini (heap st ! f))) j)) \<and>
     (\<forall>j < i. \<forall>p. top_rated st ! j = Some p \<longrightarrow>
        (\<exists>f < l. favored (heap s ! f) \<and> (f = p \<or> mini_bit (the (trace_mini (heap st ! f))) j))) \<and>
     (\<forall>f < l. favored (heap s ! f) \<longrightarrow> Some f \<in> set (top_rated st)))"

lemma cull_slot_step:
  assumes wf: "tc_wf st" and i: "i < length (top_rated st)" "8 dvd length (top_rated st)"
    and inv: "cull_inv st i (s, tv)"
  shows "\<exists>x. cull_slot i (s, tv) = Inr x \<and> cull_inv st (Suc i) x"
proof (cases "top_rated st ! i")
  case None
  then show ?thesis
    using inv by (auto simp: cull_slot_def cull_inv_def Let_def same_coreD(2) less_Suc_eq)
next
  case (Some p)
  have c: "same_core s st" using inv by (simp add: cull_inv_def Let_def)
  have p: "p < length (heap st)" using tc_wfD(2)[OF wf i(1) Some] .
  show ?thesis
  proof (cases "mini_bit tv i")
    case False
    with inv i(1) Some show ?thesis
      unfolding cull_inv_def Let_def cull_slot_def
      by (simp add: same_coreD(2)[OF c] less_Suc_eq) blast
  next
    case True
    obtain m where m: "trace_mini (heap st ! p) = Some m" "length m = length (top_rated st) div 8"
      using tc_wfD(1)[OF wf p] count_list_pos[OF i(1) Some]
      by (auto simp: entry_ok_def split: option.splits)
    let ?u = "upd_entry p (\<lambda>e. e\<lparr>favored := True\<rparr>) s"
    obtain s' where r: "cull_slot i (s, tv) = Inr (s', clear_mini tv m)"
      and h: "heap s' = heap ?u" "top_rated s' = top_rated s" "redundant_edges s' = redundant_edges s"
        "queue s' = queue s" "queue_top s' = queue_top s" "q_prev100 s' = q_prev100 s" "queued_paths s' = queued_paths s"
      using Some True m(1) same_coreD(4)[OF c p] same_coreD(2)[OF c]
      by (auto simp: cull_slot_def Let_def upd_entry_def)
    have "same_core ?u s" by (rule same_core_upd) (simp add: erase_def)
    then have c': "same_core s' st" using c h by (simp add: same_core_def upd_entry_def)
    have fav: "favored (heap s' ! f) \<longleftrightarrow> f = p \<or> favored (heap s ! f)"
      and fs: "fs_redundant (heap s' ! f) = fs_redundant (heap s ! f)" if "f < length (heap st)" for f
      using that p same_coreD(1)[OF c] by (auto simp: h heap_upd_entry)
    have mb: "mini_bit (clear_mini tv m) j \<longleftrightarrow> mini_bit tv j \<and> \<not> mini_bit m j" if "j < length (top_rated st)" for j
      using inv that m(2) i(2) by (intro mini_bit_clear_mini) (simp_all add: cull_inv_def Let_def)
    have "cull_inv st (Suc i) (s', clear_mini tv m)"
      using inv c' fav fs mb m p Some i(1) h(3)
      unfolding cull_inv_def Let_def prod.case less_Suc_eq
      by (intro conjI) (auto simp: clear_mini_def dest: nth_mem, (metis option.sel)+)
    then show ?thesis using r by blast
  qed
qed


lemma mark_phase:
  assumes l: "linked st" and m: "marks_ok st"
  shows "\<exists>s. walk_queue (length (heap st)) (\<lambda>q st. mark_as_redundant q (\<not> favored (heap st ! q)) st) (queue st) st = Inr s
    \<and> same_core s st \<and> marks_ok s
    \<and> (\<forall>k < length (heap st). favored (heap s ! k) = favored (heap st ! k) \<and> fs_redundant (heap s ! k) = (\<not> favored (heap st ! k)))"
proof -
  let ?n = "length (heap st)" and ?f = "\<lambda>q st. mark_as_redundant q (\<not> favored (heap st ! q)) st"
  let ?P = "\<lambda>i s. same_core s st \<and> marks_ok s \<and> (\<forall>k < ?n. favored (heap s ! k) = favored (heap st ! k) \<and>
      (k < i \<longrightarrow> fs_redundant (heap s ! k) = (\<not> favored (heap st ! k))))"
  have q: "queue st = (if ?n = 0 then None else Some 0)" using l by (simp add: linked_def Let_def)
  have "\<exists>s. walk_queue ?n ?f (if ?n = 0 then None else Some 0) st = Inr s \<and> ?P ?n s"
  proof (rule walk_queue_rule[where P = ?P])
    fix i s
    assume i: "i < ?n" and P: "?P i s"
    then have n: "length (heap s) = ?n" by (simp add: same_coreD(1))
    obtain s' where "?f i s = Inr s'" "marks_ok s'" "same_core s' s"
      "\<forall>j < ?n. favored (heap s' ! j) = favored (heap s ! j) \<and>
         fs_redundant (heap s' ! j) = (if j = i then \<not> favored (heap s ! i) else fs_redundant (heap s ! j))"
      using mark_as_redundant_ok[of s i "\<not> favored (heap s ! i)"] P i n by auto
    with P i show "\<exists>s'. ?f i s = Inr s' \<and> ?P (Suc i) s'"
      by (auto simp: less_Suc_eq intro: same_core_trans)
  next
    fix i k s
    assume "?P i s" "k < ?n"
    then show "next_ent (heap s ! k) = (if Suc k < ?n then Some (Suc k) else None)"
      using l by (intro linked_next) simp_all
  qed (use m in simp)
  then show ?thesis unfolding q by auto
qed

lemma cull_loop:
  assumes "tc_wf st" "8 dvd length (top_rated st)" "\<forall>k < length (heap st). \<not> favored (heap st ! k)"
  shows "\<exists>x. fold_err cull_slot [0..<length (top_rated st)] (st, replicate (length (top_rated st) div 8) 0xff) = Inr x
    \<and> cull_inv st (length (top_rated st)) x"
proof (rule fold_err_upt)
  have "mini_bit (replicate (length (top_rated st) div 8) 0xff) j" if "j < length (top_rated st)" for j
  proof -
    have "j div 8 < length (top_rated st) div 8" using that assms(2) by (metis div_less_mono zero_less_numeral dvd_div_mult_self less_mult_imp_div_less)
    moreover have "bit (0xff :: u8) (j mod 8)"
    proof -
      have e: "(0xff :: u8) = - 1" by simp
      show ?thesis unfolding e by simp
    qed
    ultimately show ?thesis by (simp add: mini_bit_iff)
  qed
  then show "cull_inv st 0 (st, replicate (length (top_rated st) div 8) 0xff)"
    using assms(3) by (simp add: cull_inv_def Let_def)
qed (use assms cull_slot_step in \<open>auto split: prod.splits\<close>)


text \<open>
  C12: whenever the scores have changed, \<^verbatim>\<open>cull_queue\<close> selects a covering set. On a well-formed
  queue it never follows a null pointer and never fails on a mark file; afterwards every
  tuple that has a winner is hit by the trace of some favored entry or has its own winner
  favored, only winners are favored, the redundancy flag of every entry is the negation of its
  favored flag and agrees with the file on disk, and the list and the reference counts
  are as before.
\<close>

theorem cull_queue_covers:
  assumes "linked st" "tc_wf st" "marks_ok st" "8 dvd length (top_rated st)"
    and "\<not> dumb_mode st" "score_changed st"
  shows "\<exists>st'. cull_queue st = Inr st' \<and> linked st' \<and> tc_wf st' \<and> marks_ok st' \<and>
    (\<forall>i < length (top_rated st). \<forall>p. top_rated st ! i = Some p \<longrightarrow>
       (\<exists>f < length (heap st). favored (heap st' ! f) \<and> (f = p \<or> mini_bit (the (trace_mini (heap st' ! f))) i))) \<and>
    (\<forall>f < length (heap st). (favored (heap st' ! f) \<longrightarrow> Some f \<in> set (top_rated st)) \<and>
       fs_redundant (heap st' ! f) = (\<not> favored (heap st' ! f)))"
proof -
  let ?n = "length (top_rated st)" and ?l = "length (heap st)"
  let ?st0 = "st\<lparr>score_changed := False, queued_favored := 0, pending_favored := 0\<rparr>"
  have c0: "same_core ?st0 st" by (simp add: same_core_def)
  have "linked ?st0" using assms(1) linked_same_core[OF c0] by simp
  from clear_phase[OF this] obtain s1 where
    w1: "walk_queue ?l (\<lambda>q st. Inr (upd_entry q (\<lambda>e. e\<lparr>favored := False\<rparr>) st)) (queue st) ?st0 = Inr s1"
    and s1: "same_core s1 ?st0" "redundant_edges s1 = redundant_edges st"
      "\<forall>k < ?l. \<not> favored (heap s1 ! k) \<and> fs_redundant (heap s1 ! k) = fs_redundant (heap st ! k)" by auto
  have c1: "same_core s1 st" using s1(1) c0 by (rule same_core_trans)
  note n1 = same_coreD(1,2)[OF c1]
  have wf1: "tc_wf s1" "marks_ok s1"
    using assms(2,3) tc_wf_same_core[OF c1] marks_ok_same[OF c1 s1(2)] s1(3) by auto
  obtain s2 tv where
    w2: "fold_err cull_slot [0..<?n] (s1, replicate (?n div 8) 0xff) = Inr (s2, tv)" and i2: "cull_inv s1 ?n (s2, tv)"
    using cull_loop[OF wf1(1)] assms(4) s1(3) n1 by auto
  then have c2: "same_core s2 s1" "redundant_edges s2 = redundant_edges s1"
    "\<forall>k < ?l. fs_redundant (heap s2 ! k) = fs_redundant (heap s1 ! k)"
    by (simp_all add: cull_inv_def Let_def n1)
  have c2': "same_core s2 st" using c2(1) c1 by (rule same_core_trans)
  have "linked s2" "marks_ok s2"
    using assms(1) linked_same_core[OF c2'] marks_ok_same[OF c2(1,2)] c2(3) wf1(2) n1 by auto
  from mark_phase[OF this] obtain s3 where
    w3: "walk_queue ?l (\<lambda>q st. mark_as_redundant q (\<not> favored (heap st ! q)) st) (queue s2) s2 = Inr s3"
    and s3: "same_core s3 s2" "marks_ok s3"
      "\<forall>k < ?l. favored (heap s3 ! k) = favored (heap s2 ! k) \<and> fs_redundant (heap s3 ! k) = (\<not> favored (heap s2 ! k))"
    by (auto simp: same_coreD(1)[OF c2'])
  have c3: "same_core s3 st" using s3(1) c2' by (rule same_core_trans)
  have "cull_queue st = Inr s3"
    using assms(5,6) w1 w2 w3 by (simp add: cull_queue_def Let_def)
  moreover have "linked s3" "tc_wf s3"
    using assms(1,2) linked_same_core[OF c3] tc_wf_same_core[OF c3] by auto
  moreover have tm: "trace_mini (heap s3 ! f) = trace_mini (heap s1 ! f)" if "f < ?l" for f
    using that same_coreD(4)[OF c3, of f] same_coreD(4)[OF c1, of f] by simp
  moreover have "\<exists>f < ?l. favored (heap s3 ! f) \<and> (f = p \<or> mini_bit (the (trace_mini (heap s3 ! f))) i)"
    if ip: "i < ?n" "top_rated st ! i = Some p" for i p
  proof -
    have "\<forall>j < ?n. \<forall>p. top_rated st ! j = Some p \<longrightarrow>
        (\<exists>f < ?l. favored (heap s2 ! f) \<and> (f = p \<or> mini_bit (the (trace_mini (heap s1 ! f))) j))"
      using i2 by (simp add: cull_inv_def Let_def n1)
    with ip obtain f where "f < ?l" "favored (heap s2 ! f)" "f = p \<or> mini_bit (the (trace_mini (heap s1 ! f))) i"
      by meson
    then show ?thesis using s3(3) tm[of f] by (intro exI[of _ f]) simp
  qed
  ultimately show ?thesis
    using i2 s3(2,3) n1 by (intro exI[of _ s3]) (simp add: cull_inv_def Let_def)
qed

theorem cull_queue_witness:
  "\<exists>st'. cull_queue ((add_all [(''q/a'', 3, False, 0, 0), (''q/b'', 2, False, 0, 0)] (empty_queue 8))\<lparr>score_changed := True\<rparr>) = Inr st'
     \<and> linked st' \<and> tc_wf st' \<and> marks_ok st'"
proof -
  let ?st = "add_all [(''q/a'', 3, False, 0, 0), (''q/b'', 2, False, 0, 0)] (empty_queue 8)"
  have e: "linked (empty_queue 8)" by (simp add: linked_def empty_queue_def)
  have c: "same_core (?st\<lparr>score_changed := True\<rparr>) ?st" by (simp add: same_core_def)
  have "linked (?st\<lparr>score_changed := True\<rparr>)" "tc_wf (?st\<lparr>score_changed := True\<rparr>)"
    using tc_wf_add_all[OF e tc_wf_empty] add_all_linked[OF e] linked_same_core[OF c] tc_wf_same_core[OF c] by blast+
  moreover have "marks_ok (?st\<lparr>score_changed := True\<rparr>)" "length (top_rated (?st\<lparr>score_changed := True\<rparr>)) = 8"
    "\<not> dumb_mode (?st\<lparr>score_changed := True\<rparr>)"
    by (simp_all add: add_all_def add_to_queue_def empty_queue_def Let_def link_100_def upd_entry_def
        blank_entry_def marks_ok_def base_name_def)
  ultimately show ?thesis using cull_queue_covers[of "?st\<lparr>score_changed := True\<rparr>"] by auto
qed

end
