(* ===== verification/Score.thy ===== *)
theory Score
  imports Queue Rng
begin

unbundle bit_operations_syntax

text \<open>
  Helpers of \<^verbatim>\<open>fuzz_one\<close>: the desirability score of a queue entry, rounding up to a power
  of two, and the location of the first and last difference of two buffers. The score
  compares products with binary64 constants; they are modelled exactly, as rounding of a
  natural number to 53 significant bits (a scaling by a power of two is exact).
\<close>

section \<open>Products in binary64\<close>

fun bit_len :: "nat \<Rightarrow> nat" where
  "bit_len n = (if n = 0 then 0 else Suc (bit_len (n div 2)))"

declare bit_len.simps [simp del]

text \<open>Round to nearest, ties to even, at 53 significant bits.\<close>

definition fl :: "nat \<Rightarrow> nat" where
  "fl n = (if bit_len n \<le> 53 then n else
     let u = 2 ^ (bit_len n - 53); q = n div u; r = n mod u in
     (if 2 * r > u \<or> (2 * r = u \<and> odd q) then q + 1 else q) * u)"

text \<open>\<open>0.1\<close> is \<open>3602879701896397 / 2 ^ 55\<close> and \<open>0.3\<close> is \<open>5404319552844595 / 2 ^ 54\<close> in binary64.\<close>

definition tenth_exceeds :: "nat \<Rightarrow> nat \<Rightarrow> bool" where
  "tenth_exceeds x a \<longleftrightarrow> fl (fl x * 3602879701896397) > a * 2 ^ 55"

definition three_tenths_exceeds :: "nat \<Rightarrow> nat \<Rightarrow> bool" where
  "three_tenths_exceeds x a \<longleftrightarrow> fl (fl x * 5404319552844595) > a * 2 ^ 54"

definition quarters_exceed :: "nat \<Rightarrow> nat \<Rightarrow> nat \<Rightarrow> bool" where
  "quarters_exceed k x a \<longleftrightarrow> fl (fl x * k) > a * 4"

section \<open>The score\<close>

record cal_stats =
  total_cal_us :: nat
  total_cal_cycles :: nat
  total_bitmap_size :: nat
  total_bitmap_entries :: nat

definition speed_score :: "nat \<Rightarrow> nat \<Rightarrow> nat" where
  "speed_score us avg =
     (if tenth_exceeds us avg then 10
      else if quarters_exceed 1 us avg then 25
      else if quarters_exceed 2 us avg then 50
      else if quarters_exceed 3 us avg then 75
      else if us * 4 mod 2 ^ 64 < avg then 300
      else if us * 3 mod 2 ^ 64 < avg then 200
      else if us * 2 mod 2 ^ 64 < avg then 150
      else 100)"

definition coverage_score :: "nat \<Rightarrow> nat \<Rightarrow> nat \<Rightarrow> nat" where
  "coverage_score bsize avg perf =
     (if three_tenths_exceeds bsize avg then perf * 3
      else if quarters_exceed 2 bsize avg then perf * 2
      else if quarters_exceed 3 bsize avg then perf * 3 div 2
      else if bsize * 3 mod 2 ^ 32 < avg then perf div 4
      else if bsize * 2 mod 2 ^ 32 < avg then perf div 2
      else if bsize * 3 < avg * 2 then perf * 3 div 4
      else perf)"

definition handicap_score :: "queue_entry \<Rightarrow> nat \<Rightarrow> nat \<times> queue_entry" where
  "handicap_score q perf =
     (if handicap q \<ge> 4 then (perf * 4, q\<lparr>handicap := handicap q - 4\<rparr>)
      else if handicap q \<noteq> 0 then (perf * 2, q\<lparr>handicap := handicap q - 1\<rparr>)
      else (perf, q))"

definition depth_score :: "nat \<Rightarrow> nat \<Rightarrow> nat" where
  "depth_score d perf =
     (if d \<le> 3 then perf else if d \<le> 7 then perf * 2 else if d \<le> 13 then perf * 3
      else if d \<le> 25 then perf * 4 else perf * 5)"

definition calculate_score :: "cal_stats \<Rightarrow> queue_entry \<Rightarrow> err + nat \<times> queue_entry" where
  "calculate_score c q =
     (if total_cal_cycles c = 0 \<or> total_bitmap_entries c = 0 then Inl DivByZero else
      let avg_exec_us = total_cal_us c div total_cal_cycles c mod 2 ^ 32;
          avg_bitmap_size = total_bitmap_size c div total_bitmap_entries c mod 2 ^ 32;
          perf_score = coverage_score (bitmap_size q) avg_bitmap_size (speed_score (exec_us q) avg_exec_us);
          (perf_score, q) = handicap_score q perf_score;
          perf_score = depth_score (depth q) perf_score
      in Inr (if perf_score > HAVOC_MAX_MULT * 100 then HAVOC_MAX_MULT * 100 else perf_score, q))"

section \<open>Powers of two\<close>

text \<open>\<^verbatim>\<open>ret <<= 1\<close> drops the top bit, so the loop does not end above \<open>2 ^ 31\<close>.\<close>

partial_function (option) next_p2_loop :: "u32 \<Rightarrow> u32 \<Rightarrow> u32 option" where
  "next_p2_loop val ret = (if ret < val then next_p2_loop val (push_bit 1 ret) else Some ret)"

definition next_p2 :: "u32 \<Rightarrow> u32 option" where
  "next_p2 val = next_p2_loop val 1"

section \<open>First and last difference\<close>

text \<open>The positions are 32-bit integers in the code; inputs have at most 1 MB, so they are kept as integers.\<close>

fun locate_loop :: "nat \<Rightarrow> buf \<Rightarrow> buf \<Rightarrow> int \<Rightarrow> int \<Rightarrow> int \<times> int" where
  "locate_loop pos (a # ptr1) (b # ptr2) f_loc l_loc =
     (if a \<noteq> b then locate_loop (Suc pos) ptr1 ptr2 (if f_loc = - 1 then int pos else f_loc) (int pos)
      else locate_loop (Suc pos) ptr1 ptr2 f_loc l_loc)"
| "locate_loop pos ptr1 ptr2 f_loc l_loc = (f_loc, l_loc)"

definition locate_diffs :: "buf \<Rightarrow> buf \<Rightarrow> nat \<Rightarrow> int \<times> int" where
  "locate_diffs ptr1 ptr2 len = locate_loop 0 (take len ptr1) (take len ptr2) (- 1) (- 1)"

section \<open>Bounds of the score\<close>

lemma speed_score_range: "speed_score us avg \<in> {10, 25, 50, 75, 100, 150, 200, 300}"
  by (simp add: speed_score_def)

lemma coverage_score_ge: "2 \<le> coverage_score bsize avg (speed_score us a)"
proof -
  let ?p = "speed_score us a"
  have "10 \<le> ?p" using speed_score_range[of us a] by auto
  then have "2 \<le> ?p div 4" "2 \<le> ?p div 2" "2 \<le> ?p * 3 div 4" "2 \<le> ?p * 3 div 2" "2 \<le> ?p"
    using div_le_mono[of 10 ?p 4] div_le_mono[of 10 ?p 2] div_le_mono[of 30 "?p * 3" 4] div_le_mono[of 30 "?p * 3" 2]
    by simp_all
  then show ?thesis unfolding coverage_score_def by simp
qed

lemma handicap_score_ge: "handicap_score q perf = (p, q') \<Longrightarrow> perf \<le> p"
  by (auto simp: handicap_score_def split: if_splits)

lemma depth_score_ge: "perf \<le> depth_score d perf"
  by (simp add: depth_score_def)

lemma handicap_score_entry:
  "handicap_score q perf = (p, q') \<Longrightarrow>
   q' = q\<lparr>handicap := handicap q - (if 4 \<le> handicap q then 4 else if handicap q = 0 then 0 else 1)\<rparr>"
  by (auto simp: handicap_score_def split: if_splits)

text \<open>
  C23: \<^verbatim>\<open>calculate_score\<close> is undefined (it divides by zero) exactly if no calibration has been
  recorded yet; otherwise the score lies between 2 and 1600, whatever the averages are, and the only
  change to the entry is that its handicap goes down by 4, or by 1 if it was below 4.
\<close>

theorem calculate_score_bounds:
  "(calculate_score c q = Inl DivByZero \<longleftrightarrow> total_cal_cycles c = 0 \<or> total_bitmap_entries c = 0) \<and>
   (total_cal_cycles c \<noteq> 0 \<and> total_bitmap_entries c \<noteq> 0 \<longrightarrow>
     (\<exists>p. calculate_score c q =
        Inr (p, q\<lparr>handicap := handicap q - (if 4 \<le> handicap q then 4 else if handicap q = 0 then 0 else 1)\<rparr>)
      \<and> 2 \<le> p \<and> p \<le> 1600))"
proof -
  let ?p1 = "coverage_score (bitmap_size q) (total_bitmap_size c div total_bitmap_entries c mod 2 ^ 32)
      (speed_score (exec_us q) (total_cal_us c div total_cal_cycles c mod 2 ^ 32))"
  obtain p2 q' where h: "handicap_score q ?p1 = (p2, q')" by fastforce
  have "2 \<le> depth_score (depth q') p2"
    using coverage_score_ge handicap_score_ge[OF h] depth_score_ge by (meson order_trans)
  then show ?thesis
    using h handicap_score_entry[OF h] by (auto simp: calculate_score_def Let_def)
qed

theorem calculate_score_witness:
  "\<exists>p. calculate_score \<lparr>total_cal_us = 900, total_cal_cycles = 3, total_bitmap_size = 40, total_bitmap_entries = 4\<rparr>
       (blank_entry\<lparr>exec_us := 100, bitmap_size := 12, handicap := 6, depth := 5\<rparr>)
     = Inr (p, blank_entry\<lparr>exec_us := 100, bitmap_size := 12, handicap := 2, depth := 5\<rparr>) \<and> 2 \<le> p \<and> p \<le> 1600"
  using calculate_score_bounds[of "\<lparr>total_cal_us = 900, total_cal_cycles = 3, total_bitmap_size = 40, total_bitmap_entries = 4\<rparr>"
      "blank_entry\<lparr>exec_us := 100, bitmap_size := 12, handicap := 6, depth := 5\<rparr>"]
  by (simp add: blank_entry_def)

section \<open>Rounding up to a power of two\<close>

lemma two_power_le: "k \<le> 31 \<Longrightarrow> (2 :: u32) ^ k \<le> 2 ^ 31" and two_power_unat: "k \<le> 31 \<Longrightarrow> unat ((2 :: u32) ^ k) = 2 ^ k"
proof -
  show u: "unat ((2 :: u32) ^ k) = 2 ^ k" if "k \<le> 31" for k
  proof -
    have e: "(2 :: u32) ^ k = word_of_nat (2 ^ k)" by simp
    have "(2 :: nat) ^ k < 2 ^ 32" using that by (intro power_strict_increasing) simp_all
    then show ?thesis unfolding e using that by (simp add: unsigned_of_nat take_bit_nat_eq_self del: of_nat_power)
  qed
  show "k \<le> 31 \<Longrightarrow> (2 :: u32) ^ k \<le> 2 ^ 31"
  proof -
    assume k: "k \<le> 31"
    have "unat ((2 :: u32) ^ k) \<le> unat ((2 :: u32) ^ 31)"
      unfolding u[OF k] u[OF order_refl] using k by (rule power_increasing) simp
    then show ?thesis by (simp only: word_le_nat_alt)
  qed
qed

lemma next_p2_stop: "\<not> ret < val \<Longrightarrow> next_p2_loop val ret = Some ret"
  by (subst next_p2_loop.simps) simp

lemma next_p2_go: "ret < val \<Longrightarrow> next_p2_loop val ret = next_p2_loop val (push_bit 1 ret)"
  by (subst next_p2_loop.simps) simp

lemma next_p2_loop_power:
  assumes "val \<le> 2 ^ 31" "k \<le> 31" "k = 0 \<or> 2 ^ (k - 1) < val"
  shows "\<exists>j \<le> 31. next_p2_loop val (2 ^ k) = Some (2 ^ j) \<and> val \<le> 2 ^ j \<and> (j = 0 \<or> 2 ^ (j - 1) < val)"
  using assms(2,3)
proof (induction "31 - k" arbitrary: k)
  case 0
  then have "k = 31" by simp
  moreover have "next_p2_loop val (2 ^ 31) = Some (2 ^ 31)" using assms(1) by (intro next_p2_stop) simp
  ultimately show ?case using 0 assms(1) by (intro exI[of _ 31]) simp
next
  case (Suc m)
  show ?case
  proof (cases "2 ^ k < val")
    case True
    have "push_bit 1 ((2 :: u32) ^ k) = 2 ^ Suc k" by (simp add: push_bit_eq_mult)
    then have "next_p2_loop val (2 ^ k) = next_p2_loop val (2 ^ Suc k)"
      using next_p2_go[OF True] by (simp add: mult.commute)
    moreover have "m = 31 - Suc k" "Suc k \<le> 31" using Suc.hyps(2) by simp_all
    ultimately show ?thesis using Suc.hyps(1)[of "Suc k"] True by simp
  next
    case False
    then show ?thesis using Suc.prems next_p2_stop[OF False] by (intro exI[of _ k]) simp
  qed
qed

lemma next_p2_loop_diverges:
  assumes "next_p2_loop val ret = Some r" "ret = 0 \<or> (\<exists>k \<le> 31. ret = 2 ^ k)" "2 ^ 31 < val"
  shows False
proof -
  have "ret = 0 \<or> (\<exists>k \<le> 31. ret = 2 ^ k) \<longrightarrow> \<not> 2 ^ 31 < val"
  proof (rule next_p2_loop.raw_induct[where P = "\<lambda>val ret r. ret = 0 \<or> (\<exists>k \<le> 31. ret = 2 ^ k) \<longrightarrow> \<not> 2 ^ 31 < val", OF _ assms(1)])
    fix f :: "u32 \<Rightarrow> u32 \<Rightarrow> u32 option" and val ret r
    assume IH: "\<And>val ret r. f val ret = Some r \<Longrightarrow> ret = 0 \<or> (\<exists>k \<le> 31. ret = 2 ^ k) \<longrightarrow> \<not> 2 ^ 31 < val"
      and eq: "(if ret < val then f val (push_bit 1 ret) else Some ret) = Some r"
    show "ret = 0 \<or> (\<exists>k \<le> 31. ret = 2 ^ k) \<longrightarrow> \<not> 2 ^ 31 < val"
    proof (cases "ret < val")
      case True
      have st: "push_bit 1 ret = 0 \<or> (\<exists>k \<le> 31. push_bit 1 ret = 2 ^ k)" if s: "ret = 0 \<or> (\<exists>k \<le> 31. ret = 2 ^ k)"
      proof (cases "ret = 0 \<or> ret = 2 ^ 31")
        case False
        with s obtain k where k: "k \<le> 31" "ret = 2 ^ k" by blast
        moreover have "k \<noteq> 31" using False k(2) by blast
        ultimately show ?thesis by (intro disjI2 exI[of _ "Suc k"]) (simp add: push_bit_eq_mult)
      qed (auto simp: push_bit_eq_mult)
      have "f val (push_bit 1 ret) = Some r" using eq True by simp
      from IH[OF this] st show ?thesis by blast
    next
      case False
      then show ?thesis using two_power_le by (auto simp: not_less dest: order_trans)
    qed
  qed
  with assms(2,3) show False by blast
qed

text \<open>
  C24: \<^verbatim>\<open>next_p2\<close> returns the least power of two that is not below its argument for every argument
  up to \<open>2 ^ 31\<close> (file sizes are far below), and does not return at all above it.
\<close>

theorem next_p2_correct:
  "(val \<le> 2 ^ 31 \<longrightarrow> (\<exists>j \<le> 31. next_p2 val = Some (2 ^ j) \<and> val \<le> 2 ^ j \<and> (j = 0 \<or> 2 ^ (j - 1) < val)))
   \<and> (2 ^ 31 < val \<longrightarrow> next_p2 val = None)"
proof (intro conjI impI)
  assume "val \<le> 2 ^ 31"
  from next_p2_loop_power[OF this, of 0]
  show "\<exists>j \<le> 31. next_p2 val = Some (2 ^ j) \<and> val \<le> 2 ^ j \<and> (j = 0 \<or> 2 ^ (j - 1) < val)"
    by (simp add: next_p2_def)
next
  assume "2 ^ 31 < val"
  then show "next_p2 val = None"
  proof (cases "next_p2 val")
    case (Some r)
    have a: "(1 :: u32) = 0 \<or> (\<exists>k \<le> 31. (1 :: u32) = 2 ^ k)" by (intro disjI2 exI[of _ 0]) simp
    have "next_p2_loop val 1 = Some r" using Some by (simp add: next_p2_def)
    from next_p2_loop_diverges[OF this a \<open>2 ^ 31 < val\<close>] show ?thesis ..
  qed simp
qed

theorem next_p2_witness:
  "(\<exists>j \<le> 31. next_p2 1000 = Some (2 ^ j) \<and> 1000 \<le> (2 :: u32) ^ j \<and> (j = 0 \<or> (2 :: u32) ^ (j - 1) < 1000))
   \<and> next_p2 0x80000001 = None"
  using next_p2_correct[of 1000] next_p2_correct[of "0x80000001"] by simp

section \<open>Locating differences\<close>

definition diffs :: "buf \<Rightarrow> buf \<Rightarrow> nat set" where
  "diffs xs ys = {i. i < length xs \<and> i < length ys \<and> xs ! i \<noteq> ys ! i}"

lemma diffs_Cons: "diffs (a # xs) (b # ys) = (if a \<noteq> b then {0} else {}) \<union> Suc ` diffs xs ys"
proof (rule set_eqI)
  fix i
  show "i \<in> diffs (a # xs) (b # ys) \<longleftrightarrow> i \<in> (if a \<noteq> b then {0} else {}) \<union> Suc ` diffs xs ys"
    by (cases i) (auto simp: diffs_def)
qed

lemma finite_diffs [simp]: "finite (diffs xs ys)"
  by (simp add: diffs_def)

lemma locate_loop_diffs:
  "locate_loop pos xs ys f l =
     (if diffs xs ys = {} then (f, l)
      else (if f = - 1 then int (pos + Min (diffs xs ys)) else f, int (pos + Max (diffs xs ys))))"
proof (induction pos xs ys f l rule: locate_loop.induct)
  case (1 pos a xs b ys f l)
  have mm: "Min (Suc ` S) = Suc (Min S)" "Max (Suc ` S) = Suc (Max S)" if "finite S" "S \<noteq> {}" for S
    using that mono_Min_commute[of Suc S] mono_Max_commute[of Suc S] by (simp_all add: mono_def)
  show ?case
  proof (cases "diffs xs ys = {}")
    case True
    then show ?thesis using 1 by (simp add: diffs_Cons)
  next
    case False
    then show ?thesis using 1 by (simp add: diffs_Cons mm Min_insert2 Max_insert)
  qed
qed (simp_all add: diffs_def)

text \<open>
  C25: \<^verbatim>\<open>locate_diffs\<close> returns the first and the last offset below \<open>len\<close> at which two buffers of
  at least \<open>len\<close> bytes differ, and \<open>-1\<close> twice if there is none.
\<close>

theorem locate_diffs_correct:
  assumes "len \<le> length a" "len \<le> length b" "locate_diffs a b len = (f, l)"
  shows "(f = - 1 \<and> l = - 1 \<and> take len a = take len b) \<or>
    (\<exists>i j. f = int i \<and> l = int j \<and> i \<le> j \<and> j < len \<and> a ! i \<noteq> b ! i \<and> a ! j \<noteq> b ! j \<and>
       (\<forall>k < len. a ! k \<noteq> b ! k \<longrightarrow> i \<le> k \<and> k \<le> j))"
proof (cases "diffs (take len a) (take len b) = {}")
  case True
  then have "take len a = take len b"
    using assms(1,2) by (intro nth_equalityI) (auto simp: diffs_def)
  with True assms(3) show ?thesis by (simp add: locate_diffs_def locate_loop_diffs)
next
  case False
  define D where "D = diffs (take len a) (take len b)"
  have D: "k \<in> D \<longleftrightarrow> k < len \<and> a ! k \<noteq> b ! k" for k using assms(1,2) by (auto simp: D_def diffs_def)
  have fin: "finite D" "D \<noteq> {}" using False by (simp_all add: D_def)
  have "f = int (Min D)" "l = int (Max D)"
    using assms(3) False by (simp_all add: locate_diffs_def locate_loop_diffs D_def)
  moreover have "Min D \<le> k \<and> k \<le> Max D" if "k < len" "a ! k \<noteq> b ! k" for k
    using fin(1) that D[of k] by simp
  moreover have "Min D \<le> Max D" using fin by simp
  moreover have "Min D \<in> D" "Max D \<in> D" using fin by simp_all
  ultimately show ?thesis unfolding D by blast
qed

theorem locate_diffs_witness:
  "locate_diffs [1, 2, 3, 4, 5] [1, 9, 3, 8, 5] 5 = (1, 3) \<and>
   (\<exists>i j. (1 :: int) = int i \<and> (3 :: int) = int j \<and> i \<le> j)"
proof -
  have e: "locate_diffs [1, 2, 3, 4, 5] [1, 9, 3, 8, 5] 5 = (1, 3)" by (simp add: locate_diffs_def)
  with locate_diffs_correct[OF _ _ e] show ?thesis by force
qed

end
