(* ===== verification/Det.thy ===== *)
theory Det
  imports Config
begin

unbundle bit_operations_syntax

text \<open>
  The deterministic stages of \<^verbatim>\<open>fuzz_one\<close> in the S2E build, from the single walking bit to
  the automatic dictionary. A stage modifies \<^verbatim>\<open>out_buf\<close>, hands it to
  \<^verbatim>\<open>common_fuzz_stuff\<close> and undoes the modification. What \<^verbatim>\<open>common_fuzz_stuff\<close> does to the
  rest of the fuzzer is behind a record of operations on an arbitrary world: running a
  test case (which may ask to abandon the entry), waiting for all QEMU instances, the
  number of finds so far, the global effector map and the random generator.
\<close>

section \<open>Stages and the tester\<close>

datatype stage =
    STAGE_FLIP1 | STAGE_FLIP2 | STAGE_FLIP4 | STAGE_FLIP8 | STAGE_FLIP16 | STAGE_FLIP32
  | STAGE_ARITH8 | STAGE_ARITH16 | STAGE_ARITH32
  | STAGE_INTEREST8 | STAGE_INTEREST16 | STAGE_INTEREST32
  | STAGE_EXTRAS_UO | STAGE_EXTRAS_UI | STAGE_EXTRAS_AO
  | STAGE_HAVOC | STAGE_SPLICE | STAGE_CALIBRATE | STAGE_SYNC | STAGE_READSYMBEX

datatype stage_val = STAGE_VAL_NONE | STAGE_VAL_LE | STAGE_VAL_BE

text \<open>
  What a test case carries along: the stage, \<^verbatim>\<open>stage_cur_byte\<close>, \<^verbatim>\<open>stage_cur_val\<close> (read for
  the types \<^verbatim>\<open>LE\<close> and \<^verbatim>\<open>BE\<close>, and as the stacking in the random stages, where the byte is -1), \<^verbatim>\<open>stage_val_type\<close> and the offset argument of
  \<^verbatim>\<open>common_fuzz_stuff\<close>.
\<close>

record fuzz_op =
  op_stage :: stage
  op_byte :: int
  op_val :: int
  op_vtype :: stage_val
  op_off :: nat

record 'w tester =
  run_test :: "fuzz_op \<Rightarrow> buf \<Rightarrow> 'w \<Rightarrow> bool \<times> 'w"   \<comment> \<open>\<^verbatim>\<open>common_fuzz_stuff\<close>: abandon the entry?\<close>
  wait_all :: "'w \<Rightarrow> 'w"                            \<comment> \<open>\<^verbatim>\<open>WAIT_ALLQEMUS_FREE\<close>\<close>
  symbex :: "'w \<Rightarrow> 'w"                              \<comment> \<open>\<^verbatim>\<open>read_symbex_testcases\<close>, if \<^verbatim>\<open>symbex_dir\<close> is set\<close>
  hits :: "'w \<Rightarrow> nat"                               \<comment> \<open>\<^verbatim>\<open>queued_paths + unique_crashes\<close>\<close>
  bind_eff :: "buf \<times> nat \<Rightarrow> 'w \<Rightarrow> 'w"             \<comment> \<open>sets \<^verbatim>\<open>g_eff_map\<close> and \<^verbatim>\<open>g_eff_cnt\<close>\<close>
  read_eff :: "'w \<Rightarrow> buf \<times> nat"
  rnd :: "nat \<Rightarrow> 'w \<Rightarrow> nat \<times> 'w"                   \<comment> \<open>\<^verbatim>\<open>UR\<close> for a positive limit\<close>

record 'w det =
  out_buf :: buf
  stage_cur :: nat
  stage_max :: int
  orig_hit_cnt :: nat
  stage_finds :: "stage \<Rightarrow> int"
  stage_cycles :: "stage \<Rightarrow> int"
  blocks_eff_select :: nat
  blocks_eff_total :: nat
  oob :: bool
  world :: 'w

text \<open>\<open>oob\<close> is set when a write to the scratch buffer of a stage leaves its bounds, which also ends the stage.\<close>

type_synonym 'w action = "'w det \<Rightarrow> bool \<times> 'w det"

text \<open>Steps in sequence; \<open>True\<close> is the jump to \<^verbatim>\<open>abandon_entry\<close>.\<close>

definition andthen :: "('x \<Rightarrow> bool \<times> 'x) \<Rightarrow> ('x \<Rightarrow> bool \<times> 'x) \<Rightarrow> 'x \<Rightarrow> bool \<times> 'x" where
  "andthen f g d = (case f d of (True, d') \<Rightarrow> (True, d') | (False, d') \<Rightarrow> g d')"

definition pure_step :: "('w det \<Rightarrow> 'w det) \<Rightarrow> 'w action" where
  "pure_step f d = (False, f d)"

definition common_fuzz :: "'w tester \<Rightarrow> fuzz_op \<Rightarrow> buf \<Rightarrow> 'w action" where
  "common_fuzz t opn b d = (case run_test t opn b (world d) of (stop, w) \<Rightarrow> (stop, d\<lparr>world := w\<rparr>))"

definition set_buf :: "buf \<Rightarrow> 'w det \<Rightarrow> 'w det" where
  "set_buf b d = d\<lparr>out_buf := b\<rparr>"

definition start_stage :: "int \<Rightarrow> 'w det \<Rightarrow> 'w det" where
  "start_stage m d = d\<lparr>stage_cur := 0, stage_max := m\<rparr>"

definition count_stage :: "'w tester \<Rightarrow> stage \<Rightarrow> 'w det \<Rightarrow> 'w det" where
  "count_stage t s d =
     (let w = symbex t (world d); n = hits t w in
      d\<lparr>world := w, orig_hit_cnt := n,
        stage_finds := (stage_finds d)(s := stage_finds d s + (int n - int (orig_hit_cnt d))),
        stage_cycles := (stage_cycles d)(s := stage_cycles d s + stage_max d)\<rparr>)"

definition finish_stage :: "'w tester \<Rightarrow> stage \<Rightarrow> 'w det \<Rightarrow> 'w det" where
  "finish_stage t s d = count_stage t s (d\<lparr>world := wait_all t (world d)\<rparr>)"

section \<open>Effector map\<close>

definition EFF_APOS :: "nat \<Rightarrow> nat" where "EFF_APOS p = p div 2 ^ EFF_MAP_SCALE2"

definition EFF_REM :: "nat \<Rightarrow> nat" where "EFF_REM x = x mod 2 ^ EFF_MAP_SCALE2"

definition EFF_ALEN :: "nat \<Rightarrow> nat" where
  "EFF_ALEN l = EFF_APOS l + (if EFF_REM l \<noteq> 0 then 1 else 0)"

definition EFF_SPAN_ALEN :: "nat \<Rightarrow> nat \<Rightarrow> nat" where
  "EFF_SPAN_ALEN p l = EFF_APOS (p + l - 1) - EFF_APOS p + 1"

definition init_eff :: "'w tester \<Rightarrow> nat \<Rightarrow> 'w det \<Rightarrow> 'w det" where
  "init_eff t len d =
     (let m = (replicate (EFF_ALEN len) 0)[0 := 1]; c = snd (read_eff t (world d)) in
      d\<lparr>world := bind_eff t
          (if EFF_APOS (len - 1) \<noteq> 0 then (m[EFF_APOS (len - 1) := 1], c + 1) else (m, c)) (world d)\<rparr>)"

definition densify_eff :: "'w tester \<Rightarrow> nat \<Rightarrow> 'w det \<Rightarrow> 'w det" where
  "densify_eff t len d =
     (let w = wait_all t (world d); (m, c) = read_eff t w; a = EFF_ALEN len;
          d = (if c \<noteq> a \<and> c * 100 div a > EFF_MAX_PERC
               then d\<lparr>world := bind_eff t (replicate a 1, c) w, blocks_eff_select := blocks_eff_select d + a\<rparr>
               else d\<lparr>world := w, blocks_eff_select := blocks_eff_select d + c\<rparr>)
      in d\<lparr>blocks_eff_total := blocks_eff_total d + a\<rparr>)"

text \<open>No byte of the window starting at \<open>i\<close> has an effect.\<close>

definition no_eff :: "buf \<Rightarrow> nat \<Rightarrow> nat \<Rightarrow> bool" where
  "no_eff eff i n \<longleftrightarrow> list_all (\<lambda>k. eff ! EFF_APOS (i + k) = 0) [0..<n]"

section \<open>Bit and byte flips\<close>

definition FLIP_BIT :: "buf \<Rightarrow> nat \<Rightarrow> buf" where
  "FLIP_BIT ar b = ar[b div 8 := ar ! (b div 8) XOR drop_bit (b mod 8) 128]"

definition flip_run :: "nat \<Rightarrow> buf \<Rightarrow> nat \<Rightarrow> buf" where
  "flip_run n ar b = fold (\<lambda>k ar. FLIP_BIT ar (b + k)) [0..<n] ar"

definition walk_bit :: "'w tester \<Rightarrow> stage \<Rightarrow> nat \<Rightarrow> nat \<Rightarrow> 'w action" where
  "walk_bit t s n b =
     andthen (\<lambda>d. let o' = flip_run n (out_buf d) b in
                  common_fuzz t \<lparr>op_stage = s, op_byte = int (b div 8), op_val = 0, op_vtype = STAGE_VAL_NONE, op_off = 0\<rparr>
                    o' (set_buf o' d))
       (pure_step (\<lambda>d. (set_buf (flip_run n (out_buf d) b) d)\<lparr>stage_cur := Suc b\<rparr>))"

definition walking_bits :: "'w tester \<Rightarrow> stage \<Rightarrow> nat \<Rightarrow> 'w action" where
  "walking_bits t s n d =
     (let m = int (length (out_buf d) * 8) - (int n - 1) in
      andthen (for_range 0 (nat m) (walk_bit t s n)) (pure_step (finish_stage t s)) (start_stage m d))"

definition flip1 :: "'w tester \<Rightarrow> 'w action" where "flip1 t = walking_bits t STAGE_FLIP1 1"
definition flip2 :: "'w tester \<Rightarrow> 'w action" where "flip2 t = walking_bits t STAGE_FLIP2 2"
definition flip4 :: "'w tester \<Rightarrow> 'w action" where "flip4 t = walking_bits t STAGE_FLIP4 4"

definition walk_byte :: "'w tester \<Rightarrow> nat \<Rightarrow> 'w action" where
  "walk_byte t i =
     andthen (\<lambda>d. let o' = (out_buf d)[i := out_buf d ! i XOR 0xFF] in
                  common_fuzz t \<lparr>op_stage = STAGE_FLIP8, op_byte = int i, op_val = 0, op_vtype = STAGE_VAL_NONE, op_off = i\<rparr>
                    o' (set_buf o' d))
       (pure_step (\<lambda>d. (set_buf ((out_buf d)[i := out_buf d ! i XOR 0xFF]) d)\<lparr>stage_cur := Suc i\<rparr>))"

definition flip8 :: "'w tester \<Rightarrow> 'w action" where
  "flip8 t d =
     (let len = length (out_buf d) in
      andthen (for_range 0 len (walk_byte t))
        (pure_step (\<lambda>d. count_stage t STAGE_FLIP8 (densify_eff t len d)))
        (start_stage (int len) (init_eff t len d)))"

definition skip_window :: "int \<Rightarrow> 'w action" where
  "skip_window k = pure_step (\<lambda>d. d\<lparr>stage_max := stage_max d - k\<rparr>)"

definition walk_u16 :: "'w tester \<Rightarrow> buf \<Rightarrow> nat \<Rightarrow> 'w action" where
  "walk_u16 t eff i =
     (if no_eff eff i 2 then skip_window 1 else
      andthen (\<lambda>d. let o' = store16 (out_buf d) i (load16 (out_buf d) i XOR 0xFFFF) in
                   common_fuzz t \<lparr>op_stage = STAGE_FLIP16, op_byte = int i, op_val = 0, op_vtype = STAGE_VAL_NONE, op_off = 0\<rparr>
                     o' (set_buf o' d))
        (pure_step (\<lambda>d. (set_buf (store16 (out_buf d) i (load16 (out_buf d) i XOR 0xFFFF)) d)\<lparr>stage_cur := stage_cur d + 1\<rparr>)))"

definition walk_u32 :: "'w tester \<Rightarrow> buf \<Rightarrow> nat \<Rightarrow> 'w action" where
  "walk_u32 t eff i =
     (if no_eff eff i 4 then skip_window 1 else
      andthen (\<lambda>d. let o' = store32 (out_buf d) i (load32 (out_buf d) i XOR 0xFFFFFFFF) in
                   common_fuzz t \<lparr>op_stage = STAGE_FLIP32, op_byte = int i, op_val = 0, op_vtype = STAGE_VAL_NONE, op_off = 0\<rparr>
                     o' (set_buf o' d))
        (pure_step (\<lambda>d. (set_buf (store32 (out_buf d) i (load32 (out_buf d) i XOR 0xFFFFFFFF)) d)\<lparr>stage_cur := stage_cur d + 1\<rparr>)))"

text \<open>A stage that walks over the windows of \<open>n\<close> bytes, as all the later ones do.\<close>

definition window_stage :: "'w tester \<Rightarrow> stage \<Rightarrow> nat \<Rightarrow> int \<Rightarrow> (nat \<Rightarrow> 'w action) \<Rightarrow> 'w action" where
  "window_stage t s n m step d =
     andthen (for_range 0 (length (out_buf d) - (n - 1)) step) (pure_step (finish_stage t s)) (start_stage m d)"

definition flip16 :: "'w tester \<Rightarrow> 'w action" where
  "flip16 t d = window_stage t STAGE_FLIP16 2 (int (length (out_buf d)) - 1) (walk_u16 t (fst (read_eff t (world d)))) d"

definition flip32 :: "'w tester \<Rightarrow> 'w action" where
  "flip32 t d = window_stage t STAGE_FLIP32 4 (int (length (out_buf d)) - 3) (walk_u32 t (fst (read_eff t (world d)))) d"

section \<open>Redundancy tests\<close>

text \<open>Shift right to the lowest set bit, counting; the code calls it on non-zero values only.\<close>

function strip_zeros :: "u32 \<Rightarrow> nat \<Rightarrow> u32 \<times> nat" where
  "strip_zeros x sh = (if x = 0 \<or> x AND 1 \<noteq> 0 then (x, sh) else strip_zeros (drop_bit 1 x) (Suc sh))"
  by pat_completeness auto
termination
proof (relation "measure (\<lambda>(x, sh). unat x)")
  fix x :: u32 and sh
  assume "\<not> (x = 0 \<or> x AND 1 \<noteq> 0)"
  then have "unat (drop_bit 1 x) < unat x" by (simp add: drop_bit_eq_div unat_div unat_gt_0)
  then show "((drop_bit 1 x, Suc sh), x, sh) \<in> measure (\<lambda>(x, sh). unat x)" by simp
qed simp

declare strip_zeros.simps [simp del]

definition could_be_bitflip :: "u32 \<Rightarrow> bool" where
  "could_be_bitflip xor_val =
     (if xor_val = 0 then True else
      let (x, sh) = strip_zeros xor_val 0 in
      if x = 1 \<or> x = 3 \<or> x = 15 then True
      else if sh mod 8 \<noteq> 0 then False
      else x = 0xff \<or> x = 0xffff \<or> x = 0xffffffff)"

text \<open>The scan for the one differing unit of \<open>w\<close> bits: how many differ, and the last one.\<close>

definition scan_units :: "nat \<Rightarrow> nat \<Rightarrow> u32 \<Rightarrow> u32 \<Rightarrow> nat \<times> u32 \<times> u32" where
  "scan_units w n old_val new_val =
     fold (\<lambda>i (diffs, ov, nv).
         let a = take_bit w (drop_bit (w * i) old_val); b = take_bit w (drop_bit (w * i) new_val) in
         if a \<noteq> b then (diffs + 1, a, b) else (diffs, ov, nv)) [0..<n] (0, 0, 0)"

definition near8 :: "u32 \<Rightarrow> u32 \<Rightarrow> bool" where
  "near8 ov nv \<longleftrightarrow> unat (ucast (ov - nv) :: u8) \<le> ARITH_MAX \<or> unat (ucast (nv - ov) :: u8) \<le> ARITH_MAX"

definition near16 :: "u16 \<Rightarrow> u16 \<Rightarrow> bool" where
  "near16 ov nv \<longleftrightarrow> unat (ov - nv) \<le> ARITH_MAX \<or> unat (nv - ov) \<le> ARITH_MAX"

definition near32 :: "u32 \<Rightarrow> u32 \<Rightarrow> bool" where
  "near32 ov nv \<longleftrightarrow> unat (ov - nv) \<le> ARITH_MAX \<or> unat (nv - ov) \<le> ARITH_MAX"

definition could_be_arith :: "u32 \<Rightarrow> u32 \<Rightarrow> nat \<Rightarrow> bool" where
  "could_be_arith old_val new_val blen =
     (if old_val = new_val then True else
      let (diffs, ov, nv) = scan_units 8 blen old_val new_val in
      if diffs = 1 \<and> near8 ov nv then True
      else if blen = 1 then False
      else let (diffs, ov, nv) = scan_units 16 (blen div 2) old_val new_val in
      if diffs = 1 \<and> (near16 (ucast ov) (ucast nv) \<or> near16 (SWAP16 (ucast ov)) (SWAP16 (ucast nv))) then True
      else blen = 4 \<and> (near32 old_val new_val \<or> near32 (SWAP32 old_val) (SWAP32 new_val)))"

definition insert8 :: "u32 \<Rightarrow> nat \<Rightarrow> u8 \<Rightarrow> u32" where
  "insert8 old_val i v = (old_val AND NOT (push_bit (i * 8) 0xff)) OR push_bit (i * 8) (ucast v)"

definition insert16 :: "u32 \<Rightarrow> nat \<Rightarrow> u16 \<Rightarrow> u32" where
  "insert16 old_val i v = (old_val AND NOT (push_bit (i * 8) 0xffff)) OR push_bit (i * 8) (ucast v)"

definition could_be_interest :: "u32 \<Rightarrow> u32 \<Rightarrow> nat \<Rightarrow> bool \<Rightarrow> bool" where
  "could_be_interest old_val new_val blen check_le =
     (if old_val = new_val then True
      else if list_ex (\<lambda>i. list_ex (\<lambda>v. new_val = insert8 old_val i v) interesting_8) [0..<blen] then True
      else if blen = 2 \<and> \<not> check_le then False
      else if list_ex (\<lambda>i. list_ex (\<lambda>v. new_val = insert16 old_val i v \<or>
                blen > 2 \<and> new_val = insert16 old_val i (SWAP16 v)) interesting_16) [0..<blen - 1] then True
      else blen = 4 \<and> check_le \<and> list_ex (\<lambda>v. new_val = v) interesting_32)"

section \<open>Arithmetic\<close>

text \<open>Try one replacement: run it if it is wanted, else take it off the stage's total.\<close>

definition attempt :: "'w tester \<Rightarrow> bool \<Rightarrow> fuzz_op \<Rightarrow> (buf \<Rightarrow> buf) \<Rightarrow> 'w action" where
  "attempt t wanted opn change =
     (if wanted then
        andthen (\<lambda>d. let o' = change (out_buf d) in common_fuzz t opn o' (set_buf o' d))
          (pure_step (\<lambda>d. d\<lparr>stage_cur := stage_cur d + 1\<rparr>))
      else skip_window 1)"

definition arith_op :: "stage \<Rightarrow> nat \<Rightarrow> int \<Rightarrow> stage_val \<Rightarrow> fuzz_op" where
  "arith_op s i v vt = \<lparr>op_stage = s, op_byte = int i, op_val = v, op_vtype = vt, op_off = 0\<rparr>"

definition arith8_step :: "'w tester \<Rightarrow> nat \<Rightarrow> u8 \<Rightarrow> nat \<Rightarrow> 'w action" where
  "arith8_step t i orig j =
     (let p = orig + word_of_nat j; m = orig - word_of_nat j in
      andthen (attempt t (\<not> could_be_bitflip (ucast (orig XOR p))) (arith_op STAGE_ARITH8 i (int j) STAGE_VAL_LE) (\<lambda>b. b[i := p]))
     (andthen (attempt t (\<not> could_be_bitflip (ucast (orig XOR m))) (arith_op STAGE_ARITH8 i (- int j) STAGE_VAL_LE) (\<lambda>b. b[i := m]))
        (pure_step (\<lambda>d. set_buf ((out_buf d)[i := orig]) d))))"

definition arith8 :: "'w tester \<Rightarrow> 'w action" where
  "arith8 t d =
     (let eff = fst (read_eff t (world d)) in
      window_stage t STAGE_ARITH8 1 (2 * int (length (out_buf d)) * int ARITH_MAX)
        (\<lambda>i d. if no_eff eff i 1 then skip_window (2 * int ARITH_MAX) d
               else for_range 1 (Suc ARITH_MAX) (arith8_step t i (out_buf d ! i)) d) d)"

definition arith16_step :: "'w tester \<Rightarrow> nat \<Rightarrow> u16 \<Rightarrow> nat \<Rightarrow> 'w action" where
  "arith16_step t i orig j =
     (let k = word_of_nat j; v1 = orig + k; v2 = orig - k; v3 = SWAP16 (SWAP16 orig + k); v4 = SWAP16 (SWAP16 orig - k);
          fresh = (\<lambda>v. \<not> could_be_bitflip (ucast (orig XOR v)));
          lo = unat (orig AND 0xff); hi = unat (drop_bit 8 orig) in
      andthen (attempt t (lo + j > 0xff \<and> fresh v1) (arith_op STAGE_ARITH16 i (int j) STAGE_VAL_LE) (\<lambda>b. store16 b i v1))
     (andthen (attempt t (lo < j \<and> fresh v2) (arith_op STAGE_ARITH16 i (- int j) STAGE_VAL_LE) (\<lambda>b. store16 b i v2))
     (andthen (attempt t (hi + j > 0xff \<and> fresh v3) (arith_op STAGE_ARITH16 i (int j) STAGE_VAL_BE) (\<lambda>b. store16 b i v3))
     (andthen (attempt t (hi < j \<and> fresh v4) (arith_op STAGE_ARITH16 i (- int j) STAGE_VAL_BE) (\<lambda>b. store16 b i v4))
        (pure_step (\<lambda>d. set_buf (store16 (out_buf d) i orig) d))))))"

definition arith16 :: "'w tester \<Rightarrow> 'w action" where
  "arith16 t d =
     (let eff = fst (read_eff t (world d)) in
      window_stage t STAGE_ARITH16 2 (4 * (int (length (out_buf d)) - 1) * int ARITH_MAX)
        (\<lambda>i d. if no_eff eff i 2 then skip_window (4 * int ARITH_MAX) d
               else for_range 1 (Suc ARITH_MAX) (arith16_step t i (load16 (out_buf d) i)) d) d)"

definition arith32_step :: "'w tester \<Rightarrow> nat \<Rightarrow> u32 \<Rightarrow> nat \<Rightarrow> 'w action" where
  "arith32_step t i orig j =
     (let k = word_of_nat j; v1 = orig + k; v2 = orig - k; v3 = SWAP32 (SWAP32 orig + k); v4 = SWAP32 (SWAP32 orig - k);
          fresh = (\<lambda>v. \<not> could_be_bitflip (orig XOR v));
          lo = unat (orig AND 0xffff); hi = unat (SWAP32 orig AND 0xffff) in
      andthen (attempt t (lo + j > 0xffff \<and> fresh v1) (arith_op STAGE_ARITH32 i (int j) STAGE_VAL_LE) (\<lambda>b. store32 b i v1))
     (andthen (attempt t (lo < j \<and> fresh v2) (arith_op STAGE_ARITH32 i (- int j) STAGE_VAL_LE) (\<lambda>b. store32 b i v2))
     (andthen (attempt t (hi + j > 0xffff \<and> fresh v3) (arith_op STAGE_ARITH32 i (int j) STAGE_VAL_BE) (\<lambda>b. store32 b i v3))
     (andthen (attempt t (hi < j \<and> fresh v4) (arith_op STAGE_ARITH32 i (- int j) STAGE_VAL_BE) (\<lambda>b. store32 b i v4))
        (pure_step (\<lambda>d. set_buf (store32 (out_buf d) i orig) d))))))"

definition arith32 :: "'w tester \<Rightarrow> 'w action" where
  "arith32 t d =
     (let eff = fst (read_eff t (world d)) in
      window_stage t STAGE_ARITH32 4 (4 * (int (length (out_buf d)) - 3) * int ARITH_MAX)
        (\<lambda>i d. if no_eff eff i 4 then skip_window (4 * int ARITH_MAX) d
               else for_range 1 (Suc ARITH_MAX) (arith32_step t i (load32 (out_buf d) i)) d) d)"

section \<open>Interesting values\<close>

definition interest8_step :: "'w tester \<Rightarrow> nat \<Rightarrow> u8 \<Rightarrow> nat \<Rightarrow> 'w action" where
  "interest8_step t i orig j =
     (let v = interesting_8 ! j in
      if could_be_bitflip (ucast (orig XOR v)) \<or> could_be_arith (ucast orig) (ucast v) 1 then skip_window 1
      else andthen (\<lambda>d. let o' = (out_buf d)[i := v] in
                         common_fuzz t (arith_op STAGE_INTEREST8 i (sint v) STAGE_VAL_LE) o' (set_buf o' d))
             (pure_step (\<lambda>d. (set_buf ((out_buf d)[i := orig]) d)\<lparr>stage_cur := stage_cur d + 1\<rparr>)))"

definition interest8 :: "'w tester \<Rightarrow> 'w action" where
  "interest8 t d =
     (let eff = fst (read_eff t (world d)); n = length interesting_8 in
      window_stage t STAGE_INTEREST8 1 (int (length (out_buf d) * n))
        (\<lambda>i d. if no_eff eff i 1 then skip_window (int n) d
               else for_range 0 n (interest8_step t i (out_buf d ! i)) d) d)"

definition interest16_step :: "'w tester \<Rightarrow> nat \<Rightarrow> u16 \<Rightarrow> nat \<Rightarrow> 'w action" where
  "interest16_step t i orig j =
     (let v = interesting_16 ! j; b = SWAP16 v;
          fresh = (\<lambda>v le. \<not> could_be_bitflip (ucast (orig XOR v)) \<and> \<not> could_be_arith (ucast orig) (ucast v) 2 \<and>
                          \<not> could_be_interest (ucast orig) (ucast v) 2 le) in
      andthen (attempt t (fresh v False) (arith_op STAGE_INTEREST16 i (sint v) STAGE_VAL_LE) (\<lambda>o'. store16 o' i v))
        (attempt t (v \<noteq> b \<and> fresh b True) (arith_op STAGE_INTEREST16 i (sint v) STAGE_VAL_BE) (\<lambda>o'. store16 o' i b)))"

definition interest16 :: "'w tester \<Rightarrow> 'w action" where
  "interest16 t d =
     (let eff = fst (read_eff t (world d)); n = length interesting_16 in
      window_stage t STAGE_INTEREST16 2 (2 * (int (length (out_buf d)) - 1) * int n)
        (\<lambda>i d. if no_eff eff i 2 then skip_window (2 * int n) d
               else let orig = load16 (out_buf d) i in
                    andthen (for_range 0 n (interest16_step t i orig))
                      (pure_step (\<lambda>d. set_buf (store16 (out_buf d) i orig) d)) d) d)"

definition interest32_step :: "'w tester \<Rightarrow> nat \<Rightarrow> u32 \<Rightarrow> nat \<Rightarrow> 'w action" where
  "interest32_step t i orig j =
     (let v = interesting_32 ! j; b = SWAP32 v;
          fresh = (\<lambda>v le. \<not> could_be_bitflip (orig XOR v) \<and> \<not> could_be_arith orig v 4 \<and>
                          \<not> could_be_interest orig v 4 le) in
      andthen (attempt t (fresh v False) (arith_op STAGE_INTEREST32 i (sint v) STAGE_VAL_LE) (\<lambda>o'. store32 o' i v))
        (attempt t (v \<noteq> b \<and> fresh b True) (arith_op STAGE_INTEREST32 i (sint v) STAGE_VAL_BE) (\<lambda>o'. store32 o' i b)))"

definition interest32 :: "'w tester \<Rightarrow> 'w action" where
  "interest32 t d =
     (let eff = fst (read_eff t (world d)); n = length interesting_32 in
      window_stage t STAGE_INTEREST32 4 (2 * (int (length (out_buf d)) - 3) * int n)
        (\<lambda>i d. if no_eff eff i 4 then skip_window (2 * int n) d
               else let orig = load32 (out_buf d) i in
                    andthen (for_range 0 n (interest32_step t i orig))
                      (pure_step (\<lambda>d. set_buf (store32 (out_buf d) i orig) d)) d) d)"

section \<open>Dictionary tokens\<close>

record extra_data =
  ex_data :: buf
  hit_cnt :: nat

text \<open>Skip a user token at random when there are too many.\<close>

definition random_skip :: "'w tester \<Rightarrow> nat \<Rightarrow> 'w det \<Rightarrow> bool \<times> 'w det" where
  "random_skip t cnt d =
     (if cnt > MAX_DET_EXTRAS then
        (case rnd t cnt (world d) of (v, w) \<Rightarrow> (v \<ge> MAX_DET_EXTRAS, d\<lparr>world := w\<rparr>))
      else (False, d))"

text \<open>
  One token at one offset; the loop state carries \<^verbatim>\<open>last_len\<close>, the length of the last
  token written there.
\<close>

definition over_step ::
  "'w tester \<Rightarrow> stage \<Rightarrow> ('w det \<Rightarrow> bool \<times> 'w det) \<Rightarrow> buf list \<Rightarrow> buf \<Rightarrow> nat \<Rightarrow> nat \<Rightarrow> nat \<times> 'w det \<Rightarrow> bool \<times> (nat \<times> 'w det)"
where
  "over_step t s skip toks eff i j = (\<lambda>(last_len, d).
     let tok = toks ! j; l = length tok; (skipped, d) = skip d in
     if skipped \<or> l > length (out_buf d) - i \<or> take l (drop i (out_buf d)) = tok \<or>
        1 \<notin> set (take (EFF_SPAN_ALEN i l) (drop (EFF_APOS i) eff))
     then (False, last_len, d\<lparr>stage_max := stage_max d - 1\<rparr>)
     else let o' = write_at (out_buf d) i tok in
       case common_fuzz t \<lparr>op_stage = s, op_byte = int i, op_val = 0, op_vtype = STAGE_VAL_NONE, op_off = 0\<rparr> o' (set_buf o' d) of
         (True, d) \<Rightarrow> (True, l, d)
       | (False, d) \<Rightarrow> (False, l, d\<lparr>stage_cur := stage_cur d + 1\<rparr>))"

definition over_stage ::
  "'w tester \<Rightarrow> stage \<Rightarrow> ('w det \<Rightarrow> bool \<times> 'w det) \<Rightarrow> buf list \<Rightarrow> buf \<Rightarrow> 'w action"
where
  "over_stage t s skip toks in_buf d =
     (let eff = fst (read_eff t (world d)) in
      window_stage t s 1 (int (length toks * length (out_buf d)))
        (\<lambda>i d. case for_range 0 (length toks) (over_step t s skip toks eff i) (0, d) of
                 (True, l, d) \<Rightarrow> (True, d)
               | (False, l, d) \<Rightarrow> (False, set_buf (write_at (out_buf d) i (take l (drop i in_buf))) d)) d)"

definition extras_over :: "'w tester \<Rightarrow> extra_data list \<Rightarrow> buf \<Rightarrow> 'w action" where
  "extras_over t extras in_buf =
     over_stage t STAGE_EXTRAS_UO (random_skip t (length extras)) (map ex_data extras) in_buf"

definition auto_extras_over :: "'w tester \<Rightarrow> extra_data list \<Rightarrow> buf \<Rightarrow> 'w action" where
  "auto_extras_over t a_extras in_buf =
     over_stage t STAGE_EXTRAS_AO (\<lambda>d. (False, d)) (map ex_data (take USE_AUTO_EXTRAS a_extras)) in_buf"

text \<open>Insertion works in a second buffer \<^verbatim>\<open>ex_tmp\<close>, which the loop state carries.\<close>

definition insert_step :: "'w tester \<Rightarrow> buf list \<Rightarrow> nat \<Rightarrow> nat \<Rightarrow> buf \<times> 'w det \<Rightarrow> bool \<times> (buf \<times> 'w det)" where
  "insert_step t toks i j = (\<lambda>(ex_tmp, d).
     let tok = toks ! j; len = length (out_buf d) in
     if len + length tok > MAX_FILE then (False, ex_tmp, d\<lparr>stage_max := stage_max d - 1\<rparr>)
     else case Option.bind (put_at ex_tmp i tok) (\<lambda>m. put_at m (i + length tok) (drop i (out_buf d))) of
       None \<Rightarrow> (True, ex_tmp, d\<lparr>oob := True\<rparr>)
     | Some ex_tmp \<Rightarrow>
       (case common_fuzz t \<lparr>op_stage = STAGE_EXTRAS_UI, op_byte = int i, op_val = 0, op_vtype = STAGE_VAL_NONE, op_off = 0\<rparr>
              (take (len + length tok) ex_tmp) d of
         (True, d) \<Rightarrow> (True, ex_tmp, d)
       | (False, d) \<Rightarrow> (False, ex_tmp, d\<lparr>stage_cur := stage_cur d + 1\<rparr>)))"

definition insert_byte :: "'w tester \<Rightarrow> buf list \<Rightarrow> nat \<Rightarrow> buf \<times> 'w det \<Rightarrow> bool \<times> (buf \<times> 'w det)" where
  "insert_byte t toks i x =
     (case for_range 0 (length toks) (insert_step t toks i) x of
        (True, y) \<Rightarrow> (True, y)
      | (False, ex_tmp, d) \<Rightarrow>
          if i < length ex_tmp then (False, ex_tmp[i := out_buf d ! i], d) else (True, ex_tmp, d\<lparr>oob := True\<rparr>))"

definition extras_insert :: "'w tester \<Rightarrow> extra_data list \<Rightarrow> 'w action" where
  "extras_insert t extras d =
     (let toks = map ex_data extras; len = length (out_buf d) in
      case for_range 0 len (insert_byte t toks)
             (replicate (len + MAX_DICT_FILE) 0, start_stage (int (length toks * len)) d) of
        (True, _, d) \<Rightarrow> (True, d)
      | (False, _, d) \<Rightarrow> (False, finish_stage t STAGE_EXTRAS_UI d))"

section \<open>All deterministic stages\<close>

definition when_len :: "nat \<Rightarrow> 'w action \<Rightarrow> 'w action" where
  "when_len n f d = (if length (out_buf d) < n then (False, d) else f d)"

definition bitflip_stages :: "'w tester \<Rightarrow> 'w action" where
  "bitflip_stages t = andthen (flip1 t) (andthen (flip2 t) (andthen (flip4 t) (andthen (flip8 t)
     (when_len 2 (andthen (flip16 t) (when_len 4 (flip32 t)))))))"

definition arith_stages :: "'w tester \<Rightarrow> 'w action" where
  "arith_stages t = andthen (arith8 t) (when_len 2 (andthen (arith16 t) (when_len 4 (arith32 t))))"

definition interest_stages :: "'w tester \<Rightarrow> 'w action" where
  "interest_stages t = andthen (interest8 t) (when_len 2 (andthen (interest16 t) (when_len 4 (interest32 t))))"

definition extras_stages :: "'w tester \<Rightarrow> extra_data list \<Rightarrow> extra_data list \<Rightarrow> buf \<Rightarrow> 'w action" where
  "extras_stages t extras a_extras in_buf =
     andthen (if extras = [] then pure_step id else andthen (extras_over t extras in_buf) (extras_insert t extras))
       (if a_extras = [] then pure_step id else auto_extras_over t a_extras in_buf)"

definition det_stages :: "'w tester \<Rightarrow> extra_data list \<Rightarrow> extra_data list \<Rightarrow> buf \<Rightarrow> 'w action" where
  "det_stages t extras a_extras in_buf d =
     andthen (bitflip_stages t) (andthen (arith_stages t) (andthen (interest_stages t)
       (extras_stages t extras a_extras in_buf))) (d\<lparr>orig_hit_cnt := hits t (world d)\<rparr>)"

end
