(* ===== verification/Det_Stages.thy ===== *)
theory Det_Stages
  imports Det
begin

unbundle bit_operations_syntax

text \<open>
  Correctness of the deterministic stages. The specification of a stage is a list of candidates,
  each an operation record and a complete test case; running it means handing them to the tester
  in order until one run asks to abandon the entry. A small Hoare calculus (\<open>tests\<close>) relates the
  loops of the code, which modify one shared buffer in place and undo the change, to
  such lists.
\<close>

named_theorems tests_rules \<open>rules of the calculus of tested candidates\<close>

section \<open>Candidates and the calculus\<close>

fun run_cands :: "'w tester \<Rightarrow> (fuzz_op \<times> buf) list \<Rightarrow> 'w \<Rightarrow> bool \<times> 'w" where
  "run_cands t [] w = (False, w)"
| "run_cands t ((opn, b) # cs) w =
     (case run_test t opn b w of (True, w') \<Rightarrow> (True, w') | (False, w') \<Rightarrow> run_cands t cs w')"

lemma run_cands_append:
  "run_cands t (cs @ ds) w =
     (case run_cands t cs w of (True, w') \<Rightarrow> (True, w') | (False, w') \<Rightarrow> run_cands t ds w')"
proof (induction cs arbitrary: w)
  case Nil
  show ?case by simp
next
  case (Cons c cs)
  then show ?case by (cases c) (auto split: prod.splits bool.splits)
qed

text \<open>
  \<open>gtests t wd A f cs B\<close>: started in a state that satisfies \<open>A\<close>, the action \<open>f\<close> tests exactly
  the candidates \<open>cs\<close>, stops early exactly if one of them asks for it, and ends in a state that
  satisfies \<open>B\<close> otherwise; \<open>wd\<close> reads the world from the state. \<open>tests\<close> is the common case, where
  the conditions are on the buffer.
\<close>

definition gtests :: "'w tester \<Rightarrow> ('x \<Rightarrow> 'w) \<Rightarrow> ('x \<Rightarrow> bool) \<Rightarrow> ('x \<Rightarrow> bool \<times> 'x) \<Rightarrow> (fuzz_op \<times> buf) list \<Rightarrow> ('x \<Rightarrow> bool) \<Rightarrow> bool" where
  "gtests t wd A f cs B \<longleftrightarrow> (\<forall>x. A x \<longrightarrow> (case run_cands t cs (wd x) of (stop, w) \<Rightarrow>
     \<exists>y. f x = (stop, y) \<and> wd y = w \<and> (stop \<or> B y)))"

definition tests :: "'w tester \<Rightarrow> (buf \<Rightarrow> bool) \<Rightarrow> 'w action \<Rightarrow> (fuzz_op \<times> buf) list \<Rightarrow> (buf \<Rightarrow> bool) \<Rightarrow> bool" where
  "tests t A f cs B \<longleftrightarrow> gtests t world (\<lambda>d. A (out_buf d)) f cs (\<lambda>d. B (out_buf d))"

lemma gtestsD:
  assumes "gtests t wd A f cs B" "A x" "run_cands t cs (wd x) = (stop, w)"
  obtains y where "f x = (stop, y)" "wd y = w" "stop \<or> B y"
  using assms unfolding gtests_def by fastforce

lemma gtests_andthen:
  assumes f: "gtests t wd A f cs B" and g: "gtests t wd B g ds C"
  shows "gtests t wd A (andthen f g) (cs @ ds) C"
  unfolding gtests_def
proof (intro allI impI)
  fix x
  assume A: "A x"
  obtain stop w where r: "run_cands t cs (wd x) = (stop, w)" by fastforce
  with f A obtain y where y: "f x = (stop, y)" "wd y = w" "stop \<or> B y"
    by (fastforce simp: gtests_def)
  show "case run_cands t (cs @ ds) (wd x) of (stop, w) \<Rightarrow> \<exists>y. andthen f g x = (stop, y) \<and> wd y = w \<and> (stop \<or> C y)"
    using g r y by (cases stop) (auto simp: gtests_def andthen_def run_cands_append)
qed

lemma tests_andthen [tests_rules]:
  "tests t A f cs B \<Longrightarrow> tests t B g ds C \<Longrightarrow> tests t A (andthen f g) (cs @ ds) C"
  unfolding tests_def by (rule gtests_andthen)

lemma gtests_pure: "(\<And>x. A x \<Longrightarrow> B (f x) \<and> wd (f x) = wd x) \<Longrightarrow> gtests t wd A (\<lambda>x. (False, f x)) [] B"
  by (simp add: gtests_def)

lemma tests_pure [tests_rules]:
  "(\<And>d. A (out_buf d) \<Longrightarrow> B (out_buf (f d)) \<and> world (f d) = world d) \<Longrightarrow> tests t A (pure_step f) [] B"
  by (simp add: tests_def gtests_def pure_step_def)

lemma gtests_weaken:
  "\<lbrakk>gtests t wd A f cs B; \<And>x. A' x \<Longrightarrow> A x; \<And>x. B x \<Longrightarrow> B' x\<rbrakk> \<Longrightarrow> gtests t wd A' f cs B'"
  unfolding gtests_def by (fastforce split: prod.splits)

lemma tests_weaken:
  "\<lbrakk>tests t A f cs B; \<And>b. A' b \<Longrightarrow> A b; \<And>b. B b \<Longrightarrow> B' b\<rbrakk> \<Longrightarrow> tests t A' f cs B'"
  unfolding tests_def by (rule gtests_weaken)

lemma gtests_for_range:
  assumes "\<And>i. k \<le> i \<Longrightarrow> i < n \<Longrightarrow> gtests t wd (A i) (body i) (cs i) (A (Suc i))" "k \<le> n"
  shows "gtests t wd (A k) (for_range k n body) (concat (map cs [k..<n])) (A n)"
  using assms
proof (induction "n - k" arbitrary: k)
  case 0
  then show ?case by (simp add: gtests_def)
next
  case (Suc m)
  then have k: "k < n" by simp
  have e: "for_range k n body = andthen (body k) (for_range (Suc k) n body)"
    using k by (simp add: fun_eq_iff for_range_step andthen_def)
  have "gtests t wd (A (Suc k)) (for_range (Suc k) n body) (concat (map cs [Suc k..<n])) (A n)"
    using Suc.hyps(2) Suc.prems k by (intro Suc.hyps(1)) simp_all
  with Suc.prems(1)[of k] k show ?case
    unfolding e upt_conv_Cons[OF k] by (simp add: gtests_andthen)
qed

lemma tests_for_range:
  assumes "\<And>i. k \<le> i \<Longrightarrow> i < n \<Longrightarrow> tests t A (body i) (cs i) A"
  shows "tests t A (for_range k n body) (concat (map cs [k..<n])) A"
proof (cases "k \<le> n")
  case True
  with assms gtests_for_range[of k n t world "\<lambda>_ d. A (out_buf d)" body cs] show ?thesis
    by (simp add: tests_def)
qed (simp add: tests_def gtests_def)

text \<open>Change the buffer, test the result: the shape all stages start with.\<close>

lemma tests_change [tests_rules]:
  assumes "\<And>b. A b \<Longrightarrow> change b = c"
  shows "tests t A (\<lambda>d. let o' = change (out_buf d) in common_fuzz t opn o' (set_buf o' d)) [(opn, c)] (\<lambda>b. b = c)"
  using assms by (auto simp: tests_def gtests_def common_fuzz_def set_buf_def split: prod.splits bool.splits)

lemma tests_attempt [tests_rules]:
  assumes "\<And>b. A b \<Longrightarrow> change b = c" "A c"
  shows "tests t A (attempt t wanted opn change) (if wanted then [(opn, c)] else []) A"
proof (cases wanted)
  case True
  have "tests t A (attempt t True opn change) ([(opn, c)] @ []) A"
    unfolding attempt_def if_P[OF TrueI]
    by (rule tests_andthen[OF tests_change tests_pure]) (use assms in auto)
  then show ?thesis using True by simp
next
  case False
  then show ?thesis
    by (simp add: attempt_def skip_window_def tests_pure)
qed

lemma tests_skip [tests_rules]: "tests t A (skip_window k) [] A"
  by (simp add: skip_window_def tests_pure)

text \<open>A whole stage: the candidates, then the bookkeeping at its end.\<close>

lemma finish_stage_simps [simp]:
  "out_buf (finish_stage t s d) = out_buf d"
  "world (finish_stage t s d) = symbex t (wait_all t (world d))"
  by (simp_all add: finish_stage_def count_stage_def Let_def)

text \<open>
  \<open>stage_tests t f cs d\<close>: started in \<open>d\<close>, the stage \<open>f\<close> hands exactly the candidates \<open>cs\<close> to the
  target, in this order; if one of them asks to abandon the entry the stage stops there, otherwise it
  ends by waiting for all instances, with the buffer it started with.
\<close>

definition stage_tests :: "'w tester \<Rightarrow> 'w action \<Rightarrow> (fuzz_op \<times> buf) list \<Rightarrow> 'w det \<Rightarrow> bool" where
  "stage_tests t f cs d \<longleftrightarrow> (case run_cands t cs (world d) of (stop, w) \<Rightarrow>
     \<exists>d'. f d = (stop, d') \<and>
       (if stop then world d' = w else out_buf d' = out_buf d \<and> world d' = symbex t (wait_all t w)))"

lemma stage_refines:
  assumes loop: "tests t (\<lambda>b. b = out_buf d) (for_range 0 n step) cs (\<lambda>b. b = out_buf d)"
  shows "stage_tests t (\<lambda>d. andthen (for_range 0 n step) (pure_step (finish_stage t s)) (start_stage m d)) cs d"
proof -
  have s: "out_buf (start_stage m d) = out_buf d" "world (start_stage m d) = world d"
    by (simp_all add: start_stage_def)
  obtain stop w where r: "run_cands t cs (world d) = (stop, w)" by fastforce
  with s obtain y where "for_range 0 n step (start_stage m d) = (stop, y)" "world y = w" "stop \<or> out_buf y = out_buf d"
    using gtestsD[OF loop[unfolded tests_def], of "start_stage m d" stop w] by auto
  with r show ?thesis by (cases stop) (auto simp: stage_tests_def andthen_def pure_step_def)
qed

section \<open>Walking bits\<close>

text \<open>Bit \<open>k\<close> of a buffer in the order of \<^const>\<open>FLIP_BIT\<close>: most significant bit of each byte first.\<close>

definition abit :: "buf \<Rightarrow> nat \<Rightarrow> bool" where
  "abit ar k = bit (ar ! (k div 8)) (7 - k mod 8)"

lemma abit_eqI:
  assumes l: "length a = length b" and e: "\<And>k. k < 8 * length a \<Longrightarrow> abit a k = abit b k"
  shows "a = b"
proof (rule nth_equalityI[OF l])
  fix i
  assume i: "i < length a"
  show "a ! i = b ! i"
  proof (rule bit_word_eqI)
    fix n
    assume n: "n < LENGTH(8)"
    define m where "m = 7 - n"
    have m: "m < 8" "n = 7 - m" using n by (auto simp: m_def)
    have "(8 * i + m) div 8 = i" "(8 * i + m) mod 8 = m" "8 * i + m < 8 * length a"
      using m(1) i by auto
    then show "bit (a ! i) n = bit (b ! i) n" using e[of "8 * i + m"] by (simp only: abit_def m(2))
  qed
qed

lemma bit_128_drop: "k < 8 \<Longrightarrow> n < 8 \<Longrightarrow> bit (drop_bit k (128 :: u8)) n \<longleftrightarrow> n = 7 - k"
proof -
  have e: "(128 :: u8) = push_bit 7 1" by simp
  assume "k < 8" "n < 8"
  then show ?thesis unfolding e by (auto simp: bit_drop_bit_eq bit_push_bit_iff bit_1_iff simp del: push_bit_of_1)
qed

lemma abit_FLIP_BIT:
  assumes "b < 8 * length ar" "k < 8 * length ar"
  shows "abit (FLIP_BIT ar b) k = (abit ar k \<noteq> (k = b))"
proof -
  have d: "b div 8 < length ar" "k div 8 < length ar"
    using assms by (simp_all add: less_mult_imp_div_less mult.commute)
  have m: "7 - k mod 8 = 7 - b mod 8 \<longleftrightarrow> k mod 8 = b mod 8"
    using mod_less_divisor[of 8 k] mod_less_divisor[of 8 b] by linarith
  have "k = b \<longleftrightarrow> k div 8 = b div 8 \<and> k mod 8 = b mod 8" by (metis div_mult_mod_eq)
  with d m show ?thesis
    by (auto simp: abit_def FLIP_BIT_def nth_list_update bit_xor_iff bit_128_drop)
qed

lemma length_FLIP_BIT [simp]: "length (FLIP_BIT ar b) = length ar"
  by (simp add: FLIP_BIT_def)

lemma length_flip_run [simp]: "length (flip_run n ar b) = length ar"
  unfolding flip_run_def by (induction n) simp_all

lemma abit_flip_run:
  "\<lbrakk>b + n \<le> 8 * length ar; k < 8 * length ar\<rbrakk> \<Longrightarrow>
   abit (flip_run n ar b) k = (abit ar k \<noteq> (b \<le> k \<and> k < b + n))"
proof (induction n)
  case 0
  then show ?case by (auto simp: flip_run_def)
next
  case (Suc n)
  let ?a = "flip_run n ar b"
  have "flip_run (Suc n) ar b = FLIP_BIT ?a (b + n)" by (simp add: flip_run_def)
  moreover have "abit (FLIP_BIT ?a (b + n)) k = (abit ?a k \<noteq> (k = b + n))"
    using Suc.prems by (intro abit_FLIP_BIT) simp_all
  ultimately show ?case using Suc by auto
qed

lemma flip_run_undo: "b + n \<le> 8 * length ar \<Longrightarrow> flip_run n (flip_run n ar b) b = ar"
  by (rule abit_eqI) (auto simp: abit_flip_run)

text \<open>The input with the \<open>n\<close> bits from position \<open>i\<close> on inverted, given bit by bit.\<close>

definition inverted :: "nat \<Rightarrow> buf \<Rightarrow> nat \<Rightarrow> buf" where
  "inverted n b i = map (\<lambda>j. horner_sum of_bool 2
     (map (\<lambda>r. bit (b ! j) r \<noteq> (i \<le> 8 * j + (7 - r) \<and> 8 * j + (7 - r) < i + n)) [0..<8])) [0..<length b]"

lemma length_inverted [simp]: "length (inverted n b i) = length b"
  by (simp add: inverted_def)

lemma abit_inverted:
  assumes "k < 8 * length b"
  shows "abit (inverted n b i) k = (abit b k \<noteq> (i \<le> k \<and> k < i + n))"
proof -
  have k: "k div 8 < length b" "7 - k mod 8 < 8" "7 - (7 - k mod 8) = k mod 8" "8 * (k div 8) + k mod 8 = k"
    using assms by (simp_all add: less_mult_imp_div_less mult.commute)
  show ?thesis using k(2) by (simp add: abit_def inverted_def bit_horner_sum_bit_word_iff k(1,3,4))
qed

lemma flip_run_inverted: "i + n \<le> 8 * length b \<Longrightarrow> flip_run n b i = inverted n b i"
  by (rule abit_eqI) (simp_all add: abit_flip_run abit_inverted)

definition flip_cands :: "stage \<Rightarrow> nat \<Rightarrow> buf \<Rightarrow> (fuzz_op \<times> buf) list" where
  "flip_cands s n b =
     map (\<lambda>i. (\<lparr>op_stage = s, op_byte = int (i div 8), op_val = 0, op_vtype = STAGE_VAL_NONE, op_off = 0\<rparr>, inverted n b i))
       [0..<length b * 8 + 1 - n]"

lemma tests_walk_bit:
  assumes "i + n \<le> 8 * length b"
  shows "tests t (\<lambda>o'. o' = b) (walk_bit t s n i)
     [(\<lparr>op_stage = s, op_byte = int (i div 8), op_val = 0, op_vtype = STAGE_VAL_NONE, op_off = 0\<rparr>, inverted n b i)] (\<lambda>o'. o' = b)"
proof -
  have "tests t (\<lambda>o'. o' = b) (walk_bit t s n i)
     ([(\<lparr>op_stage = s, op_byte = int (i div 8), op_val = 0, op_vtype = STAGE_VAL_NONE, op_off = 0\<rparr>, flip_run n b i)] @ []) (\<lambda>o'. o' = b)"
    unfolding walk_bit_def
    by (rule tests_andthen[OF tests_change tests_pure]) (use assms in \<open>auto simp: set_buf_def flip_run_undo\<close>)
  then show ?thesis using assms by (simp add: flip_run_inverted)
qed

lemma walking_bits_stage:
  assumes "1 \<le> n"
  shows "stage_tests t (walking_bits t s n) (flip_cands s n (out_buf d)) d"
proof -
  let ?b = "out_buf d" and ?m = "int (length (out_buf d) * 8) - (int n - 1)"
  have n: "nat ?m = length ?b * 8 + 1 - n" using assms by simp
  have "tests t (\<lambda>b. b = ?b) (for_range 0 (nat ?m) (walk_bit t s n))
     (concat (map (\<lambda>i. [(\<lparr>op_stage = s, op_byte = int (i div 8), op_val = 0, op_vtype = STAGE_VAL_NONE, op_off = 0\<rparr>, inverted n ?b i)])
       [0..<nat ?m])) (\<lambda>b. b = ?b)"
    by (intro tests_for_range tests_walk_bit) (use assms n in auto)
  then have "tests t (\<lambda>b. b = ?b) (for_range 0 (nat ?m) (walk_bit t s n)) (flip_cands s n ?b) (\<lambda>b. b = ?b)"
    unfolding flip_cands_def n concat_map_singleton .
  from stage_refines[OF this, of s ?m] show ?thesis by (simp add: stage_tests_def walking_bits_def Let_def)
qed

text \<open>
  C5: the walking-bit stages test exactly the right inputs. For \<open>n\<close> = 1, 2 and 4 the
  stage hands to the target, in order, the input with the \<open>n\<close> bits from position
  \<open>i\<close> on inverted and all others kept (\<^const>\<open>inverted\<close>, which is defined bit by bit), for every position
  at which they fit, and nothing else; unless a run asks to abandon the entry, the buffer is afterwards the original input again.
\<close>

theorem walking_bits_refines:
  "stage_tests t (flip1 t) (flip_cands STAGE_FLIP1 1 (out_buf d)) d \<and>
   stage_tests t (flip2 t) (flip_cands STAGE_FLIP2 2 (out_buf d)) d \<and>
   stage_tests t (flip4 t) (flip_cands STAGE_FLIP4 4 (out_buf d)) d"
  by (simp add: flip1_def flip2_def flip4_def walking_bits_stage)

section \<open>Cells: bytes, words and double words in the buffer\<close>

text \<open>
  All other stages change one cell of the buffer: a byte, a 16-bit or a 32-bit word at some
  offset. What they need to know of such a cell is the following contract.
\<close>

locale cell =
  fixes width :: nat
    and get :: "buf \<Rightarrow> nat \<Rightarrow> 'v"
    and put :: "buf \<Rightarrow> nat \<Rightarrow> 'v \<Rightarrow> buf"
  assumes get_put: "i + width \<le> length b \<Longrightarrow> get (put b i v) i = v"
    and put_put: "i + width \<le> length b \<Longrightarrow> put (put b i u) i v = put b i v"
    and put_get: "i + width \<le> length b \<Longrightarrow> put b i (get b i) = b"
begin

lemma tests_try:
  assumes "i + width \<le> length b"
  shows "tests t (\<lambda>o'. \<exists>u. o' = put b i u) (attempt t wanted opn (\<lambda>o'. put o' i v))
    (if wanted then [(opn, put b i v)] else []) (\<lambda>o'. \<exists>u. o' = put b i u)"
  by (rule tests_attempt) (use assms in \<open>auto simp: put_put\<close>)

lemma tests_restore:
  assumes "i + width \<le> length b" "orig = get b i"
  shows "tests t (\<lambda>o'. \<exists>u. o' = put b i u) (pure_step (\<lambda>d. set_buf (put (out_buf d) i orig) d)) [] (\<lambda>o'. o' = b)"
  by (rule tests_pure) (use assms in \<open>auto simp: put_put put_get set_buf_def\<close>)

lemma tests_then:
  assumes "i + width \<le> length b" "tests t (\<lambda>o'. \<exists>u. o' = put b i u) g cs C"
  shows "tests t (\<lambda>o'. \<exists>u. o' = put b i u) (andthen (attempt t wanted opn (\<lambda>o'. put o' i v)) g)
    ((if wanted then [(opn, put b i v)] else []) @ cs) C"
  by (rule tests_andthen[OF tests_try[OF assms(1)] assms(2)])

lemma tests_last:
  assumes "i + width \<le> length b" "orig = get b i"
  shows "tests t (\<lambda>o'. \<exists>u. o' = put b i u)
    (andthen (attempt t wanted opn (\<lambda>o'. put o' i v)) (pure_step (\<lambda>d. set_buf (put (out_buf d) i orig) d)))
    (if wanted then [(opn, put b i v)] else []) (\<lambda>o'. o' = b)"
  by (rule tests_then[OF assms(1) tests_restore[OF assms], unfolded append_Nil2])

lemma tests_open:
  assumes "i + width \<le> length b" "tests t (\<lambda>o'. \<exists>u. o' = put b i u) f cs B"
  shows "tests t (\<lambda>o'. o' = b) f cs B"
proof (rule tests_weaken[OF assms(2)])
  show "\<And>ba. ba = b \<Longrightarrow> \<exists>u. ba = put b i u" using put_get[OF assms(1)] by metis
qed

lemma tests_involution:
  assumes "i + width \<le> length b" "\<And>v. g (g v) = v" "\<And>d. out_buf (h d) = out_buf d \<and> world (h d) = world d"
  shows "tests t (\<lambda>o'. o' = b)
    (andthen (\<lambda>d. let o' = put (out_buf d) i (g (get (out_buf d) i)) in common_fuzz t opn o' (set_buf o' d))
      (pure_step (\<lambda>d. h (set_buf (put (out_buf d) i (g (get (out_buf d) i))) d))))
    [(opn, put b i (g (get b i)))] (\<lambda>o'. o' = b)"
proof -
  have "tests t (\<lambda>o'. o' = b)
    (andthen (\<lambda>d. let o' = put (out_buf d) i (g (get (out_buf d) i)) in common_fuzz t opn o' (set_buf o' d))
      (pure_step (\<lambda>d. h (set_buf (put (out_buf d) i (g (get (out_buf d) i))) d))))
    ([(opn, put b i (g (get b i)))] @ []) (\<lambda>o'. o' = b)"
    by (rule tests_andthen[OF tests_change tests_pure])
      (use assms in \<open>auto simp: get_put put_put put_get set_buf_def\<close>)
  then show ?thesis by simp
qed

end

lemma write_at_write_at: "length xs = length ys \<Longrightarrow> i + length xs \<le> length m \<Longrightarrow>
    write_at (write_at m i xs) i ys = write_at m i ys"
  by (simp add: write_at_def)

lemma take_drop_write_at: "i + length xs \<le> length m \<Longrightarrow> take (length xs) (drop i (write_at m i xs)) = xs"
  by (simp add: write_at_def)

lemma write_at_self: "i + n \<le> length m \<Longrightarrow> write_at m i (take n (drop i m)) = m"
  by (simp add: write_at_def) (metis append_take_drop_id drop_drop add.commute)

lemma length_write_at: "i + length xs \<le> length m \<Longrightarrow> length (write_at m i xs) = length m"
  by (simp add: write_at_def)

interpretation byte_cell: cell 1 "(!)" "\<lambda>b i v. b[i := v]"
  by unfold_locales simp_all

interpretation u16_cell: cell 2 load16 store16
proof
  fix i :: nat and b :: buf and u v :: u16
  assume "i + 2 \<le> length b"
  then show "load16 (store16 b i v) i = v" "store16 (store16 b i u) i v = store16 b i v"
    "store16 b i (load16 b i) = b"
    using take_drop_write_at[of i "store_le 2 v" b] store_load_le[where 'a = 16, of "take 2 (drop i b)"]
    by (simp_all add: load16_def store16_def load_store_le write_at_write_at write_at_self)
qed

interpretation u32_cell: cell 4 load32 store32
proof
  fix i :: nat and b :: buf and u v :: u32
  assume "i + 4 \<le> length b"
  then show "load32 (store32 b i v) i = v" "store32 (store32 b i u) i v = store32 b i v"
    "store32 b i (load32 b i) = b"
    using take_drop_write_at[of i "store_le 4 v" b] store_load_le[where 'a = 32, of "take 4 (drop i b)"]
    by (simp_all add: load32_def store32_def load_store_le write_at_write_at write_at_self)
qed


section \<open>Byte, word and double word stages\<close>

lemma tests_cong: "(\<And>d. A (out_buf d) \<Longrightarrow> f d = g d) \<Longrightarrow> tests t A f cs B = tests t A g cs B"
  by (simp add: tests_def gtests_def)

lemma window_refines:
  assumes "\<And>i. i + n \<le> length (out_buf d) \<Longrightarrow> tests t (\<lambda>b. b = out_buf d) (step i) (cs i) (\<lambda>b. b = out_buf d)"
    and "1 \<le> n"
  shows "stage_tests t (window_stage t s n m step) (concat (map cs [0..<length (out_buf d) - (n - 1)])) d"
proof -
  have "tests t (\<lambda>b. b = out_buf d) (for_range 0 (length (out_buf d) - (n - 1)) step)
     (concat (map cs [0..<length (out_buf d) - (n - 1)])) (\<lambda>b. b = out_buf d)"
    by (rule tests_for_range, rule assms) (use assms(2) in auto)
  from stage_refines[OF this, of s m] show ?thesis by (simp add: stage_tests_def window_stage_def)
qed

lemma tests_if_eff:
  assumes "\<not> P \<Longrightarrow> tests t A f cs A"
  shows "tests t A (\<lambda>d. if P then skip_window k d else f d) (if P then [] else cs) A"
  using assms by (cases P) (simp_all add: tests_skip)

definition cand_if :: "bool \<Rightarrow> fuzz_op \<Rightarrow> buf \<Rightarrow> (fuzz_op \<times> buf) list" where
  "cand_if wanted opn b = (if wanted then [(opn, b)] else [])"

lemma cand_if_Nil: "(if P then [] else [(opn, b)]) = cand_if (\<not> P) opn b"
  by (simp add: cand_if_def)

text \<open>Candidates of the byte and word flips.\<close>

definition plain_op :: "stage \<Rightarrow> nat \<Rightarrow> nat \<Rightarrow> fuzz_op" where
  "plain_op s i off = \<lparr>op_stage = s, op_byte = int i, op_val = 0, op_vtype = STAGE_VAL_NONE, op_off = off\<rparr>"

definition flip8_cands :: "buf \<Rightarrow> (fuzz_op \<times> buf) list" where
  "flip8_cands b = map (\<lambda>i. (plain_op STAGE_FLIP8 i i, b[i := b ! i XOR 0xFF])) [0..<length b]"

definition flip16_cands :: "buf \<Rightarrow> buf \<Rightarrow> (fuzz_op \<times> buf) list" where
  "flip16_cands eff b = concat (map (\<lambda>i. cand_if (\<not> no_eff eff i 2) (plain_op STAGE_FLIP16 i 0)
     (store16 b i (load16 b i XOR 0xFFFF))) [0..<length b - 1])"

definition flip32_cands :: "buf \<Rightarrow> buf \<Rightarrow> (fuzz_op \<times> buf) list" where
  "flip32_cands eff b = concat (map (\<lambda>i. cand_if (\<not> no_eff eff i 4) (plain_op STAGE_FLIP32 i 0)
     (store32 b i (load32 b i XOR 0xFFFFFFFF))) [0..<length b - 3])"

lemma xor_twice: "(v XOR m) XOR m = (v :: 'a::len word)"
  by (simp add: xor.assoc)

lemma tests_walk_byte:
  "i + 1 \<le> length b \<Longrightarrow> tests t (\<lambda>o'. o' = b) (walk_byte t i) [(plain_op STAGE_FLIP8 i i, b[i := b ! i XOR 0xFF])] (\<lambda>o'. o' = b)"
  unfolding walk_byte_def plain_op_def
  by (rule byte_cell.tests_involution[where g = "\<lambda>v. v XOR 0xFF" and h = "\<lambda>d. d\<lparr>stage_cur := Suc i\<rparr>"])
    (simp_all add: xor_twice)

lemma tests_walk_u16:
  assumes "i + 2 \<le> length b"
  shows "tests t (\<lambda>o'. o' = b) (walk_u16 t eff i)
    (cand_if (\<not> no_eff eff i 2) (plain_op STAGE_FLIP16 i 0) (store16 b i (load16 b i XOR 0xFFFF))) (\<lambda>o'. o' = b)"
proof (cases "no_eff eff i 2")
  case True
  then show ?thesis by (simp add: walk_u16_def cand_if_def tests_skip)
next
  case False
  have "tests t (\<lambda>o'. o' = b) (walk_u16 t eff i)
    [(plain_op STAGE_FLIP16 i 0, store16 b i (load16 b i XOR 0xFFFF))] (\<lambda>o'. o' = b)"
    unfolding walk_u16_def plain_op_def if_not_P[OF False]
    using u16_cell.tests_involution[OF assms, where g = "\<lambda>v. v XOR 0xFFFF" and h = "\<lambda>d. d\<lparr>stage_cur := stage_cur d + 1\<rparr>"]
    by (simp add: xor_twice set_buf_def)
  with False show ?thesis by (simp add: cand_if_def)
qed

lemma tests_walk_u32:
  assumes "i + 4 \<le> length b"
  shows "tests t (\<lambda>o'. o' = b) (walk_u32 t eff i)
    (cand_if (\<not> no_eff eff i 4) (plain_op STAGE_FLIP32 i 0) (store32 b i (load32 b i XOR 0xFFFFFFFF))) (\<lambda>o'. o' = b)"
proof (cases "no_eff eff i 4")
  case True
  then show ?thesis by (simp add: walk_u32_def cand_if_def tests_skip)
next
  case False
  have "tests t (\<lambda>o'. o' = b) (walk_u32 t eff i)
    [(plain_op STAGE_FLIP32 i 0, store32 b i (load32 b i XOR 0xFFFFFFFF))] (\<lambda>o'. o' = b)"
    unfolding walk_u32_def plain_op_def if_not_P[OF False]
    using u32_cell.tests_involution[OF assms, where g = "\<lambda>v. v XOR 0xFFFFFFFF" and h = "\<lambda>d. d\<lparr>stage_cur := stage_cur d + 1\<rparr>"]
    by (simp add: xor_twice set_buf_def)
  with False show ?thesis by (simp add: cand_if_def)
qed


lemma flip8_refines:
  "case run_cands t (flip8_cands (out_buf d)) (world (init_eff t (length (out_buf d)) d)) of (stop, w) \<Rightarrow>
     \<exists>d'. flip8 t d = (stop, d') \<and> (if stop then world d' = w else out_buf d' = out_buf d)"
proof -
  let ?b = "out_buf d" and ?d = "start_stage (int (length (out_buf d))) (init_eff t (length (out_buf d)) d)"
  have s: "out_buf ?d = ?b" "world ?d = world (init_eff t (length ?b) d)"
    by (simp_all add: start_stage_def init_eff_def Let_def)
  have e: "concat (map (\<lambda>i. [(plain_op STAGE_FLIP8 i i, ?b[i := ?b ! i XOR 0xFF])]) [0..<length ?b]) = flip8_cands ?b"
    unfolding flip8_cands_def concat_map_singleton ..
  have "tests t (\<lambda>b. b = ?b) (for_range 0 (length ?b) (walk_byte t)) (flip8_cands ?b) (\<lambda>b. b = ?b)"
    unfolding e[symmetric] by (rule tests_for_range, rule tests_walk_byte) simp
  note loop = this[unfolded tests_def]
  obtain stop w where r: "run_cands t (flip8_cands ?b) (world ?d) = (stop, w)" by fastforce
  then obtain y where "for_range 0 (length ?b) (walk_byte t) ?d = (stop, y)" "world y = w" "stop \<or> out_buf y = ?b"
    using gtestsD[OF loop, of ?d stop w] s by auto
  moreover have "out_buf (count_stage t STAGE_FLIP8 (densify_eff t l x)) = out_buf x" for l x
    by (simp add: count_stage_def densify_eff_def Let_def split: prod.splits)
  ultimately show ?thesis
    using r s by (cases stop) (auto simp: flip8_def andthen_def pure_step_def Let_def)
qed

section \<open>Arithmetic and interesting values\<close>

definition arith8_at :: "buf \<Rightarrow> nat \<Rightarrow> nat \<Rightarrow> (fuzz_op \<times> buf) list" where
  "arith8_at b i j = (let orig = b ! i; p = orig + word_of_nat j; m = orig - word_of_nat j in
     cand_if (\<not> could_be_bitflip (ucast (orig XOR p))) (arith_op STAGE_ARITH8 i (int j) STAGE_VAL_LE) (b[i := p]) @
     cand_if (\<not> could_be_bitflip (ucast (orig XOR m))) (arith_op STAGE_ARITH8 i (- int j) STAGE_VAL_LE) (b[i := m]))"

definition arith8_cands :: "buf \<Rightarrow> buf \<Rightarrow> (fuzz_op \<times> buf) list" where
  "arith8_cands eff b = concat (map (\<lambda>i. if no_eff eff i 1 then [] else
     concat (map (arith8_at b i) [1..<Suc ARITH_MAX])) [0..<length b])"

definition arith16_at :: "buf \<Rightarrow> nat \<Rightarrow> nat \<Rightarrow> (fuzz_op \<times> buf) list" where
  "arith16_at b i j =
     (let orig = load16 b i; k = word_of_nat j; v1 = orig + k; v2 = orig - k; v3 = SWAP16 (SWAP16 orig + k); v4 = SWAP16 (SWAP16 orig - k);
          fresh = (\<lambda>v. \<not> could_be_bitflip (ucast (orig XOR v))); lo = unat (orig AND 0xff); hi = unat (drop_bit 8 orig) in
      cand_if (lo + j > 0xff \<and> fresh v1) (arith_op STAGE_ARITH16 i (int j) STAGE_VAL_LE) (store16 b i v1) @
      cand_if (lo < j \<and> fresh v2) (arith_op STAGE_ARITH16 i (- int j) STAGE_VAL_LE) (store16 b i v2) @
      cand_if (hi + j > 0xff \<and> fresh v3) (arith_op STAGE_ARITH16 i (int j) STAGE_VAL_BE) (store16 b i v3) @
      cand_if (hi < j \<and> fresh v4) (arith_op STAGE_ARITH16 i (- int j) STAGE_VAL_BE) (store16 b i v4))"

definition arith16_cands :: "buf \<Rightarrow> buf \<Rightarrow> (fuzz_op \<times> buf) list" where
  "arith16_cands eff b = concat (map (\<lambda>i. if no_eff eff i 2 then [] else
     concat (map (arith16_at b i) [1..<Suc ARITH_MAX])) [0..<length b - 1])"

definition arith32_at :: "buf \<Rightarrow> nat \<Rightarrow> nat \<Rightarrow> (fuzz_op \<times> buf) list" where
  "arith32_at b i j =
     (let orig = load32 b i; k = word_of_nat j; v1 = orig + k; v2 = orig - k; v3 = SWAP32 (SWAP32 orig + k); v4 = SWAP32 (SWAP32 orig - k);
          fresh = (\<lambda>v. \<not> could_be_bitflip (orig XOR v)); lo = unat (orig AND 0xffff); hi = unat (SWAP32 orig AND 0xffff) in
      cand_if (lo + j > 0xffff \<and> fresh v1) (arith_op STAGE_ARITH32 i (int j) STAGE_VAL_LE) (store32 b i v1) @
      cand_if (lo < j \<and> fresh v2) (arith_op STAGE_ARITH32 i (- int j) STAGE_VAL_LE) (store32 b i v2) @
      cand_if (hi + j > 0xffff \<and> fresh v3) (arith_op STAGE_ARITH32 i (int j) STAGE_VAL_BE) (store32 b i v3) @
      cand_if (hi < j \<and> fresh v4) (arith_op STAGE_ARITH32 i (- int j) STAGE_VAL_BE) (store32 b i v4))"

definition arith32_cands :: "buf \<Rightarrow> buf \<Rightarrow> (fuzz_op \<times> buf) list" where
  "arith32_cands eff b = concat (map (\<lambda>i. if no_eff eff i 4 then [] else
     concat (map (arith32_at b i) [1..<Suc ARITH_MAX])) [0..<length b - 3])"

text \<open>Sequences of attempts at one cell, closed by restoring it.\<close>

lemma tests_arith8:
  assumes i: "i + 1 \<le> length b"
  shows "tests t (\<lambda>o'. o' = b) (arith8_step t i (b ! i) j) (arith8_at b i j) (\<lambda>o'. o' = b)"
  unfolding arith8_step_def arith8_at_def Let_def cand_if_def
  by (intro byte_cell.tests_open[OF i] byte_cell.tests_last[OF i refl] byte_cell.tests_then[OF i])

lemma tests_arith16:
  assumes i: "i + 2 \<le> length b"
  shows "tests t (\<lambda>o'. o' = b) (arith16_step t i (load16 b i) j) (arith16_at b i j) (\<lambda>o'. o' = b)"
  unfolding arith16_step_def arith16_at_def Let_def cand_if_def
  by (intro u16_cell.tests_open[OF i] u16_cell.tests_last[OF i refl] u16_cell.tests_then[OF i])

lemma tests_arith32:
  assumes i: "i + 4 \<le> length b"
  shows "tests t (\<lambda>o'. o' = b) (arith32_step t i (load32 b i) j) (arith32_at b i j) (\<lambda>o'. o' = b)"
  unfolding arith32_step_def arith32_at_def Let_def cand_if_def
  by (intro u32_cell.tests_open[OF i] u32_cell.tests_last[OF i refl] u32_cell.tests_then[OF i])


lemma arith_stage_refines:
  assumes "\<And>i j. i + n \<le> length (out_buf d) \<Longrightarrow>
      tests t (\<lambda>o'. o' = out_buf d) (step i (get (out_buf d) i) j) (at i j) (\<lambda>o'. o' = out_buf d)" "1 \<le> n"
  shows "stage_tests t (window_stage t s n m (\<lambda>i d. if no_eff eff i n then skip_window k d
        else for_range l u (step i (get (out_buf d) i)) d))
    (concat (map (\<lambda>i. if no_eff eff i n then [] else concat (map (at i) [l..<u])) [0..<length (out_buf d) - (n - 1)])) d"
proof (rule window_refines[OF _ assms(2)])
  fix i
  assume i: "i + n \<le> length (out_buf d)"
  have "tests t (\<lambda>o'. o' = out_buf d) (for_range l u (step i (get (out_buf d) i))) (concat (map (at i) [l..<u])) (\<lambda>o'. o' = out_buf d)"
    by (rule tests_for_range) (rule assms(1)[OF i])
  then have "tests t (\<lambda>o'. o' = out_buf d) (\<lambda>d. for_range l u (step i (get (out_buf d) i)) d) (concat (map (at i) [l..<u])) (\<lambda>o'. o' = out_buf d)"
    by (subst tests_cong[where g = "for_range l u (step i (get (out_buf d) i))"]) auto
  then show "tests t (\<lambda>b. b = out_buf d)
      (\<lambda>d. if no_eff eff i n then skip_window k d else for_range l u (step i (get (out_buf d) i)) d)
      (if no_eff eff i n then [] else concat (map (at i) [l..<u])) (\<lambda>b. b = out_buf d)"
    by (rule tests_if_eff)
qed


text \<open>Candidates of the interesting values.\<close>

definition interest8_at :: "buf \<Rightarrow> nat \<Rightarrow> nat \<Rightarrow> (fuzz_op \<times> buf) list" where
  "interest8_at b i j = (let orig = b ! i; v = interesting_8 ! j in
     cand_if (\<not> (could_be_bitflip (ucast (orig XOR v)) \<or> could_be_arith (ucast orig) (ucast v) 1))
       (arith_op STAGE_INTEREST8 i (sint v) STAGE_VAL_LE) (b[i := v]))"

definition interest8_cands :: "buf \<Rightarrow> buf \<Rightarrow> (fuzz_op \<times> buf) list" where
  "interest8_cands eff b = concat (map (\<lambda>i. if no_eff eff i 1 then [] else
     concat (map (interest8_at b i) [0..<length interesting_8])) [0..<length b])"

definition interest16_at :: "buf \<Rightarrow> nat \<Rightarrow> nat \<Rightarrow> (fuzz_op \<times> buf) list" where
  "interest16_at b i j =
     (let orig = load16 b i; v = interesting_16 ! j; w = SWAP16 v;
          fresh = (\<lambda>v le. \<not> could_be_bitflip (ucast (orig XOR v)) \<and> \<not> could_be_arith (ucast orig) (ucast v) 2 \<and>
                          \<not> could_be_interest (ucast orig) (ucast v) 2 le) in
      cand_if (fresh v False) (arith_op STAGE_INTEREST16 i (sint v) STAGE_VAL_LE) (store16 b i v) @
      cand_if (v \<noteq> w \<and> fresh w True) (arith_op STAGE_INTEREST16 i (sint v) STAGE_VAL_BE) (store16 b i w))"

definition interest16_cands :: "buf \<Rightarrow> buf \<Rightarrow> (fuzz_op \<times> buf) list" where
  "interest16_cands eff b = concat (map (\<lambda>i. if no_eff eff i 2 then [] else
     concat (map (interest16_at b i) [0..<length interesting_16])) [0..<length b - 1])"

definition interest32_at :: "buf \<Rightarrow> nat \<Rightarrow> nat \<Rightarrow> (fuzz_op \<times> buf) list" where
  "interest32_at b i j =
     (let orig = load32 b i; v = interesting_32 ! j; w = SWAP32 v;
          fresh = (\<lambda>v le. \<not> could_be_bitflip (orig XOR v) \<and> \<not> could_be_arith orig v 4 \<and>
                          \<not> could_be_interest orig v 4 le) in
      cand_if (fresh v False) (arith_op STAGE_INTEREST32 i (sint v) STAGE_VAL_LE) (store32 b i v) @
      cand_if (v \<noteq> w \<and> fresh w True) (arith_op STAGE_INTEREST32 i (sint v) STAGE_VAL_BE) (store32 b i w))"

definition interest32_cands :: "buf \<Rightarrow> buf \<Rightarrow> (fuzz_op \<times> buf) list" where
  "interest32_cands eff b = concat (map (\<lambda>i. if no_eff eff i 4 then [] else
     concat (map (interest32_at b i) [0..<length interesting_32])) [0..<length b - 3])"

lemma tests_interest8:
  assumes i: "i + 1 \<le> length b"
  shows "tests t (\<lambda>o'. o' = b) (interest8_step t i (b ! i) j) (interest8_at b i j) (\<lambda>o'. o' = b)"
proof (cases "could_be_bitflip (ucast (b ! i XOR interesting_8 ! j)) \<or> could_be_arith (ucast (b ! i)) (ucast (interesting_8 ! j)) 1")
  case True
  then show ?thesis by (auto simp: interest8_step_def interest8_at_def cand_if_def Let_def tests_skip)
next
  case False
  have "tests t (\<lambda>o'. o' = b) (interest8_step t i (b ! i) j)
     ([(arith_op STAGE_INTEREST8 i (sint (interesting_8 ! j)) STAGE_VAL_LE, b[i := interesting_8 ! j])] @ []) (\<lambda>o'. o' = b)"
    unfolding interest8_step_def Let_def if_not_P[OF False]
    by (rule tests_andthen[OF tests_change[unfolded Let_def] tests_pure]) (use i in \<open>auto simp: set_buf_def\<close>)
  with False show ?thesis by (simp add: interest8_at_def cand_if_def Let_def)
qed

lemma tests_interest16:
  assumes i: "i + 2 \<le> length b"
  shows "tests t (\<lambda>o'. \<exists>u. o' = store16 b i u) (interest16_step t i (load16 b i) j) (interest16_at b i j) (\<lambda>o'. \<exists>u. o' = store16 b i u)"
  unfolding interest16_step_def interest16_at_def Let_def cand_if_def
  by (intro u16_cell.tests_then[OF i] u16_cell.tests_try[OF i])

lemma tests_interest32:
  assumes i: "i + 4 \<le> length b"
  shows "tests t (\<lambda>o'. \<exists>u. o' = store32 b i u) (interest32_step t i (load32 b i) j) (interest32_at b i j) (\<lambda>o'. \<exists>u. o' = store32 b i u)"
  unfolding interest32_step_def interest32_at_def Let_def cand_if_def
  by (intro u32_cell.tests_then[OF i] u32_cell.tests_try[OF i])

context cell
begin

lemma restoring_stage:
  assumes "1 \<le> width"
    and "\<And>i j. i + width \<le> length (out_buf d) \<Longrightarrow> tests t (\<lambda>o'. \<exists>u. o' = put (out_buf d) i u) (step i (get (out_buf d) i) j)
      (at i j) (\<lambda>o'. \<exists>u. o' = put (out_buf d) i u)"
  shows "stage_tests t (window_stage t s width m (\<lambda>i d. if no_eff eff i width then skip_window k d
        else andthen (for_range l u (step i (get (out_buf d) i))) (pure_step (\<lambda>d'. set_buf (put (out_buf d') i (get (out_buf d) i)) d')) d))
    (concat (map (\<lambda>i. if no_eff eff i width then [] else concat (map (at i) [l..<u])) [0..<length (out_buf d) - (width - 1)])) d"
proof (rule window_refines[OF _ assms(1)])
  fix i
  assume i: "i + width \<le> length (out_buf d)"
  let ?g = "andthen (for_range l u (step i (get (out_buf d) i))) (pure_step (\<lambda>d'. set_buf (put (out_buf d') i (get (out_buf d) i)) d'))"
  have "tests t (\<lambda>o'. \<exists>u. o' = put (out_buf d) i u) (for_range l u (step i (get (out_buf d) i))) (concat (map (at i) [l..<u]))
      (\<lambda>o'. \<exists>u. o' = put (out_buf d) i u)"
    by (rule tests_for_range) (rule assms(2)[OF i])
  then have "tests t (\<lambda>o'. \<exists>u. o' = put (out_buf d) i u) ?g (concat (map (at i) [l..<u])) (\<lambda>o'. o' = out_buf d)"
    by (rule tests_andthen[OF _ tests_restore[OF i refl], unfolded append_Nil2])
  then have "tests t (\<lambda>o'. o' = out_buf d) ?g (concat (map (at i) [l..<u])) (\<lambda>o'. o' = out_buf d)"
    by (rule tests_open[OF i])
  then have "tests t (\<lambda>o'. o' = out_buf d) (\<lambda>d. andthen (for_range l u (step i (get (out_buf d) i)))
      (pure_step (\<lambda>d'. set_buf (put (out_buf d') i (get (out_buf d) i)) d')) d) (concat (map (at i) [l..<u])) (\<lambda>o'. o' = out_buf d)"
    by (subst tests_cong[where g = ?g]) auto
  then show "tests t (\<lambda>b. b = out_buf d)
      (\<lambda>d. if no_eff eff i width then skip_window k d
        else andthen (for_range l u (step i (get (out_buf d) i))) (pure_step (\<lambda>d'. set_buf (put (out_buf d') i (get (out_buf d) i)) d')) d)
      (if no_eff eff i width then [] else concat (map (at i) [l..<u])) (\<lambda>b. b = out_buf d)"
    by (rule tests_if_eff)
qed

end

text \<open>The stages read the effector map once; the rest is one of the lemmas above.\<close>

lemma stage_tests_cong: "f d = g d \<Longrightarrow> stage_tests t f cs d = stage_tests t g cs d"
  by (simp add: stage_tests_def)

lemma flip16_stage: "stage_tests t (flip16 t) (flip16_cands (fst (read_eff t (world d))) (out_buf d)) d"
proof -
  have "stage_tests t (window_stage t STAGE_FLIP16 2 m (walk_u16 t eff)) (flip16_cands eff (out_buf d)) d" for m eff
    using window_refines[where n = 2, OF tests_walk_u16] by (simp add: flip16_cands_def)
  then show ?thesis by (simp add: stage_tests_def flip16_def)
qed

lemma flip32_stage: "stage_tests t (flip32 t) (flip32_cands (fst (read_eff t (world d))) (out_buf d)) d"
proof -
  have "stage_tests t (window_stage t STAGE_FLIP32 4 m (walk_u32 t eff)) (flip32_cands eff (out_buf d)) d" for m eff
    using window_refines[where n = 4, OF tests_walk_u32] by (simp add: flip32_cands_def)
  then show ?thesis by (simp add: stage_tests_def flip32_def)
qed

lemma arith8_stage: "stage_tests t (arith8 t) (arith8_cands (fst (read_eff t (world d))) (out_buf d)) d"
  using arith_stage_refines[where n = 1 and get = "(!)" and step = "arith8_step t" and at = "arith8_at (out_buf d)", OF tests_arith8]
  by (simp add: stage_tests_def arith8_def arith8_cands_def Let_def del: ARITH_MAX_def upt_Suc)

lemma arith16_stage: "stage_tests t (arith16 t) (arith16_cands (fst (read_eff t (world d))) (out_buf d)) d"
  using arith_stage_refines[where n = 2 and get = load16 and step = "arith16_step t" and at = "arith16_at (out_buf d)", OF tests_arith16]
  by (simp add: stage_tests_def arith16_def arith16_cands_def Let_def del: ARITH_MAX_def upt_Suc)

lemma arith32_stage: "stage_tests t (arith32 t) (arith32_cands (fst (read_eff t (world d))) (out_buf d)) d"
  using arith_stage_refines[where n = 4 and get = load32 and step = "arith32_step t" and at = "arith32_at (out_buf d)", OF tests_arith32]
  by (simp add: stage_tests_def arith32_def arith32_cands_def Let_def del: ARITH_MAX_def upt_Suc)

lemma interest8_stage: "stage_tests t (interest8 t) (interest8_cands (fst (read_eff t (world d))) (out_buf d)) d"
  using arith_stage_refines[where n = 1 and get = "(!)" and step = "interest8_step t" and at = "interest8_at (out_buf d)", OF tests_interest8]
  by (simp add: stage_tests_def interest8_def interest8_cands_def Let_def del: length_interesting)

lemma interest16_stage: "stage_tests t (interest16 t) (interest16_cands (fst (read_eff t (world d))) (out_buf d)) d"
  using u16_cell.restoring_stage[where step = "interest16_step t" and at = "interest16_at (out_buf d)", OF _ tests_interest16]
  unfolding stage_tests_def interest16_def interest16_cands_def Let_def by (simp del: length_interesting)

lemma interest32_stage: "stage_tests t (interest32 t) (interest32_cands (fst (read_eff t (world d))) (out_buf d)) d"
  using u32_cell.restoring_stage[where step = "interest32_step t" and at = "interest32_at (out_buf d)", OF _ tests_interest32]
  unfolding stage_tests_def interest32_def interest32_cands_def Let_def by (simp del: length_interesting)

text \<open>
  C7: the byte and word stages test exactly the specified inputs. The flips of 16 and 32 bits, the
  three arithmetic and the three interesting-value stages hand to the target, in order, the
  input with one cell replaced, for every cell the effector map selects and every replacement not
  excluded by the redundancy tests; although all of them work in place, each candidate differs from the
  original input only in its own cell, and the buffer is restored at the end.
\<close>

theorem word_stages_refine:
  "let eff = fst (read_eff t (world d)); b = out_buf d in
     stage_tests t (flip16 t) (flip16_cands eff b) d \<and> stage_tests t (flip32 t) (flip32_cands eff b) d \<and>
     stage_tests t (arith8 t) (arith8_cands eff b) d \<and> stage_tests t (arith16 t) (arith16_cands eff b) d \<and>
     stage_tests t (arith32 t) (arith32_cands eff b) d \<and> stage_tests t (interest8 t) (interest8_cands eff b) d \<and>
     stage_tests t (interest16 t) (interest16_cands eff b) d \<and> stage_tests t (interest32 t) (interest32_cands eff b) d"
  unfolding Let_def
  by (intro conjI flip16_stage flip32_stage arith8_stage arith16_stage arith32_stage
      interest8_stage interest16_stage interest32_stage)

end
