(* ===== verification/Det_Extras.thy ===== *)
theory Det_Extras
  imports Det_Stages
begin

unbundle bit_operations_syntax

text \<open>
  The dictionary stages and the deterministic stages as a whole: insertion tests exactly the
  insertions, overwriting restores the input although it does not undo each single write, and a
  completed deterministic pass hands the havoc stage the unmodified input.
\<close>

section \<open>Insertion of tokens\<close>

definition insert_cands :: "buf list \<Rightarrow> buf \<Rightarrow> (fuzz_op \<times> buf) list" where
  "insert_cands toks b = concat (map (\<lambda>i. concat (map (\<lambda>tok.
     cand_if (length b + length tok \<le> MAX_FILE) (plain_op STAGE_EXTRAS_UI i 0) (take i b @ tok @ drop i b)) toks))
     [0..<length b])"

text \<open>At offset \<open>i\<close>, \<^verbatim>\<open>ex_tmp\<close> holds the first \<open>i\<close> bytes of the input, and there is room for any token.\<close>

definition tmp_ok :: "buf \<Rightarrow> nat \<Rightarrow> buf \<times> 'w det \<Rightarrow> bool" where
  "tmp_ok b i = (\<lambda>(ex_tmp, d). out_buf d = b \<and> length ex_tmp = length b + MAX_DICT_FILE \<and> take i ex_tmp = take i b)"

lemma inserted:
  assumes "i \<le> length b" "length tok \<le> MAX_DICT_FILE" "length ex_tmp = length b + MAX_DICT_FILE" "take i ex_tmp = take i b"
  shows "take (length b + length tok) (write_at (write_at ex_tmp i tok) (i + length tok) (drop i b)) = take i b @ tok @ drop i b"
    and "length (write_at (write_at ex_tmp i tok) (i + length tok) (drop i b)) = length b + MAX_DICT_FILE"
    and "take i (write_at (write_at ex_tmp i tok) (i + length tok) (drop i b)) = take i b"
  using assms by (simp_all add: write_at_def)

lemma insert_fits:
  assumes "i \<le> length b" "length tok \<le> MAX_DICT_FILE" "length ex_tmp = length b + MAX_DICT_FILE"
  shows "Option.bind (put_at ex_tmp i tok) (\<lambda>m. put_at m (i + length tok) (drop i b)) =
    Some (write_at (write_at ex_tmp i tok) (i + length tok) (drop i b))"
  using assms by (simp add: put_at_Some length_write_at)

lemma gtests_insert_step:
  assumes "i \<le> length b" "j < length toks" "length (toks ! j) \<le> MAX_DICT_FILE"
  shows "gtests t (world \<circ> snd) (tmp_ok b i) (insert_step t toks i j)
    (cand_if (length b + length (toks ! j) \<le> MAX_FILE) (plain_op STAGE_EXTRAS_UI i 0) (take i b @ toks ! j @ drop i b)) (tmp_ok b i)"
proof -
  have "case run_cands t (cand_if (length b + length (toks ! j) \<le> MAX_FILE) (plain_op STAGE_EXTRAS_UI i 0)
        (take i b @ toks ! j @ drop i b)) (world d) of (stop, w) \<Rightarrow>
      \<exists>y. insert_step t toks i j (ex_tmp, d) = (stop, y) \<and> (world \<circ> snd) y = w \<and> (stop \<or> tmp_ok b i y)"
    if "tmp_ok b i (ex_tmp, d)" for ex_tmp and d :: "'a det"
    using that inserted[OF assms(1,3), of ex_tmp] insert_fits[OF assms(1,3), of ex_tmp]
    by (auto simp: tmp_ok_def insert_step_def cand_if_def plain_op_def common_fuzz_def Let_def simp del: MAX_FILE_def MAX_DICT_FILE_def split: prod.splits bool.splits)
  then show ?thesis unfolding gtests_def by auto
qed

lemma gtests_insert_byte:
  assumes "i < length b" "\<forall>tok \<in> set toks. length tok \<le> MAX_DICT_FILE"
  shows "gtests t (world \<circ> snd) (tmp_ok b i) (insert_byte t toks i)
    (concat (map (\<lambda>tok. cand_if (length b + length tok \<le> MAX_FILE) (plain_op STAGE_EXTRAS_UI i 0) (take i b @ tok @ drop i b)) toks))
    (tmp_ok b (Suc i))"
proof -
  let ?c = "\<lambda>tok. cand_if (length b + length tok \<le> MAX_FILE) (plain_op STAGE_EXTRAS_UI i 0) (take i b @ tok @ drop i b)"
  have e: "insert_byte t toks i = andthen (for_range 0 (length toks) (insert_step t toks i))
      (\<lambda>(ex_tmp, d). if i < length ex_tmp then (False, ex_tmp[i := out_buf d ! i], d) else (True, ex_tmp, d\<lparr>oob := True\<rparr>))"
    by (auto simp: fun_eq_iff insert_byte_def andthen_def split: prod.splits bool.splits)
  have c: "map ?c toks = map (\<lambda>j. ?c (toks ! j)) [0..<length toks]"
    by (rule nth_equalityI) simp_all
  have "gtests t (world \<circ> snd) (tmp_ok b i) (for_range 0 (length toks) (insert_step t toks i)) (concat (map ?c toks)) (tmp_ok b i)"
    unfolding c by (rule gtests_for_range[of 0 "length toks" t _ "\<lambda>_. tmp_ok b i"], rule gtests_insert_step) (use assms in auto)
  moreover have "gtests t (world \<circ> snd) (tmp_ok b i) (\<lambda>(ex_tmp, d). if i < length ex_tmp then (False, ex_tmp[i := out_buf d ! i], d) else (True, ex_tmp, d\<lparr>oob := True\<rparr>)) [] (tmp_ok b (Suc i))"
    using assms by (auto simp: gtests_def tmp_ok_def take_Suc_conv_app_nth)
  ultimately have "gtests t (world \<circ> snd) (tmp_ok b i) (insert_byte t toks i) (concat (map ?c toks) @ []) (tmp_ok b (Suc i))"
    unfolding e by (rule gtests_andthen)
  then show ?thesis by simp
qed

lemma insert_stage:
  assumes "\<forall>x \<in> set extras. length (ex_data x) \<le> MAX_DICT_FILE"
  shows "stage_tests t (extras_insert t extras) (insert_cands (map ex_data extras) (out_buf d)) d"
proof -
  let ?b = "out_buf d" and ?toks = "map ex_data extras"
  let ?x = "(replicate (length ?b + MAX_DICT_FILE) (0 :: u8), start_stage (int (length ?toks * length ?b)) d)"
  have "gtests t (world \<circ> snd) (tmp_ok ?b 0) (for_range 0 (length ?b) (insert_byte t ?toks)) (insert_cands ?toks ?b) (tmp_ok ?b (length ?b))"
    unfolding insert_cands_def
    by (rule gtests_for_range, rule gtests_insert_byte) (use assms in auto)
  moreover have "tmp_ok ?b 0 ?x" "(world \<circ> snd) ?x = world d"
    by (simp_all add: tmp_ok_def start_stage_def)
  moreover obtain stop w where r: "run_cands t (insert_cands ?toks ?b) (world d) = (stop, w)" by fastforce
  ultimately obtain y where "for_range 0 (length ?b) (insert_byte t ?toks) ?x = (stop, y)" "(world \<circ> snd) y = w"
    "stop \<or> tmp_ok ?b (length ?b) y"
    using gtestsD[of t "world \<circ> snd" "tmp_ok ?b 0" _ "insert_cands ?toks ?b" _ ?x stop w] by metis
  with r show ?thesis
    by (cases y; cases stop) (auto simp: stage_tests_def extras_insert_def tmp_ok_def)
qed

text \<open>Whether or not a run asks to abandon the entry, the writes stay inside \<^verbatim>\<open>ex_tmp\<close>.\<close>

definition tmp_room :: "buf \<Rightarrow> bool \<Rightarrow> buf \<times> 'w det \<Rightarrow> bool" where
  "tmp_room b f = (\<lambda>(ex_tmp, d). length ex_tmp = length b + MAX_DICT_FILE \<and> out_buf d = b \<and> oob d = f)"

lemma insert_step_room:
  assumes "i \<le> length b" "length (toks ! j) \<le> MAX_DICT_FILE" "tmp_room b f x"
  shows "tmp_room b f (snd (insert_step t toks i j x))"
proof -
  obtain ex_tmp d where x: "x = (ex_tmp, d)" "length ex_tmp = length b + MAX_DICT_FILE" "out_buf d = b" "oob d = f"
    using assms(3) by (cases x) (simp add: tmp_room_def)
  let ?m = "write_at (write_at ex_tmp i (toks ! j)) (i + length (toks ! j)) (drop i b)"
  have "length ?m = length b + MAX_DICT_FILE" using assms(1,2) x(2) by (simp add: length_write_at)
  then show ?thesis using x insert_fits[OF assms(1,2) x(2)]
    by (auto simp: tmp_room_def insert_step_def common_fuzz_def Let_def simp del: MAX_FILE_def MAX_DICT_FILE_def split: prod.splits bool.splits)
qed

lemma insert_byte_room:
  assumes "i < length b" "\<forall>tok \<in> set toks. length tok \<le> MAX_DICT_FILE" "tmp_room b f x"
  shows "tmp_room b f (snd (insert_byte t toks i x))"
proof -
  have "tmp_room b f (snd (for_range 0 (length toks) (insert_step t toks i) x))"
    by (rule for_range_always[of "tmp_room b f"], rule assms(3), rule insert_step_room) (use assms in auto)
  then show ?thesis using assms(1) by (auto simp: insert_byte_def tmp_room_def split: prod.splits bool.splits)
qed

lemma extras_insert_in_bounds:
  assumes "\<forall>x \<in> set extras. length (ex_data x) \<le> MAX_DICT_FILE"
  shows "oob (snd (extras_insert t extras d)) = oob d"
proof -
  let ?b = "out_buf d" and ?toks = "map ex_data extras"
  let ?x = "(replicate (length ?b + MAX_DICT_FILE) (0 :: u8), start_stage (int (length ?toks * length ?b)) d)"
  have "tmp_room ?b (oob d) ?x" by (simp add: tmp_room_def start_stage_def)
  then have "tmp_room ?b (oob d) (snd (for_range 0 (length ?b) (insert_byte t ?toks) ?x))"
    by (rule for_range_always[of "tmp_room ?b (oob d)"], intro insert_byte_room) (use assms in auto)
  then show ?thesis
    by (auto simp: extras_insert_def tmp_room_def finish_stage_def count_stage_def Let_def split: prod.splits bool.splits)
qed

text \<open>
  C26: inserting user tokens. With tokens of at most \<^const>\<open>MAX_DICT_FILE\<close> bytes, as the dictionary loader
  guarantees, the stage tests exactly the inputs with one token inserted before byte \<open>i\<close>, for all
  offsets and tokens whose result does not exceed \<^const>\<open>MAX_FILE\<close>; no write leaves the scratch buffer
  \<^verbatim>\<open>ex_tmp\<close>, which keeps the head of the input across iterations, also when the entry is abandoned.
\<close>

theorem extras_insert_refines:
  assumes "\<forall>x \<in> set extras. length (ex_data x) \<le> MAX_DICT_FILE"
  shows "stage_tests t (extras_insert t extras) (insert_cands (map ex_data extras) (out_buf d)) d
    \<and> oob (snd (extras_insert t extras d)) = oob d"
  using insert_stage[OF assms] extras_insert_in_bounds[OF assms] by blast


text \<open>A tester that accepts and records everything it is given.\<close>

definition recorder :: "(fuzz_op \<times> buf) list tester" where
  "recorder = \<lparr>run_test = (\<lambda>opn b w. (False, w @ [(opn, b)])), wait_all = id, symbex = id, hits = length,
     bind_eff = (\<lambda>m w. w), read_eff = (\<lambda>w. ([1, 1, 1, 1], 4)), rnd = (\<lambda>n w. (0, w))\<rparr>"

definition fresh_det :: "buf \<Rightarrow> 'w \<Rightarrow> 'w det" where
  "fresh_det b w = \<lparr>out_buf = b, stage_cur = 0, stage_max = 0, orig_hit_cnt = 0, stage_finds = (\<lambda>_. 0),
     stage_cycles = (\<lambda>_. 0), blocks_eff_select = 0, blocks_eff_total = 0, oob = False, world = w\<rparr>"

theorem extras_insert_witness:
  "stage_tests recorder (extras_insert recorder [\<lparr>ex_data = [65], hit_cnt = 0\<rparr>, \<lparr>ex_data = [66, 67], hit_cnt = 0\<rparr>])
     (insert_cands [[65], [66, 67]] [1, 2, 3]) (fresh_det [1, 2, 3] [])
   \<and> \<not> oob (snd (extras_insert recorder [\<lparr>ex_data = [65], hit_cnt = 0\<rparr>, \<lparr>ex_data = [66, 67], hit_cnt = 0\<rparr>] (fresh_det [1, 2, 3] [])))"
  using extras_insert_refines[of "[\<lparr>ex_data = [65], hit_cnt = 0\<rparr>, \<lparr>ex_data = [66, 67], hit_cnt = 0\<rparr>]" recorder "fresh_det [1, 2, 3] []"]
  by (simp add: fresh_det_def)

section \<open>The buffer at the end of the deterministic stages\<close>

definition keeps :: "buf \<Rightarrow> 'w action \<Rightarrow> bool" where
  "keeps b f \<longleftrightarrow> (\<forall>d d'. out_buf d = b \<longrightarrow> f d = (False, d') \<longrightarrow> out_buf d' = b)"

named_theorems keeps_rules \<open>actions that end with the buffer they started with\<close>

lemma keeps_andthen [keeps_rules]:
  assumes f: "keeps b f" and g: "keeps b g"
  shows "keeps b (andthen f g)"
  unfolding keeps_def
proof (intro allI impI)
  fix d d'
  assume d: "out_buf d = b" and r: "andthen f g d = (False, d')"
  obtain d1 where "f d = (False, d1)" "g d1 = (False, d')"
    using r by (cases "f d"; cases "fst (f d)") (simp_all add: andthen_def)
  with f g d show "out_buf d' = b" unfolding keeps_def by blast
qed

lemma keeps_when_len [keeps_rules]: "keeps b f \<Longrightarrow> keeps b (when_len n f)"
  unfolding keeps_def when_len_def by (metis prod.inject)

lemma keeps_if [keeps_rules]: "(P \<Longrightarrow> keeps b f) \<Longrightarrow> (\<not> P \<Longrightarrow> keeps b g) \<Longrightarrow> keeps b (if P then f else g)"
  by simp

lemma keeps_id [keeps_rules]: "keeps b (pure_step id)"
  by (simp add: keeps_def pure_step_def)

lemma stage_tests_keeps: "(\<And>d. stage_tests t f (cs d) d) \<Longrightarrow> keeps b f"
  unfolding keeps_def
proof (intro allI impI)
  fix d d'
  assume s: "\<And>d. stage_tests t f (cs d) d" and b: "out_buf d = b" and f: "f d = (False, d')"
  show "out_buf d' = b" using s[of d] b f by (auto simp: stage_tests_def split: prod.splits if_splits)
qed

lemma keeps_flip8 [keeps_rules]: "keeps b (flip8 t)"
  unfolding keeps_def
proof (intro allI impI)
  fix d d'
  assume "out_buf d = b" "flip8 t d = (False, d')"
  with flip8_refines[of t d] show "out_buf d' = b" by (auto split: prod.splits if_splits)
qed

lemma keeps_flips [keeps_rules]: "keeps b (flip1 t)" "keeps b (flip2 t)" "keeps b (flip4 t)"
  unfolding flip1_def flip2_def flip4_def by (rule stage_tests_keeps, rule walking_bits_stage, simp)+

lemmas keeps_words [keeps_rules] =
  stage_tests_keeps[OF flip16_stage] stage_tests_keeps[OF flip32_stage]
  stage_tests_keeps[OF arith8_stage] stage_tests_keeps[OF arith16_stage] stage_tests_keeps[OF arith32_stage]
  stage_tests_keeps[OF interest8_stage] stage_tests_keeps[OF interest16_stage] stage_tests_keeps[OF interest32_stage]

text \<open>
  Overwriting leaves the previous token in the buffer until the loop over the offsets moves on, and then
  restores only as many bytes as the last token had; this is enough because the tokens are sorted by length.
\<close>

definition over_inv :: "buf list \<Rightarrow> buf \<Rightarrow> nat \<Rightarrow> nat \<Rightarrow> nat \<times> 'w det \<Rightarrow> bool" where
  "over_inv toks b i j = (\<lambda>(l, d). (\<exists>x. length x = l \<and> i + l \<le> length b \<and> out_buf d = write_at b i x) \<and>
     (\<forall>k. j \<le> k \<longrightarrow> k < length toks \<longrightarrow> l \<le> length (toks ! k)))"

lemma write_at_longer:
  assumes "length x \<le> length y" "i + length x \<le> length m"
  shows "write_at (write_at m i x) i y = write_at m i y"
proof -
  have "drop (i + length y) (take i m @ x @ drop (i + length x) m) = drop (length y - length x + (i + length x)) m"
    using assms by (simp only: drop_append length_take drop_drop) simp
  moreover have "length y - length x + (i + length x) = i + length y" using assms by simp
  moreover have "take i (take i m @ x @ drop (i + length x) m) = take i m" using assms by simp
  ultimately show ?thesis unfolding write_at_def by (simp only:)
qed

lemma over_step_inv:
  assumes s: "sorted (map length toks)" and j: "j < length toks" and i: "i < length b"
    and skip: "\<And>d. out_buf (snd (skip d)) = out_buf d"
    and inv: "over_inv toks b i j (l, d)" and r: "over_step t s' skip toks eff i j (l, d) = (False, l', d')"
  shows "over_inv toks b i (Suc j) (l', d')"
proof -
  let ?tok = "toks ! j"
  obtain x where x: "length x = l" "i + l \<le> length b" "out_buf d = write_at b i x"
    and le: "\<And>k. j \<le> k \<Longrightarrow> k < length toks \<Longrightarrow> l \<le> length (toks ! k)"
    using inv by (auto simp: over_inv_def)
  obtain sk d1 where d1: "skip d = (sk, d1)" by fastforce
  have o1: "out_buf d1 = write_at b i x" using skip[of d] d1 x by simp
  have len: "length (out_buf d1) = length b" using o1 x by (simp add: length_write_at)
  have up: "length ?tok \<le> length (toks ! k)" if "Suc j \<le> k" "k < length toks" for k
    using s that by (simp add: sorted_iff_nth_mono)
  show ?thesis
  proof (cases "sk \<or> length ?tok > length (out_buf d1) - i \<or> take (length ?tok) (drop i (out_buf d1)) = ?tok \<or>
      1 \<notin> set (take (EFF_SPAN_ALEN i (length ?tok)) (drop (EFF_APOS i) eff))")
    case True
    then have "l' = l" "out_buf d' = out_buf d1" using r d1 by (auto simp: over_step_def Let_def)
    with o1 x le show ?thesis by (auto simp: over_inv_def)
  next
    case False
    then have "l' = length ?tok" "out_buf d' = write_at (out_buf d1) i ?tok"
      using r d1 by (auto simp: over_step_def Let_def common_fuzz_def set_buf_def split: prod.splits bool.splits)
    moreover have "i + length ?tok \<le> length b" using False len i by auto
    moreover have "write_at (out_buf d1) i ?tok = write_at b i ?tok"
      unfolding o1 by (rule write_at_longer) (use x le j in auto)
    ultimately show ?thesis using up by (auto simp: over_inv_def)
  qed
qed

lemma keeps_over_stage:
  assumes "sorted (map length toks)" "\<And>d. out_buf (snd (skip d)) = out_buf d"
  shows "keeps b (over_stage t s skip toks b)"
proof -
  have body: "out_buf d' = b"
    if b: "out_buf d = b" and i: "i < length b"
      and r: "for_range 0 (length toks) (over_step t s skip toks eff i) (0, d) = (False, l, d2)"
      and d': "d' = set_buf (write_at (out_buf d2) i (take l (drop i b))) d2" for eff i d d2 d' l
  proof -
    have "over_inv toks b i 0 (0, d)" using b i by (auto simp: over_inv_def write_at_def)
    then have "over_inv toks b i (length toks) (l, d2)"
      by (rule for_range_inv[OF _ _ _ r]) (use over_step_inv[OF assms(1) _ i assms(2)] in auto)
    then obtain x where "length x = l" "i + l \<le> length b" "out_buf d2 = write_at b i x"
      by (auto simp: over_inv_def)
    then show ?thesis using d' by (simp add: set_buf_def write_at_write_at write_at_self)
  qed
  show ?thesis
    unfolding keeps_def
  proof (intro allI impI)
    fix d d'
    assume b: "out_buf d = b" and r: "over_stage t s skip toks b d = (False, d')"
    let ?eff = "fst (read_eff t (world d))"
    let ?step = "\<lambda>i d. case for_range 0 (length toks) (over_step t s skip toks ?eff i) (0, d) of
                 (True, l, d) \<Rightarrow> (True, d)
               | (False, l, d) \<Rightarrow> (False, set_buf (write_at (out_buf d) i (take l (drop i b))) d)"
    let ?d0 = "start_stage (int (length toks * length (out_buf d))) d"
    obtain d2 where loop: "for_range 0 (length b) ?step ?d0 = (False, d2)" and e: "d' = finish_stage t s d2"
      using r b by (auto simp: over_stage_def window_stage_def andthen_def pure_step_def Let_def split: prod.splits bool.splits)
    have "out_buf ?d0 = b" using b by (simp add: start_stage_def)
    then have "out_buf d2 = b"
      by (rule for_range_inv[where P = "\<lambda>_ d. out_buf d = b", OF _ _ _ loop])
        (use body in \<open>auto split: prod.splits bool.splits\<close>)
    then show "out_buf d' = b" using e by simp
  qed
qed


text \<open>Without a request to abandon the entry, every stage runs to its end.\<close>

definition completes :: "('x \<Rightarrow> bool \<times> 'x) \<Rightarrow> bool" where
  "completes f \<longleftrightarrow> (\<forall>x y. f x \<noteq> (True, y))"

definition never_stops :: "'w tester \<Rightarrow> bool" where
  "never_stops t \<longleftrightarrow> (\<forall>opn b w w'. run_test t opn b w \<noteq> (True, w'))"

named_theorems completes_rules \<open>actions that do not stop early\<close>

lemma completes_andthen [completes_rules]: "completes f \<Longrightarrow> completes g \<Longrightarrow> completes (andthen f g)"
  by (auto simp: completes_def andthen_def split: prod.splits bool.splits)

lemma completes_for_range [completes_rules]:
  assumes body: "\<And>i. completes (body i)"
  shows "completes (for_range k n body)"
proof -
  have "for_range k n body x \<noteq> (True, y)" for x y
  proof (induction "n - k" arbitrary: k x)
    case (Suc m)
    then have "m = n - Suc k" "k < n" by simp_all
    with Suc.hyps(1)[of "Suc k"] body[of k] show ?case
      by (auto simp: for_range_step completes_def split: prod.splits bool.splits)
  qed simp
  then show ?thesis by (simp add: completes_def)
qed

lemma completes_pure [completes_rules]: "completes (pure_step f)"
  by (simp add: completes_def pure_step_def)

lemma completes_when_len [completes_rules]: "completes f \<Longrightarrow> completes (when_len n f)"
  by (simp add: completes_def when_len_def)

lemma run_cands_never: "never_stops t \<Longrightarrow> run_cands t cs w \<noteq> (True, w')"
proof (induction cs arbitrary: w)
  case (Cons c cs)
  then show ?case by (cases c) (auto simp: never_stops_def split: prod.splits bool.splits)
qed simp

lemma stage_tests_completes: "never_stops t \<Longrightarrow> (\<And>d. stage_tests t f (cs d) d) \<Longrightarrow> completes f"
proof -
  assume t: "never_stops t" and s: "\<And>d. stage_tests t f (cs d) d"
  have "f d \<noteq> (True, y)" for d y
    using run_cands_never[OF t, of "cs d" "world d" "world y"] s[of d] by (auto simp: stage_tests_def split: prod.splits)
  then show ?thesis by (simp add: completes_def)
qed


lemma completes_flip8: "never_stops t \<Longrightarrow> completes (flip8 t)"
proof -
  assume t: "never_stops t"
  have "flip8 t d \<noteq> (True, y)" for d y
    using flip8_refines[of t d]
      run_cands_never[OF t, of "flip8_cands (out_buf d)" "world (init_eff t (length (out_buf d)) d)" "world y"]
    by (auto split: prod.splits)
  then show ?thesis by (simp add: completes_def)
qed

lemma completes_window:
  assumes "\<And>i. completes (step i)"
  shows "completes (window_stage t s n m step)"
proof -
  have "completes (andthen (for_range 0 k step) (pure_step f))" for k f
    using assms by (intro completes_rules)
  then show ?thesis unfolding completes_def window_stage_def by blast
qed

lemma completes_over_stage:
  assumes "never_stops t"
  shows "completes (over_stage t s skip toks b)"
proof -
  have step: "completes (over_step t s skip toks eff i j)" for eff i j
    using assms by (auto simp: completes_def over_step_def common_fuzz_def never_stops_def Let_def split: prod.splits bool.splits)
  have "completes (\<lambda>d. case for_range 0 (length toks) (over_step t s skip toks eff i) (0, d) of
        (True, l, d) \<Rightarrow> (True, d) | (False, l, d) \<Rightarrow> (False, set_buf (write_at (out_buf d) i (take l (drop i b))) d))" for eff i
    using completes_for_range[of "over_step t s skip toks eff i" 0 "length toks", OF step]
    by (auto simp: completes_def split: prod.splits bool.splits)
  then have "completes (window_stage t s 1 m (\<lambda>i d. case for_range 0 (length toks) (over_step t s skip toks eff i) (0, d) of
        (True, l, d) \<Rightarrow> (True, d) | (False, l, d) \<Rightarrow> (False, set_buf (write_at (out_buf d) i (take l (drop i b))) d)))" for m eff
    by (rule completes_window)
  then show ?thesis unfolding over_stage_def Let_def by (simp add: completes_def)
qed

lemma completes_stages:
  assumes "never_stops t" "\<forall>x \<in> set extras. length (ex_data x) \<le> MAX_DICT_FILE"
  shows "completes (bitflip_stages t)" "completes (arith_stages t)" "completes (interest_stages t)"
    "completes (extras_stages t extras a_extras in_buf)"
proof -
  note st = stage_tests_completes[OF assms(1)]
  have "completes (flip1 t)" "completes (flip2 t)" "completes (flip4 t)"
    unfolding flip1_def flip2_def flip4_def by (rule st, rule walking_bits_stage, simp)+
  then show "completes (bitflip_stages t)"
    unfolding bitflip_stages_def
    by (intro completes_andthen completes_when_len completes_flip8[OF assms(1)] st[OF flip16_stage] st[OF flip32_stage])
  show "completes (arith_stages t)" unfolding arith_stages_def
    by (intro completes_andthen completes_when_len st[OF arith8_stage] st[OF arith16_stage] st[OF arith32_stage])
  show "completes (interest_stages t)" unfolding interest_stages_def
    by (intro completes_andthen completes_when_len st[OF interest8_stage] st[OF interest16_stage] st[OF interest32_stage])
  show "completes (extras_stages t extras a_extras in_buf)"
    unfolding extras_stages_def extras_over_def auto_extras_over_def
    using completes_over_stage[OF assms(1)] st[OF insert_stage[OF assms(2)]] by (simp add: completes_andthen completes_pure)
qed

lemma keeps_stages:
  assumes "sorted (map (length \<circ> ex_data) extras)" "sorted (map (length \<circ> ex_data) (take USE_AUTO_EXTRAS a_extras))"
    and "\<forall>x \<in> set extras. length (ex_data x) \<le> MAX_DICT_FILE"
  shows "keeps b (bitflip_stages t)" "keeps b (arith_stages t)" "keeps b (interest_stages t)"
    "keeps b (extras_stages t extras a_extras b)"
proof -
  show "keeps b (bitflip_stages t)" "keeps b (arith_stages t)" "keeps b (interest_stages t)"
    unfolding bitflip_stages_def arith_stages_def interest_stages_def by (intro keeps_rules)+
  have "keeps b (extras_over t extras b)" unfolding extras_over_def
    by (rule keeps_over_stage) (use assms(1) in \<open>auto simp: random_skip_def split: prod.splits\<close>)
  moreover have "keeps b (auto_extras_over t a_extras b)" unfolding auto_extras_over_def
    by (rule keeps_over_stage) (use assms(2) in auto)
  moreover have "keeps b (extras_insert t extras)" by (rule stage_tests_keeps, rule insert_stage[OF assms(3)])
  ultimately show "keeps b (extras_stages t extras a_extras b)"
    unfolding extras_stages_def by (intro keeps_rules)
qed

text \<open>
  C27: the deterministic stages as a whole. With the dictionaries sorted by length (the automatic one among
  the tokens in use), as the loader and the collector leave them, a pass over all stages either is abandoned
  on request of a run, or ends with the buffer equal to the input; if no run asks for it, it is never
  abandoned. This is what the havoc stage relies on when it starts from \<^verbatim>\<open>out_buf\<close>.
\<close>

theorem det_stages_restore:
  assumes "sorted (map (length \<circ> ex_data) extras)" "sorted (map (length \<circ> ex_data) (take USE_AUTO_EXTRAS a_extras))"
    and "\<forall>x \<in> set extras. length (ex_data x) \<le> MAX_DICT_FILE" "out_buf d = in_buf"
  shows "(case det_stages t extras a_extras in_buf d of (stop, d') \<Rightarrow> (stop \<or> out_buf d' = in_buf)) \<and>
    (never_stops t \<longrightarrow> \<not> fst (det_stages t extras a_extras in_buf d))"
proof -
  let ?f = "andthen (bitflip_stages t) (andthen (arith_stages t) (andthen (interest_stages t) (extras_stages t extras a_extras in_buf)))"
  let ?d = "d\<lparr>orig_hit_cnt := hits t (world d)\<rparr>"
  have e: "det_stages t extras a_extras in_buf d = ?f ?d" by (simp add: det_stages_def)
  have k: "keeps in_buf ?f" by (intro keeps_andthen keeps_stages[OF assms(1-3)])
  have o': "out_buf ?d = in_buf" using assms(4) by simp
  obtain stop d' where r: "?f ?d = (stop, d')" by fastforce
  then have "stop \<or> out_buf d' = in_buf" using k o' unfolding keeps_def by (cases stop) (simp, metis)
  then have "case ?f ?d of (stop, d') \<Rightarrow> stop \<or> out_buf d' = in_buf" unfolding r by simp
  moreover have "\<not> fst (?f ?d)" if "never_stops t"
  proof -
    have "completes ?f" by (intro completes_andthen completes_stages[OF that assms(3)])
    then have "?f ?d \<noteq> (True, d')" unfolding completes_def by blast
    then show ?thesis using r by (cases stop) simp_all
  qed
  ultimately show ?thesis unfolding e by blast
qed

theorem det_stages_witness:
  "out_buf (snd (det_stages recorder [\<lparr>ex_data = [65], hit_cnt = 0\<rparr>, \<lparr>ex_data = [66, 67], hit_cnt = 0\<rparr>] [] [1, 2, 3] (fresh_det [1, 2, 3] []))) = [1, 2, 3]"
  using det_stages_restore[of "[\<lparr>ex_data = [65], hit_cnt = 0\<rparr>, \<lparr>ex_data = [66, 67], hit_cnt = 0\<rparr>]" "[]" "fresh_det [1, 2, 3] []" "[1, 2, 3]" recorder]
  by (auto simp: fresh_det_def never_stops_def recorder_def split: prod.splits)

end
