(* ===== verification/Det_Redundant.thy ===== *)
theory Det_Redundant
  imports Det_Extras
begin

unbundle bit_operations_syntax

text \<open>
  What the redundancy test \<^const>\<open>could_be_bitflip\<close> accepts, and whether skipping such a replacement
  loses a test case: it does not for single bytes, but it does for words, because the bit stages walk
  most significant bit first while the test looks at a little-endian word.
\<close>

section \<open>The patterns accepted\<close>

lemma strip_zeros_push:
  fixes y :: u32
  assumes "bit y 0" "n + m \<le> 32" "y = mask m"
  shows "strip_zeros (push_bit n y) sh = (y, sh + n)"
  using assms(2)
proof (induction n arbitrary: sh)
  case 0
  have "y AND 1 = 1" using assms(1) by (simp add: and_one_eq odd_iff_mod_2_eq_one bit_0)
  then show ?case by (subst strip_zeros.simps) auto
next
  case (Suc n)
  have n: "bit (push_bit (Suc n) y) (Suc n)" using Suc.prems assms by (simp add: bit_push_bit_iff bit_mask_iff del: push_bit_Suc)
  then have "push_bit (Suc n) y \<noteq> 0" by (auto simp del: push_bit_Suc)
  moreover have "push_bit (Suc n) y AND 1 = 0" by (rule bit_word_eqI) (auto simp: bit_simps simp del: push_bit_Suc)
  moreover have "drop_bit 1 (push_bit (Suc n) y) = push_bit n y"
    using Suc.prems assms(3) by (intro bit_word_eqI) (auto simp: bit_simps simp del: push_bit_Suc)
  ultimately have "strip_zeros (push_bit (Suc n) y) sh = strip_zeros (push_bit n y) (Suc sh)"
    by (subst strip_zeros.simps) simp
  then show ?case using Suc by simp
qed

lemma strip_zeros_ex:
  fixes x :: u32
  shows "x \<noteq> 0 \<Longrightarrow> \<exists>n y. strip_zeros x sh = (y, sh + n) \<and> x = push_bit n y \<and> drop_bit n x = y \<and> n < 32"
proof (induction x sh rule: strip_zeros.induct)
  case (1 x sh)
  show ?case
  proof (cases "x AND 1 = 0")
    case True
    have b0: "\<not> bit x 0" using True by (metis and_one_eq bit_0 even_iff_mod_2_eq_zero)
    have e: "x = push_bit 1 (drop_bit 1 x)"
    proof (rule bit_word_eqI)
      fix k assume "k < LENGTH(32)"
      then show "bit x k = bit (push_bit 1 (drop_bit 1 x)) k" using b0 by (cases k) (simp_all add: bit_simps del: push_bit_Suc)
    qed
    then have nz: "drop_bit 1 x \<noteq> 0" using "1.prems" by force
    have "\<not> (x = 0 \<or> x AND 1 \<noteq> 0)" using True "1.prems" by simp
    from "1.IH"[OF this nz] obtain n y where ny: "strip_zeros (drop_bit 1 x) (Suc sh) = (y, Suc sh + n)"
      "drop_bit 1 x = push_bit n y" "drop_bit n (drop_bit 1 x) = y" "n < 32" by blast
    have "strip_zeros x sh = (y, sh + Suc n)"
      using ny(1) True "1.prems" by (subst strip_zeros.simps) simp
    moreover have x: "x = push_bit (Suc n) y" using e unfolding ny(2) push_bit_push_bit by simp
    moreover have "drop_bit (Suc n) x = y" using ny(3) by (simp add: drop_bit_drop_bit add.commute)
    moreover have "Suc n < 32"
    proof (rule ccontr)
      assume "\<not> Suc n < 32"
      then have "x = 0" using x ny(4) by (intro bit_word_eqI) (auto simp: bit_simps simp del: push_bit_Suc)
      with "1.prems" show False ..
    qed
    ultimately show ?thesis by blast
  next
    case False
    then have "strip_zeros x sh = (x, sh + 0)" by (subst strip_zeros.simps) simp
    then show ?thesis by (intro exI[of _ "0::nat"] exI[of _ x] conjI) simp_all
  qed
qed

lemma mask_vals: "(mask 1 :: u32) = 1" "(mask 2 :: u32) = 3" "(mask 4 :: u32) = 15" "(mask 8 :: u32) = 0xff"
  "(mask 16 :: u32) = 0xffff" "(mask 32 :: u32) = 0xffffffff"
  by (simp_all add: mask_eq_exp_minus_1)

lemma push_mask_room:
  fixes x :: u32
  assumes "x = push_bit n (mask m)" "drop_bit n x = mask m" "m \<le> 32" "0 < m"
  shows "n + m \<le> 32"
proof (rule ccontr)
  assume "\<not> n + m \<le> 32"
  then have "\<not> bit (drop_bit n x) (m - 1)" using assms(3,4)
    using bit_imp_le_length[of x "n + (m - 1)"] by (auto simp: bit_drop_bit_eq)
  moreover have "bit (mask m :: u32) (m - 1)" using assms(3,4) by (simp add: bit_mask_iff)
  ultimately show False using assms(2) by simp
qed


lemma could_be_bitflip_push:
  assumes "x = push_bit n (mask m)" "n + m \<le> 32" "m \<in> {1, 2, 4} \<or> (m \<in> {8, 16, 32} \<and> n mod 8 = 0)"
  shows "could_be_bitflip x"
proof (cases "x = 0")
  case False
  have "bit (mask m :: u32) 0" using assms(3) by (auto simp: bit_mask_iff)
  then have "strip_zeros x 0 = (mask m, n)" using strip_zeros_push[of "mask m" n m 0] assms(1,2) by simp
  with False assms(3) show ?thesis
    unfolding could_be_bitflip_def by (auto simp: mask_vals mask_vals[unfolded One_nat_def])
qed (simp add: could_be_bitflip_def)

lemma could_be_bitflip_cases:
  assumes "could_be_bitflip x" "x \<noteq> 0"
  obtains n m where "x = push_bit n (mask m)" "n + m \<le> 32" "m \<in> {1, 2, 4} \<or> (m \<in> {8, 16, 32} \<and> n mod 8 = 0)"
proof -
  obtain n y where ny: "strip_zeros x 0 = (y, n)" "x = push_bit n y" "drop_bit n x = y"
    using strip_zeros_ex[OF assms(2), of 0] unfolding add_0 by blast
  have "y \<in> mask ` {1, 2, 4} \<or> (y \<in> mask ` {8, 16, 32} \<and> n mod 8 = 0)"
    using assms ny(1) by (auto simp: could_be_bitflip_def mask_vals mask_vals[unfolded One_nat_def] split: if_splits)
  then obtain m where m: "y = mask m" "m \<in> {1, 2, 4} \<or> (m \<in> {8, 16, 32} \<and> n mod 8 = 0)"
  proof (elim disjE conjE imageE)
    fix m
    assume "y = mask m" "m \<in> {1, 2, 4}"
    then show thesis by (intro that[of m] disjI1)
  next
    fix m
    assume "y = mask m" "m \<in> {8, 16, 32}" "n mod 8 = 0"
    then show thesis by (intro that[of m] disjI2 conjI)
  qed
  have "n + m \<le> 32" by (rule push_mask_room[of x]) (use ny m in auto)
  then show thesis using m ny(2) by (intro that) simp_all
qed

lemma could_be_bitflip_iff:
  "could_be_bitflip x \<longleftrightarrow> x = 0 \<or> (\<exists>n m. x = push_bit n (mask m) \<and> n + m \<le> 32 \<and>
      (m \<in> {1, 2, 4} \<or> (m \<in> {8, 16, 32} \<and> n mod 8 = 0)))" (is "_ \<longleftrightarrow> _ \<or> ?R")
proof
  assume c: "could_be_bitflip x"
  show "x = 0 \<or> ?R"
  proof (cases "x = 0")
    case False
    obtain n m where "x = push_bit n (mask m)" "n + m \<le> 32" "m \<in> {1, 2, 4} \<or> (m \<in> {8, 16, 32} \<and> n mod 8 = 0)"
      using could_be_bitflip_cases[OF c False] .
    then have "x = push_bit n (mask m) \<and> n + m \<le> 32 \<and> (m \<in> {1, 2, 4} \<or> (m \<in> {8, 16, 32} \<and> n mod 8 = 0))"
      by (rule conjI[OF _ conjI])
    then show ?thesis by (intro disjI2 exI)
  qed simp
next
  assume "x = 0 \<or> ?R"
  then show "could_be_bitflip x"
  proof
    assume ?R
    then obtain n m where "x = push_bit n (mask m)" "n + m \<le> 32" "m \<in> {1, 2, 4} \<or> (m \<in> {8, 16, 32} \<and> n mod 8 = 0)"
      by (elim exE conjE)
    then show ?thesis by (rule could_be_bitflip_push)
  qed (simp add: could_be_bitflip_def)
qed

section \<open>Single bytes\<close>

lemma flip_run_byte:
  assumes i: "i < length b" and nm: "n + m \<le> 8" and x: "b ! i XOR v = push_bit n (mask m)"
  shows "flip_run m b (8 * i + (8 - n - m)) = b[i := v]"
proof (rule abit_eqI)
  fix k
  assume k: "k < 8 * length (flip_run m b (8 * i + (8 - n - m)))"
  let ?p = "8 * i + (8 - n - m)"
  have l: "?p + m \<le> 8 * length b" using i nm by simp
  have v: "v = b ! i XOR push_bit n (mask m)" unfolding x[symmetric] by (simp flip: xor.assoc)
  have "abit (flip_run m b ?p) k = (abit b k \<noteq> (?p \<le> k \<and> k < ?p + m))"
    using l k by (intro abit_flip_run) simp_all
  also have "(?p \<le> k \<and> k < ?p + m) = (k div 8 = i \<and> n \<le> 7 - k mod 8 \<and> 7 - k mod 8 < n + m)"
  proof (cases "k div 8 = i")
    case True
    then have "k = 8 * i + k mod 8" "k mod 8 < 8" using div_mult_mod_eq[of k 8] by auto
    with True nm show ?thesis by linarith
  next
    case False
    then have "k < 8 * i \<or> 8 * i + 8 \<le> k" by auto
    with False nm show ?thesis by auto
  qed
  also have "(abit b k \<noteq> \<dots>) = abit (b[i := v]) k"
    using k i v nm by (auto simp: abit_def nth_list_update bit_simps)
  finally show "abit (flip_run m b ?p) k = abit (b[i := v]) k" .
qed simp


lemma mask_byte_room:
  assumes "ucast (x :: u8) = push_bit n (mask m :: u32)" "n + m \<le> 32" "0 < m"
  shows "n + m \<le> 8" "x = push_bit n (mask m)"
proof -
  have b: "bit x k = bit (push_bit n (mask m :: u32)) k" if "k < 8" for k
    using that unfolding assms(1)[symmetric] by (simp add: bit_ucast_iff)
  have "bit (push_bit n (mask m :: u32)) (n + m - 1)" using assms(2,3) by (auto simp: bit_push_bit_iff bit_mask_iff)
  then have "bit x (n + m - 1)" unfolding assms(1)[symmetric] by (simp add: bit_ucast_iff)
  from bit_imp_le_length[OF this] show "n + m \<le> 8" by simp
  show "x = push_bit n (mask m)" by (rule bit_word_eqI) (auto simp: b bit_simps)
qed

lemma ucast_xor_nz:
  fixes u v :: u8
  assumes "u \<noteq> v"
  shows "(ucast (u XOR v) :: u32) \<noteq> 0"
proof
  assume z: "(ucast (u XOR v) :: u32) = 0"
  have "u = v"
  proof (rule bit_word_eqI)
    fix k
    assume "k < LENGTH(8)"
    then have "bit (ucast (u XOR v) :: u32) k = (bit u k \<noteq> bit v k)" by (simp add: bit_ucast_iff bit_xor_iff)
    with z show "bit u k = bit v k" by simp
  qed
  with assms show False ..
qed

text \<open>
  C28: the redundancy test of the arithmetic stage is exact on patterns and safe on bytes. It accepts a
  difference exactly if this is zero, a run of 1, 2 or 4 bits anywhere, or 1, 2 or 4 whole bytes; and if it
  accepts the difference between a byte and its replacement, then the input with this replacement is the input
  itself or has been tested by one of the bit and byte flips, so the 8-bit stage skips nothing new.
\<close>

theorem byte_skips_sound:
  "(could_be_bitflip x \<longleftrightarrow> x = 0 \<or> (\<exists>n m. x = push_bit n (mask m) \<and> n + m \<le> 32 \<and>
      (m \<in> {1, 2, 4} \<or> (m \<in> {8, 16, 32} \<and> n mod 8 = 0)))) \<and>
   (i < length b \<and> could_be_bitflip (ucast (b ! i XOR v)) \<longrightarrow> b[i := v] = b \<or>
      b[i := v] \<in> snd ` set (flip_cands STAGE_FLIP1 1 b @ flip_cands STAGE_FLIP2 2 b @ flip_cands STAGE_FLIP4 4 b @ flip8_cands b))"
proof (intro conjI impI)
  show "could_be_bitflip x \<longleftrightarrow> x = 0 \<or> (\<exists>n m. x = push_bit n (mask m) \<and> n + m \<le> 32 \<and>
      (m \<in> {1, 2, 4} \<or> (m \<in> {8, 16, 32} \<and> n mod 8 = 0)))"
    by (rule could_be_bitflip_iff)
  assume a: "i < length b \<and> could_be_bitflip (ucast (b ! i XOR v))"
  show "b[i := v] = b \<or> b[i := v] \<in> snd ` set (flip_cands STAGE_FLIP1 1 b @ flip_cands STAGE_FLIP2 2 b @ flip_cands STAGE_FLIP4 4 b @ flip8_cands b)"
  proof (cases "b ! i = v")
    case True
    then show ?thesis by auto
  next
    case False
    then have "(ucast (b ! i XOR v) :: u32) \<noteq> 0" by (rule ucast_xor_nz)
    then obtain n m where nm: "ucast (b ! i XOR v) = push_bit n (mask m :: u32)" "n + m \<le> 32"
      "m \<in> {1, 2, 4} \<or> (m \<in> {8, 16, 32} \<and> n mod 8 = 0)"
      using could_be_bitflip_cases[OF conjunct2[OF a]] by blast
    then have m0: "0 < m" by auto
    note r = mask_byte_room[OF nm(1,2) m0]
    have l: "8 * i + (8 - n - m) < length b * 8 + 1 - m" using a r(1) m0 by auto
    have "flip_run m b (8 * i + (8 - n - m)) = b[i := v]" using a r by (intro flip_run_byte) auto
    then have f: "inverted m b (8 * i + (8 - n - m)) = b[i := v]" using l flip_run_inverted[of "8 * i + (8 - n - m)" m b] by simp
    show ?thesis
    proof (cases "m = 8")
      case True
      with r have "b ! i XOR v = 0xFF" by (simp add: mask_eq_exp_minus_1)
      then have "b ! i XOR (b ! i XOR v) = b ! i XOR 0xFF" by simp
      then have "v = b ! i XOR 0xFF" by (simp flip: xor.assoc)
      then have "b[i := v] \<in> snd ` set (flip8_cands b)"
        unfolding flip8_cands_def set_map image_image snd_conv using a by (intro image_eqI[where x = i]) auto
      then show ?thesis unfolding set_append image_Un by blast
    next
      case False
      then have m: "m = 1 \<or> m = 2 \<or> m = 4" using nm(3) r(1) by auto
      have "b[i := v] \<in> snd ` set (flip_cands s m b)" for s
        unfolding flip_cands_def set_map image_image snd_conv
        by (rule image_eqI[where x = "8 * i + (8 - n - m)"]) (use f l in auto)
      with m show ?thesis unfolding set_append image_Un by blast
    qed
  qed
qed


lemma could_be_bitflip_1: "could_be_bitflip 1"
  by (rule could_be_bitflip_push[of _ 0 1]) (simp_all add: mask_vals[unfolded One_nat_def])

theorem byte_skips_witness:
  "[0xE1] \<in> snd ` set (flip_cands STAGE_FLIP1 1 [0xE0] @ flip_cands STAGE_FLIP2 2 [0xE0] @ flip_cands STAGE_FLIP4 4 [0xE0] @ flip8_cands [0xE0])"
  using conjunct2[OF byte_skips_sound[of 0 0 "[0xE0]" "0xE1"]] could_be_bitflip_1 by simp

section \<open>Words\<close>

lemma cand_ifE:
  assumes "c \<in> set (cand_if P opn b)"
  obtains "P" "c = (opn, b)"
  using assms by (auto simp: cand_if_def split: if_splits)

lemma one_cell_cands:
  assumes "(opn, o') \<in> set (arith8_cands eff b) \<union> set (interest8_cands eff b)"
  shows "\<exists>i v. o' = b[i := v]"
  using assms by (auto simp: arith8_cands_def interest8_cands_def arith8_at_def interest8_at_def Let_def
      elim!: cand_ifE split: if_splits simp del: upt_Suc)

lemma word_cands_fresh:
  assumes "(opn, o') \<in> set (arith16_cands eff b) \<union> set (interest16_cands eff b)"
  shows "\<exists>i v. i + 1 < length b \<and> o' = store16 b i v \<and> \<not> could_be_bitflip (ucast (load16 b i XOR v))"
  using assms by (auto simp: arith16_cands_def interest16_cands_def arith16_at_def interest16_at_def Let_def less_diff_conv
      elim!: cand_ifE split: if_splits simp del: upt_Suc)

text \<open>
  C29: the same test loses inputs of the word stages. For the two-byte input \<^verbatim>\<open>E0 00\<close>, adding 32 to the
  little-endian word carries into the second byte and gives \<^verbatim>\<open>00 01\<close>; the difference, hexadecimal 1E0, is four adjacent
  bits of the word, so the replacement is skipped as a product of a bit flip. But in the buffer these four bits
  are not adjacent in the order of the bit stages: none of the bit flip, arithmetic and interesting value stages that apply to
  two bytes tests \<^verbatim>\<open>00 01\<close>, not even with the interesting values 256 and, byte-swapped, 1, which are skipped for the same
  reason. (The stages with dictionary tokens are not considered.)
\<close>

theorem word_skip_gap:
  "unat (load16 [0xE0, 0] 0 AND 0xff) + 32 > 0xff \<and> store16 [0xE0, 0] 0 (load16 [0xE0, 0] 0 + 32) = [0, 1] \<and>
   [0, 1] \<notin> snd ` (set (flip_cands STAGE_FLIP1 1 [0xE0, 0] @ flip_cands STAGE_FLIP2 2 [0xE0, 0] @
       flip_cands STAGE_FLIP4 4 [0xE0, 0] @ flip8_cands [0xE0, 0]) \<union>
     set (flip16_cands [1] [0xE0, 0]) \<union> set (arith8_cands [1] [0xE0, 0]) \<union> set (arith16_cands [1] [0xE0, 0]) \<union>
     set (interest8_cands [1] [0xE0, 0]) \<union> set (interest16_cands [1] [0xE0, 0]))"
proof (intro conjI)
  show "unat (load16 [0xE0, 0] 0 AND 0xff) + 32 > 0xff" "store16 [0xE0, 0] 0 (load16 [0xE0, 0] 0 + 32) = [0, 1]"
    by code_simp+
  have "[0, 1] \<notin> set (map snd (flip_cands STAGE_FLIP1 1 [0xE0, 0] @ flip_cands STAGE_FLIP2 2 [0xE0, 0] @
       flip_cands STAGE_FLIP4 4 [0xE0, 0] @ flip8_cands [0xE0, 0] @ flip16_cands [1] [0xE0, 0]))"
    by code_simp
  then have 1: "[0, 1] \<notin> snd ` (set (flip_cands STAGE_FLIP1 1 [0xE0, 0] @ flip_cands STAGE_FLIP2 2 [0xE0, 0] @
       flip_cands STAGE_FLIP4 4 [0xE0, 0] @ flip8_cands [0xE0, 0]) \<union> set (flip16_cands [1] [0xE0, 0]))"
    by auto
  have 2: "(opn, [0, 1]) \<notin> set (arith8_cands [1] [0xE0, 0]) \<union> set (interest8_cands [1] [0xE0, 0])" for opn
  proof
    assume "(opn, [0, 1]) \<in> set (arith8_cands [1] [0xE0, 0]) \<union> set (interest8_cands [1] [0xE0, 0])"
    from one_cell_cands[OF this] obtain i and v :: u8 where "[0, 1] = [0xE0, 0][i := v]" by blast
    then show False by (cases i) (auto split: nat.splits)
  qed
  have 3: "(opn, [0, 1]) \<notin> set (arith16_cands [1] [0xE0, 0]) \<union> set (interest16_cands [1] [0xE0, 0])" for opn
  proof
    assume "(opn, [0, 1]) \<in> set (arith16_cands [1] [0xE0, 0]) \<union> set (interest16_cands [1] [0xE0, 0])"
    from word_cands_fresh[OF this] obtain v where v: "[0, 1] = store16 [0xE0, 0] 0 v"
      "\<not> could_be_bitflip (ucast (load16 [0xE0, 0] 0 XOR v))" by auto
    have "v = load16 (store16 [0xE0, 0] 0 v) 0" by (simp add: u16_cell.get_put)
    also have "\<dots> = 0x100" unfolding v(1)[symmetric] by code_simp
    finally have "(ucast (load16 [0xE0, 0] 0 XOR v) :: u32) = push_bit 5 (mask 4)" by (simp only:) code_simp
    then have "could_be_bitflip (ucast (load16 [0xE0, 0] 0 XOR v))" by (rule could_be_bitflip_push) simp_all
    with v(2) show False ..
  qed
  from 1 2 3 show "[0, 1] \<notin> snd ` (set (flip_cands STAGE_FLIP1 1 [0xE0, 0] @ flip_cands STAGE_FLIP2 2 [0xE0, 0] @
       flip_cands STAGE_FLIP4 4 [0xE0, 0] @ flip8_cands [0xE0, 0]) \<union>
     set (flip16_cands [1] [0xE0, 0]) \<union> set (arith8_cands [1] [0xE0, 0]) \<union> set (arith16_cands [1] [0xE0, 0]) \<union>
     set (interest8_cands [1] [0xE0, 0]) \<union> set (interest16_cands [1] [0xE0, 0]))"
    unfolding image_Un by force
qed

end
