(* ===== verification/Havoc.thy ===== *)
theory Havoc
  imports Det Rng
begin

unbundle bit_operations_syntax

text \<open>
  The random stages of \<^verbatim>\<open>fuzz_one\<close>: the seventeen stacked tweaks of the havoc stage and the stage
  itself. The buffer is modelled with its allocation, which may be longer than \<^verbatim>\<open>temp_len\<close>, so that every
  access is checked; \<^term>\<open>None\<close> stands for a run the processor stops, by an access outside the allocation or a
  remainder by zero. Where C leaves the order of two random choices open, the left one comes first.
\<close>

section \<open>The buffer\<close>

record mutbuf =
  mem :: buf
  temp_len :: nat

type_synonym 'r source = "nat \<Rightarrow> 'r \<Rightarrow> (nat \<times> 'r) option"

definition slice :: "buf \<Rightarrow> nat \<Rightarrow> nat \<Rightarrow> buf option" where
  "slice m i n = (if i + n \<le> length m then Some (take n (drop i m)) else None)"

definition upd8 :: "nat \<Rightarrow> (u8 \<Rightarrow> u8) \<Rightarrow> mutbuf \<Rightarrow> mutbuf option" where
  "upd8 i f b = (if i < length (mem b) then Some (b\<lparr>mem := (mem b)[i := f (mem b ! i)]\<rparr>) else None)"

definition upd16 :: "nat \<Rightarrow> (u16 \<Rightarrow> u16) \<Rightarrow> mutbuf \<Rightarrow> mutbuf option" where
  "upd16 i f b = (if i + 2 \<le> length (mem b) then Some (b\<lparr>mem := store16 (mem b) i (f (load16 (mem b) i))\<rparr>) else None)"

definition upd32 :: "nat \<Rightarrow> (u32 \<Rightarrow> u32) \<Rightarrow> mutbuf \<Rightarrow> mutbuf option" where
  "upd32 i f b = (if i + 4 \<le> length (mem b) then Some (b\<lparr>mem := store32 (mem b) i (f (load32 (mem b) i))\<rparr>) else None)"

section \<open>Tweaks that keep the length\<close>

definition tweak_flip :: "'r source \<Rightarrow> mutbuf \<Rightarrow> 'r \<Rightarrow> (mutbuf \<times> 'r) option" where
  "tweak_flip ur b r = do {
     (p, r) \<leftarrow> ur (temp_len b * 8) r;
     b \<leftarrow> upd8 (p div 8) (\<lambda>x. x XOR drop_bit (p mod 8) 128) b;
     Some (b, r)
   }"

definition tweak_interest8 :: "'r source \<Rightarrow> mutbuf \<Rightarrow> 'r \<Rightarrow> (mutbuf \<times> 'r) option" where
  "tweak_interest8 ur b r = do {
     (i, r) \<leftarrow> ur (temp_len b) r;
     (j, r) \<leftarrow> ur (length interesting_8) r;
     b \<leftarrow> upd8 i (\<lambda>_. interesting_8 ! j) b;
     Some (b, r)
   }"

definition tweak_interest16 :: "'r source \<Rightarrow> mutbuf \<Rightarrow> 'r \<Rightarrow> (mutbuf \<times> 'r) option" where
  "tweak_interest16 ur b r = (if temp_len b < 2 then Some (b, r) else do {
     (c, r) \<leftarrow> ur 2 r;
     (i, r) \<leftarrow> ur (temp_len b - 1) r;
     (j, r) \<leftarrow> ur (length interesting_16) r;
     b \<leftarrow> upd16 i (\<lambda>_. if c \<noteq> 0 then interesting_16 ! j else SWAP16 (interesting_16 ! j)) b;
     Some (b, r)
   })"

definition tweak_interest32 :: "'r source \<Rightarrow> mutbuf \<Rightarrow> 'r \<Rightarrow> (mutbuf \<times> 'r) option" where
  "tweak_interest32 ur b r = (if temp_len b < 4 then Some (b, r) else do {
     (c, r) \<leftarrow> ur 2 r;
     (i, r) \<leftarrow> ur (temp_len b - 3) r;
     (j, r) \<leftarrow> ur (length interesting_32) r;
     b \<leftarrow> upd32 i (\<lambda>_. if c \<noteq> 0 then interesting_32 ! j else SWAP32 (interesting_32 ! j)) b;
     Some (b, r)
   })"

text \<open>Addition and subtraction differ only in \<open>f\<close>.\<close>

definition tweak_arith8 :: "(u8 \<Rightarrow> u8 \<Rightarrow> u8) \<Rightarrow> 'r source \<Rightarrow> mutbuf \<Rightarrow> 'r \<Rightarrow> (mutbuf \<times> 'r) option" where
  "tweak_arith8 f ur b r = do {
     (i, r) \<leftarrow> ur (temp_len b) r;
     (j, r) \<leftarrow> ur ARITH_MAX r;
     b \<leftarrow> upd8 i (\<lambda>x. f x (word_of_nat (1 + j))) b;
     Some (b, r)
   }"

definition tweak_arith16 :: "(u16 \<Rightarrow> u16 \<Rightarrow> u16) \<Rightarrow> 'r source \<Rightarrow> mutbuf \<Rightarrow> 'r \<Rightarrow> (mutbuf \<times> 'r) option" where
  "tweak_arith16 f ur b r = (if temp_len b < 2 then Some (b, r) else do {
     (c, r) \<leftarrow> ur 2 r;
     (i, r) \<leftarrow> ur (temp_len b - 1) r;
     (j, r) \<leftarrow> ur ARITH_MAX r;
     b \<leftarrow> upd16 i (\<lambda>x. if c \<noteq> 0 then f x (word_of_nat (1 + j)) else SWAP16 (f (SWAP16 x) (word_of_nat (1 + j)))) b;
     Some (b, r)
   })"

definition tweak_arith32 :: "(u32 \<Rightarrow> u32 \<Rightarrow> u32) \<Rightarrow> 'r source \<Rightarrow> mutbuf \<Rightarrow> 'r \<Rightarrow> (mutbuf \<times> 'r) option" where
  "tweak_arith32 f ur b r = (if temp_len b < 4 then Some (b, r) else do {
     (c, r) \<leftarrow> ur 2 r;
     (i, r) \<leftarrow> ur (temp_len b - 3) r;
     (j, r) \<leftarrow> ur ARITH_MAX r;
     b \<leftarrow> upd32 i (\<lambda>x. if c \<noteq> 0 then f x (word_of_nat (1 + j)) else SWAP32 (f (SWAP32 x) (word_of_nat (1 + j)))) b;
     Some (b, r)
   })"

definition tweak_xor :: "'r source \<Rightarrow> mutbuf \<Rightarrow> 'r \<Rightarrow> (mutbuf \<times> 'r) option" where
  "tweak_xor ur b r = do {
     (i, r) \<leftarrow> ur (temp_len b) r;
     (v, r) \<leftarrow> ur 255 r;
     b \<leftarrow> upd8 i (\<lambda>x. x XOR word_of_nat (1 + v)) b;
     Some (b, r)
   }"

section \<open>Tweaks on blocks\<close>

text \<open>What the block tweaks read of the fuzzer's state.\<close>

record henv =
  queue_cycle :: nat
  run_over10m :: bool
  extras :: "extra_data list"
  a_extras :: "extra_data list"

definition block_len :: "henv \<Rightarrow> 'r source \<Rightarrow> nat \<Rightarrow> 'r \<Rightarrow> (nat \<times> 'r) option" where
  "block_len e ur limit r = choose_block_len ur (queue_cycle e) (run_over10m e) limit r"

definition tweak_delete :: "henv \<Rightarrow> 'r source \<Rightarrow> mutbuf \<Rightarrow> 'r \<Rightarrow> (mutbuf \<times> 'r) option" where
  "tweak_delete e ur b r = (if temp_len b < 2 then Some (b, r) else do {
     (del_len, r) \<leftarrow> block_len e ur (temp_len b - 1) r;
     (del_from, r) \<leftarrow> ur (temp_len b - del_len + 1) r;
     tail \<leftarrow> slice (mem b) (del_from + del_len) (temp_len b - del_from - del_len);
     m \<leftarrow> put_at (mem b) del_from tail;
     Some (b\<lparr>mem := m, temp_len := temp_len b - del_len\<rparr>, r)
   })"

definition tweak_clone :: "henv \<Rightarrow> 'r source \<Rightarrow> mutbuf \<Rightarrow> 'r \<Rightarrow> (mutbuf \<times> 'r) option" where
  "tweak_clone e ur b r = (if temp_len b + HAVOC_BLK_LARGE < MAX_FILE then do {
     (clone_len, r) \<leftarrow> block_len e ur (temp_len b) r;
     (clone_from, r) \<leftarrow> ur (temp_len b - clone_len + 1) r;
     (clone_to, r) \<leftarrow> ur (temp_len b) r;
     let new_buf = replicate (temp_len b + clone_len) 0;
     head \<leftarrow> slice (mem b) 0 clone_to;
     new_buf \<leftarrow> put_at new_buf 0 head;
     (c, r) \<leftarrow> ur 4 r;
     (ins, r) \<leftarrow> (if c \<noteq> 0 then do { x \<leftarrow> slice (mem b) clone_from clone_len; Some (x, r) }
                  else do { (v, r) \<leftarrow> ur 256 r; Some (replicate clone_len (word_of_nat v), r) });
     new_buf \<leftarrow> put_at new_buf clone_to ins;
     tail \<leftarrow> slice (mem b) clone_to (temp_len b - clone_to);
     new_buf \<leftarrow> put_at new_buf (clone_to + clone_len) tail;
     Some (\<lparr>mem = new_buf, temp_len = temp_len b + clone_len\<rparr>, r)
   } else Some (b, r))"

definition tweak_overwrite :: "henv \<Rightarrow> 'r source \<Rightarrow> mutbuf \<Rightarrow> 'r \<Rightarrow> (mutbuf \<times> 'r) option" where
  "tweak_overwrite e ur b r = (if temp_len b < 2 then Some (b, r) else do {
     (copy_len, r) \<leftarrow> block_len e ur (temp_len b - 1) r;
     (copy_from, r) \<leftarrow> ur (temp_len b - copy_len + 1) r;
     (copy_to, r) \<leftarrow> ur (temp_len b - copy_len + 1) r;
     (c, r) \<leftarrow> ur 4 r;
     if c \<noteq> 0 then
       (if copy_from \<noteq> copy_to then do {
          x \<leftarrow> slice (mem b) copy_from copy_len;
          m \<leftarrow> put_at (mem b) copy_to x;
          Some (b\<lparr>mem := m\<rparr>, r)
        } else Some (b, r))
     else do {
       (v, r) \<leftarrow> ur 256 r;
       m \<leftarrow> put_at (mem b) copy_to (replicate copy_len (word_of_nat v));
       Some (b\<lparr>mem := m\<rparr>, r)
     }
   })"

text \<open>Choice of a token: an automatic one without user tokens, else one of the two kinds at random.\<close>

definition pick_extra :: "henv \<Rightarrow> 'r source \<Rightarrow> 'r \<Rightarrow> (buf \<times> 'r) option" where
  "pick_extra e ur r = do {
     (auto, r) \<leftarrow> (if extras e = [] then Some (True, r)
                   else if a_extras e = [] then Some (False, r)
                   else do { (c, r) \<leftarrow> ur 2 r; Some (c \<noteq> 0, r) });
     let xs = (if auto then a_extras e else extras e);
     (i, r) \<leftarrow> ur (length xs) r;
     Some (ex_data (xs ! i), r)
   }"

definition tweak_extra_over :: "henv \<Rightarrow> 'r source \<Rightarrow> mutbuf \<Rightarrow> 'r \<Rightarrow> (mutbuf \<times> 'r) option" where
  "tweak_extra_over e ur b r = do {
     (tok, r) \<leftarrow> pick_extra e ur r;
     if length tok > temp_len b then Some (b, r) else do {
       (insert_at, r) \<leftarrow> ur (temp_len b - length tok + 1) r;
       m \<leftarrow> put_at (mem b) insert_at tok;
       Some (b\<lparr>mem := m\<rparr>, r)
     }
   }"

definition tweak_extra_insert :: "henv \<Rightarrow> 'r source \<Rightarrow> mutbuf \<Rightarrow> 'r \<Rightarrow> (mutbuf \<times> 'r) option" where
  "tweak_extra_insert e ur b r = do {
     (insert_at, r) \<leftarrow> ur (temp_len b) r;
     (tok, r) \<leftarrow> pick_extra e ur r;
     if temp_len b + length tok \<ge> MAX_FILE then Some (b, r) else do {
       let new_buf = replicate (temp_len b + length tok) 0;
       head \<leftarrow> slice (mem b) 0 insert_at;
       new_buf \<leftarrow> put_at new_buf 0 head;
       new_buf \<leftarrow> put_at new_buf insert_at tok;
       tail \<leftarrow> slice (mem b) insert_at (temp_len b - insert_at);
       new_buf \<leftarrow> put_at new_buf (insert_at + length tok) tail;
       Some (\<lparr>mem = new_buf, temp_len = temp_len b + length tok\<rparr>, r)
     }
   }"

section \<open>Stacking\<close>

definition tweak :: "henv \<Rightarrow> 'r source \<Rightarrow> nat \<Rightarrow> mutbuf \<Rightarrow> 'r \<Rightarrow> (mutbuf \<times> 'r) option" where
  "tweak e ur n =
     (if n = 0 then tweak_flip ur
      else if n = 1 then tweak_interest8 ur
      else if n = 2 then tweak_interest16 ur
      else if n = 3 then tweak_interest32 ur
      else if n = 4 then tweak_arith8 (-) ur
      else if n = 5 then tweak_arith8 (+) ur
      else if n = 6 then tweak_arith16 (-) ur
      else if n = 7 then tweak_arith16 (+) ur
      else if n = 8 then tweak_arith32 (-) ur
      else if n = 9 then tweak_arith32 (+) ur
      else if n = 10 then tweak_xor ur
      else if n = 11 \<or> n = 12 then tweak_delete e ur
      else if n = 13 then tweak_clone e ur
      else if n = 14 then tweak_overwrite e ur
      else if n = 15 then tweak_extra_over e ur
      else tweak_extra_insert e ur)"

fun stack_tweaks :: "henv \<Rightarrow> 'r source \<Rightarrow> nat \<Rightarrow> mutbuf \<Rightarrow> 'r \<Rightarrow> (mutbuf \<times> 'r) option" where
  "stack_tweaks e ur 0 b r = Some (b, r)"
| "stack_tweaks e ur (Suc k) b r = do {
     (n, r) \<leftarrow> ur (15 + (if extras e = [] \<and> a_extras e = [] then 0 else 2)) r;
     (b, r) \<leftarrow> tweak e ur n b r;
     stack_tweaks e ur k b r
   }"

definition mutate :: "henv \<Rightarrow> 'r source \<Rightarrow> mutbuf \<Rightarrow> 'r \<Rightarrow> (nat \<times> mutbuf \<times> 'r) option" where
  "mutate e ur b r = do {
     (k, r) \<leftarrow> ur HAVOC_STACK_POW2 r;
     let use_stacking = 2 ^ (1 + k);
     (b, r) \<leftarrow> stack_tweaks e ur use_stacking b r;
     Some (use_stacking, b, r)
   }"

section \<open>The stage\<close>

text \<open>What the stage needs of the rest of the fuzzer, and the variables of its loop.\<close>

record 'w hpar =
  tst :: "'w tester"
  src :: "'w source"
  paths :: "'w \<Rightarrow> nat"        \<comment> \<open>\<^verbatim>\<open>queued_paths\<close>\<close>
  env :: "'w \<Rightarrow> henv"
  havoc_div :: nat

record 'w havoc =
  hb :: mutbuf
  h_max :: nat                \<comment> \<open>\<^verbatim>\<open>stage_max\<close>\<close>
  perf_score :: nat
  havoc_queued :: nat
  hw :: 'w

text \<open>Back to the original size and shape; the reallocation only happens when the buffer has shrunk.\<close>

definition restore_buf :: "buf \<Rightarrow> mutbuf \<Rightarrow> mutbuf option" where
  "restore_buf in_buf b = do {
     let m = (if temp_len b < length in_buf then take (length in_buf) (mem b) @ replicate (length in_buf - length (mem b)) 0
              else mem b);
     m \<leftarrow> put_at m 0 in_buf;
     Some (b\<lparr>mem := m, temp_len := length in_buf\<rparr>)
   }"

text \<open>Run a bit longer while new paths turn up.\<close>

definition extend_run :: "'w hpar \<Rightarrow> 'w havoc \<Rightarrow> 'w havoc" where
  "extend_run P h =
     (if paths P (hw h) \<noteq> havoc_queued h then
        (if perf_score h \<le> HAVOC_MAX_MULT * 100 then h\<lparr>h_max := h_max h * 2, perf_score := perf_score h * 2\<rparr> else h)
          \<lparr>havoc_queued := paths P (hw h)\<rparr>
      else h)"

definition havoc_step :: "'w hpar \<Rightarrow> stage \<Rightarrow> buf \<Rightarrow> 'w havoc \<Rightarrow> (bool \<times> 'w havoc) option" where
  "havoc_step P s in_buf h = do {
     (use_stacking, b, w) \<leftarrow> mutate (env P (hw h)) (src P) (hb h) (hw h);
     let (stop, w) = run_test (tst P) \<lparr>op_stage = s, op_byte = - 1, op_val = int use_stacking, op_vtype = STAGE_VAL_NONE, op_off = 0\<rparr>
                       (take (temp_len b) (mem b)) w;
     if stop then Some (True, h\<lparr>hb := b, hw := w\<rparr>) else do {
       b \<leftarrow> restore_buf in_buf b;
       Some (False, extend_run P (h\<lparr>hb := b, hw := w\<rparr>))
     }
   }"

text \<open>\<^verbatim>\<open>stage_max\<close> may grow while the loop runs, so the loop is given fuel.\<close>

fun havoc_loop :: "nat \<Rightarrow> 'w hpar \<Rightarrow> stage \<Rightarrow> buf \<Rightarrow> nat \<Rightarrow> 'w havoc \<Rightarrow> err + (bool \<times> 'w havoc)" where
  "havoc_loop fuel P s in_buf cur h =
     (if cur < h_max h then
        (case fuel of 0 \<Rightarrow> Inl NoFuel
         | Suc fuel \<Rightarrow>
             (case havoc_step P s in_buf h of
                None \<Rightarrow> Inl OutOfBounds
              | Some (True, h) \<Rightarrow> Inr (True, h)
              | Some (False, h) \<Rightarrow> havoc_loop fuel P s in_buf (Suc cur) h))
      else Inr (False, h))"

declare havoc_loop.simps [simp del]

definition havoc_runs :: "'w hpar \<Rightarrow> nat \<Rightarrow> nat \<Rightarrow> nat" where
  "havoc_runs P cycles perf = max HAVOC_MIN (cycles * perf div havoc_div P div 100)"

definition havoc_stage :: "nat \<Rightarrow> 'w hpar \<Rightarrow> stage \<Rightarrow> nat \<Rightarrow> nat \<Rightarrow> buf \<Rightarrow> 'w det \<Rightarrow> err + (bool \<times> 'w det)" where
  "havoc_stage fuel P s cycles perf in_buf d =
     (let h = \<lparr>hb = \<lparr>mem = out_buf d, temp_len = length in_buf\<rparr>, h_max = havoc_runs P cycles perf,
               perf_score = perf, havoc_queued = paths P (world d), hw = world d\<rparr>;
          d = d\<lparr>orig_hit_cnt := hits (tst P) (world d)\<rparr>
      in err_bind (havoc_loop fuel P s in_buf 0 h)
        (\<lambda>(stop, h). let d = d\<lparr>out_buf := take (length in_buf) (mem (hb h)), stage_max := int (h_max h), world := hw h\<rparr> in
           Inr (stop, if stop then d else finish_stage (tst P) s d)))"

end
