(* ===== verification/Havoc_Safe.thy ===== *)
theory Havoc_Safe
  imports Havoc Det_Stages
begin

unbundle bit_operations_syntax

text \<open>
  Memory safety, size limits and termination of the random stages, for every source of random numbers
  that respects its limits.
\<close>

section \<open>Tweaks\<close>

definition mb_ok :: "mutbuf \<Rightarrow> bool" where
  "mb_ok b \<longleftrightarrow> 1 \<le> temp_len b \<and> temp_len b \<le> length (mem b) \<and> temp_len b \<le> MAX_FILE"

text \<open>A step that never fails on a good buffer and keeps it good.\<close>

definition safe :: "(mutbuf \<Rightarrow> 'r \<Rightarrow> (mutbuf \<times> 'r) option) \<Rightarrow> bool" where
  "safe f \<longleftrightarrow> (\<forall>b r. mb_ok b \<longrightarrow> (\<exists>b' r'. f b r = Some (b', r') \<and> mb_ok b'))"

lemma safeI: "(\<And>b r. mb_ok b \<Longrightarrow> \<exists>x. f b r = Some x \<and> mb_ok (fst x)) \<Longrightarrow> safe f"
  unfolding safe_def by fastforce

lemma length_store16: "i + 2 \<le> length b \<Longrightarrow> length (store16 b i v) = length b"
  by (simp add: store16_def length_write_at)

lemma length_store32: "i + 4 \<le> length b \<Longrightarrow> length (store32 b i v) = length b"
  by (simp add: store32_def length_write_at)

lemma upd_ok:
  "mb_ok b \<Longrightarrow> i < temp_len b \<Longrightarrow> \<exists>b'. upd8 i f b = Some b' \<and> mb_ok b'"
  "mb_ok b \<Longrightarrow> i + 1 < temp_len b \<Longrightarrow> \<exists>b'. upd16 i g b = Some b' \<and> mb_ok b'"
  "mb_ok b \<Longrightarrow> i + 3 < temp_len b \<Longrightarrow> \<exists>b'. upd32 i h b = Some b' \<and> mb_ok b'"
  by (auto simp: mb_ok_def upd8_def upd16_def upd32_def length_store16 length_store32)

lemma slice_Some: "i + n \<le> length m \<Longrightarrow> slice m i n = Some (take n (drop i m))"
  by (simp add: slice_def)


context rng_source
begin

lemma ur_bind:
  assumes "0 < n" "\<And>v r'. v < n \<Longrightarrow> \<exists>x. k v r' = Some x \<and> P x"
  shows "\<exists>x. Option.bind (ur n r) (\<lambda>(v, r). k v r) = Some x \<and> P x"
  using ur_below[OF assms(1), of r] assms(2) by fastforce

lemma block_len_bind:
  assumes "0 < queue_cycle e" "0 < n" "\<And>v r'. 1 \<le> v \<Longrightarrow> v \<le> n \<Longrightarrow> v \<le> HAVOC_BLK_LARGE \<Longrightarrow> \<exists>x. k v r' = Some x \<and> P x"
  shows "\<exists>x. Option.bind (block_len e ur n r) (\<lambda>(v, r). k v r) = Some x \<and> P x"
  using block_len_bounds[OF assms(1,2), of "run_over10m e" r] assms(3) by (fastforce simp: block_len_def)

lemma safe_bytes: "safe (tweak_flip ur)" "safe (tweak_interest8 ur)" "safe (tweak_arith8 f ur)" "safe (tweak_xor ur)"
proof -
  have fin: "\<exists>x. Option.bind (upd8 i f b) (\<lambda>b. Some (b, r)) = Some x \<and> mb_ok (fst x)"
    if "mb_ok b" "i < temp_len b" for b i f and r :: 'r
    using upd_ok(1)[OF that, of f] by auto
  have p: "0 < temp_len b" if "mb_ok b" for b using that by (simp add: mb_ok_def)
  show "safe (tweak_flip ur)" "safe (tweak_interest8 ur)" "safe (tweak_arith8 f ur)" "safe (tweak_xor ur)"
    by (rule safeI; unfold tweak_flip_def tweak_interest8_def tweak_arith8_def tweak_xor_def;
        intro ur_bind fin; use p in auto)+
qed

lemma safe_words: "safe (tweak_interest16 ur)" "safe (tweak_arith16 g ur)" "safe (tweak_interest32 ur)" "safe (tweak_arith32 h ur)"
proof -
  have fin16: "\<exists>x. Option.bind (upd16 i f b) (\<lambda>b. Some (b, r)) = Some x \<and> mb_ok (fst x)"
    if m: "mb_ok b" and i: "i < temp_len b - 1" for b i f and r :: 'r
  proof -
    obtain b' where "upd16 i f b = Some b'" "mb_ok b'" using upd_ok(2)[OF m, of i f] i by fastforce
    then show ?thesis by simp
  qed
  have fin32: "\<exists>x. Option.bind (upd32 i f b) (\<lambda>b. Some (b, r)) = Some x \<and> mb_ok (fst x)"
    if m: "mb_ok b" and i: "i < temp_len b - 3" for b i f and r :: 'r
  proof -
    obtain b' where "upd32 i f b = Some b'" "mb_ok b'" using upd_ok(3)[OF m, of i f] i by fastforce
    then show ?thesis by simp
  qed
  show "safe (tweak_interest16 ur)" "safe (tweak_arith16 g ur)"
    by (rule safeI; unfold tweak_interest16_def tweak_arith16_def; split if_split; intro conjI impI;
        (intro ur_bind fin16)?; auto)+
  show "safe (tweak_interest32 ur)" "safe (tweak_arith32 h ur)"
    by (rule safeI; unfold tweak_interest32_def tweak_arith32_def; split if_split; intro conjI impI;
        (intro ur_bind fin32)?; auto)+
qed

lemma safe_delete:
  assumes "0 < queue_cycle e"
  shows "safe (tweak_delete e ur)"
proof (rule safeI)
  fix b and r :: 'r
  assume b: "mb_ok b"
  show "\<exists>x. tweak_delete e ur b r = Some x \<and> mb_ok (fst x)"
  proof (cases "temp_len b < 2")
    case False
    then show ?thesis
      unfolding tweak_delete_def if_not_P[OF False]
      by (intro block_len_bind assms ur_bind)
        (use b in \<open>auto simp: mb_ok_def slice_Some put_at_Some length_write_at\<close>)
  qed (use b in \<open>simp add: tweak_delete_def\<close>)
qed

lemma safe_overwrite:
  assumes "0 < queue_cycle e"
  shows "safe (tweak_overwrite e ur)"
proof (rule safeI)
  fix b and r :: 'r
  assume b: "mb_ok b"
  show "\<exists>x. tweak_overwrite e ur b r = Some x \<and> mb_ok (fst x)"
  proof (cases "temp_len b < 2")
    case False
    have e: "\<exists>x. (if c \<noteq> 0 then if from \<noteq> to then Option.bind (slice (mem b) from l) (\<lambda>x. Option.bind (put_at (mem b) to x) (\<lambda>m. Some (b\<lparr>mem := m\<rparr>, r)))
         else Some (b, r)
       else Option.bind (ur 256 r) (\<lambda>(v, r). Option.bind (put_at (mem b) to (replicate l (word_of_nat v))) (\<lambda>m. Some (b\<lparr>mem := m\<rparr>, r)))) = Some x
        \<and> mb_ok (fst x)"
      if "l \<le> temp_len b - 1" "from < temp_len b - l + 1" "to < temp_len b - l + 1" for c l to "from" :: nat and r :: 'r
    proof (cases "c = 0")
      case True
      have "\<exists>x. Option.bind (ur 256 r) (\<lambda>(v, r). Option.bind (put_at (mem b) to (replicate l (word_of_nat v))) (\<lambda>m. Some (b\<lparr>mem := m\<rparr>, r))) = Some x
          \<and> mb_ok (fst x)"
        by (intro ur_bind) (use b that in \<open>auto simp: mb_ok_def put_at_Some length_write_at\<close>)
      with True show ?thesis by simp
    qed (use b that in \<open>auto simp: mb_ok_def slice_Some put_at_Some length_write_at\<close>)
    show ?thesis
      unfolding tweak_overwrite_def if_not_P[OF False]
      by (intro block_len_bind assms ur_bind e) (use False in auto)
  qed (use b in \<open>simp add: tweak_overwrite_def\<close>)
qed


lemma safe_clone:
  assumes "0 < queue_cycle e"
  shows "safe (tweak_clone e ur)"
proof (rule safeI)
  fix b and r :: 'r
  assume b: "mb_ok b"
  show "\<exists>x. tweak_clone e ur b r = Some x \<and> mb_ok (fst x)"
  proof (cases "temp_len b + HAVOC_BLK_LARGE < MAX_FILE")
    case True
    have t: "0 < temp_len b" using b by (simp add: mb_ok_def)
    obtain l r1 where l: "block_len e ur (temp_len b) r = Some (l, r1)" "1 \<le> l" "l \<le> temp_len b" "l \<le> HAVOC_BLK_LARGE"
      using block_len_bounds[OF assms t, of "run_over10m e" r] by (auto simp: block_len_def)
    obtain src r2 where f: "ur (temp_len b - l + 1) r1 = Some (src, r2)" "src < temp_len b - l + 1"
      using ur_below[of "temp_len b - l + 1" r1] by auto
    obtain to r3 where d: "ur (temp_len b) r2 = Some (to, r3)" "to < temp_len b" using t by (rule ur_SomeE)
    obtain c r4 where c: "ur 4 r3 = Some (c, r4)" using ur_below[of 4 r3] by auto
    have "\<exists>ins r5. (if c \<noteq> 0 then Option.bind (slice (mem b) src l) (\<lambda>x. Some (x, r4))
        else Option.bind (ur 256 r4) (\<lambda>(v, r). Some (replicate l (word_of_nat v), r))) = Some (ins, r5) \<and> length ins = l"
      using ur_below[of 256 r4] b f(2) l(3) by (auto simp: mb_ok_def slice_Some)
    then obtain ins r5 where i: "(if c \<noteq> 0 then Option.bind (slice (mem b) src l) (\<lambda>x. Some (x, r4))
        else Option.bind (ur 256 r4) (\<lambda>(v, r). Some (replicate l (word_of_nat v), r))) = Some (ins, r5)" "length ins = l" by blast
    have m: "to \<le> temp_len b" "temp_len b \<le> length (mem b)" using b d(2) by (simp_all add: mb_ok_def)
    have "tweak_clone e ur b r =
        Some (\<lparr>mem = take to (mem b) @ ins @ take (temp_len b - to) (drop to (mem b)), temp_len = temp_len b + l\<rparr>, r5)"
      unfolding tweak_clone_def if_P[OF True] Let_def using l(1) f(1) d(1) c i m
      by (simp add: slice_Some put_at_def write_at_def)
    then show ?thesis using b m l True i(2) by (simp add: mb_ok_def)
  qed (use b in \<open>simp add: tweak_clone_def\<close>)
qed


lemma pick_extra_bind:
  assumes "extras e \<noteq> [] \<or> a_extras e \<noteq> []" "\<And>tok r'. \<exists>x. k tok r' = Some x \<and> P x"
  shows "\<exists>x. Option.bind (pick_extra e ur r) (\<lambda>(tok, r). k tok r) = Some x \<and> P x"
proof -
  have "\<exists>au r1. (if extras e = [] then Some (True, r) else if a_extras e = [] then Some (False, r)
      else Option.bind (ur 2 r) (\<lambda>(c, r). Some (c \<noteq> 0, r))) = Some (au, r1) \<and> (if au then a_extras e else extras e) \<noteq> []"
    using assms(1) ur_below[of 2 r] by auto
  then obtain au r1 where a: "(if extras e = [] then Some (True, r) else if a_extras e = [] then Some (False, r)
      else Option.bind (ur 2 r) (\<lambda>(c, r). Some (c \<noteq> 0, r))) = Some (au, r1)" "(if au then a_extras e else extras e) \<noteq> []" by blast
  obtain i r2 where "ur (length (if au then a_extras e else extras e)) r1 = Some (i, r2)"
    using ur_below[of "length (if au then a_extras e else extras e)" r1] a(2) by auto
  then have "pick_extra e ur r = Some (ex_data ((if au then a_extras e else extras e) ! i), r2)"
    unfolding pick_extra_def Let_def a(1) by simp
  with assms(2) show ?thesis by simp
qed

lemma safe_extra_over:
  assumes "extras e \<noteq> [] \<or> a_extras e \<noteq> []"
  shows "safe (tweak_extra_over e ur)"
proof (rule safeI)
  fix b and r :: 'r
  assume b: "mb_ok b"
  have "\<exists>x. (if length tok > temp_len b then Some (b, r) else Option.bind (ur (temp_len b - length tok + 1) r)
      (\<lambda>(insert_at, r). Option.bind (put_at (mem b) insert_at tok) (\<lambda>m. Some (b\<lparr>mem := m\<rparr>, r)))) = Some x \<and> mb_ok (fst x)" for tok and r :: 'r
  proof (cases "length tok > temp_len b")
    case False
    have "\<exists>x. Option.bind (ur (temp_len b - length tok + 1) r)
        (\<lambda>(insert_at, r). Option.bind (put_at (mem b) insert_at tok) (\<lambda>m. Some (b\<lparr>mem := m\<rparr>, r))) = Some x \<and> mb_ok (fst x)"
      by (intro ur_bind) (use b False in \<open>auto simp: mb_ok_def put_at_Some length_write_at\<close>)
    with False show ?thesis by simp
  qed (use b in simp)
  then show "\<exists>x. tweak_extra_over e ur b r = Some x \<and> mb_ok (fst x)"
    unfolding tweak_extra_over_def by (intro pick_extra_bind assms)
qed

lemma safe_extra_insert:
  assumes "extras e \<noteq> [] \<or> a_extras e \<noteq> []"
  shows "safe (tweak_extra_insert e ur)"
proof (rule safeI)
  fix b and r :: 'r
  assume b: "mb_ok b"
  have t: "\<exists>x. (if temp_len b + length tok \<ge> MAX_FILE then Some (b, r) else
      Option.bind (slice (mem b) 0 i) (\<lambda>h. Option.bind (put_at (replicate (temp_len b + length tok) 0) 0 h)
      (\<lambda>b1. Option.bind (put_at b1 i tok) (\<lambda>b2. Option.bind (slice (mem b) i (temp_len b - i)) (\<lambda>t. Option.bind (put_at b2 (i + length tok) t)
      (\<lambda>b3. Some (\<lparr>mem = b3, temp_len = temp_len b + length tok\<rparr>, r))))))) = Some x \<and> mb_ok (fst x)"
    if i: "i < temp_len b" for i tok and r :: 'r
    using b i by (auto simp: mb_ok_def slice_Some put_at_def write_at_def)
  show "\<exists>x. tweak_extra_insert e ur b r = Some x \<and> mb_ok (fst x)"
    unfolding tweak_extra_insert_def Let_def
    by (intro ur_bind pick_extra_bind assms t) (use b in \<open>auto simp: mb_ok_def\<close>)
qed

lemma less_15: "(n :: nat) < 15 \<Longrightarrow> n \<in> {0, 1, 2, 3, 4, 5, 6, 7, 8, 9, 10, 11, 12, 13, 14}"
  by (simp add: numeral_eq_Suc less_Suc_eq)

lemma safe_tweak:
  assumes "0 < queue_cycle e" "n < 15 \<or> extras e \<noteq> [] \<or> a_extras e \<noteq> []"
  shows "safe (tweak e ur n)"
  unfolding tweak_def
  using assms less_15[of n] safe_bytes safe_words safe_delete safe_clone safe_overwrite safe_extra_over safe_extra_insert by auto

lemma safe_stack:
  assumes "0 < queue_cycle e"
  shows "safe (stack_tweaks e ur k)"
proof (induction k)
  case 0
  show ?case by (simp add: safe_def)
next
  case (Suc k)
  show ?case
  proof (rule safeI)
    fix b and r :: 'r
    assume b: "mb_ok b"
    let ?n = "15 + (if extras e = [] \<and> a_extras e = [] then 0 else 2) :: nat"
    obtain n r1 where n: "ur ?n r = Some (n, r1)" "n < ?n" using ur_below[of ?n r] by auto
    have "n < 15 \<or> extras e \<noteq> [] \<or> a_extras e \<noteq> []" using n(2) by (auto split: if_splits)
    from safe_tweak[OF assms this] b obtain b1 r2 where t: "tweak e ur n b r1 = Some (b1, r2)" "mb_ok b1"
      unfolding safe_def by blast
    with Suc obtain b2 r3 where "stack_tweaks e ur k b1 r2 = Some (b2, r3)" "mb_ok b2" unfolding safe_def by blast
    with n t show "\<exists>x. stack_tweaks e ur (Suc k) b r = Some x \<and> mb_ok (fst x)" by simp
  qed
qed

lemma mutate_ok:
  assumes "0 < queue_cycle e" "mb_ok b"
  shows "\<exists>s b' r'. mutate e ur b r = Some (s, b', r') \<and> mb_ok b' \<and> 2 \<le> s \<and> s \<le> 128"
proof -
  obtain k r1 where k: "ur HAVOC_STACK_POW2 r = Some (k, r1)" "k < 7" using ur_below[of HAVOC_STACK_POW2 r] by auto
  obtain b' r' where "stack_tweaks e ur (2 ^ (1 + k)) b r1 = Some (b', r')" "mb_ok b'"
    using safe_stack[OF assms(1)] assms(2) unfolding safe_def by blast
  moreover have "(2 :: nat) ^ (1 + k) \<le> 2 ^ 7" using k(2) by (intro power_increasing) simp_all
  moreover have "(2 :: nat) \<le> 2 ^ (1 + k)" by simp
  ultimately show ?thesis using k(1) by (simp add: mutate_def Let_def)
qed

end

text \<open>
  C6: memory safety of the random tweaks. For every sequence of random numbers that \<^const>\<open>UR\<close> can deliver, every
  dictionary and every buffer of 1 to \<^const>\<open>MAX_FILE\<close> bytes, a stack of havoc tweaks neither accesses memory
  outside its allocations nor divides by zero; it performs between 2 and 128 tweaks, and the result has again between
  1 and \<^const>\<open>MAX_FILE\<close> bytes within its allocation.
\<close>

theorem mutate_safe:
  assumes "0 < queue_cycle e" "mb_ok b"
  shows "\<exists>s b' r'. mutate e (UR random srandom) b r = Some (s, b', r') \<and> mb_ok b' \<and> 2 \<le> s \<and> s \<le> 128"
  using assms by (rule UR.mutate_ok)

theorem mutate_safe_witness:
  "\<exists>s b' r'. mutate \<lparr>queue_cycle = 2, run_over10m = True, extras = [], a_extras = [\<lparr>ex_data = [1, 2, 3], hit_cnt = 0\<rparr>]\<rparr>
       (UR (\<lambda>s. (s, s + 7)) unat) \<lparr>mem = [65, 66, 67], temp_len = 2\<rparr>
       \<lparr>rand_cnt = 0, prng = 3, urandom = (\<lambda>i. word_of_nat (i + 5)), upos = 0\<rparr> = Some (s, b', r')
     \<and> mb_ok b' \<and> 2 \<le> s \<and> s \<le> 128"
  by (rule mutate_safe) (simp_all add: mb_ok_def)


section \<open>The stage\<close>

text \<open>
  The loop invariant: between runs the buffer holds the input again, and \<^verbatim>\<open>stage_max\<close> has grown in step with the
  performance score, which is never doubled beyond 3200.
\<close>

definition h_inv :: "buf \<Rightarrow> nat \<Rightarrow> nat \<Rightarrow> 'w havoc \<Rightarrow> bool" where
  "h_inv in_buf m0 p0 h \<longleftrightarrow> mb_ok (hb h) \<and> temp_len (hb h) = length in_buf \<and> take (length in_buf) (mem (hb h)) = in_buf \<and>
     h_max h * p0 \<le> m0 * perf_score h \<and> perf_score h \<le> 3200"

lemma restore_buf_ok:
  assumes "mb_ok b" "1 \<le> length in_buf" "length in_buf \<le> MAX_FILE"
  shows "\<exists>b'. restore_buf in_buf b = Some b' \<and> mb_ok b' \<and> temp_len b' = length in_buf \<and> take (length in_buf) (mem b') = in_buf"
  using assms by (auto simp: restore_buf_def Let_def put_at_def write_at_def mb_ok_def)

lemma extend_run_inv:
  assumes "h_inv in_buf m0 p0 h"
  shows "h_inv in_buf m0 p0 (extend_run P h)"
  using assms by (auto simp: h_inv_def extend_run_def)

lemma havoc_step_ok:
  assumes "rng_source (src P)" "\<And>w. 0 < queue_cycle (env P w)" "h_inv in_buf m0 p0 h"
    and f: "\<And>opn b w. 1 \<le> length b \<Longrightarrow> length b \<le> MAX_FILE \<Longrightarrow> f opn b w = run_test (tst P) opn b w"
  shows "(\<exists>stop h'. havoc_step P s in_buf h = Some (stop, h') \<and> (stop \<or> h_inv in_buf m0 p0 h'))
    \<and> havoc_step (P\<lparr>tst := (tst P)\<lparr>run_test := f\<rparr>\<rparr>) s in_buf h = havoc_step P s in_buf h"
proof -
  from assms(3) have b: "mb_ok (hb h)" and len: "1 \<le> length in_buf" "length in_buf \<le> MAX_FILE"
    by (auto simp: h_inv_def mb_ok_def)
  obtain k b' w where m: "mutate (env P (hw h)) (src P) (hb h) (hw h) = Some (k, b', w)" "mb_ok b'"
    using rng_source.mutate_ok[OF assms(1,2) b] by metis
  let ?x = "take (temp_len b') (mem b')" and ?o = "\<lparr>op_stage = s, op_byte = - 1, op_val = int k, op_vtype = STAGE_VAL_NONE, op_off = 0\<rparr>"
  have x: "1 \<le> length ?x" "length ?x \<le> MAX_FILE" using m(2) by (auto simp: mb_ok_def)
  obtain stop w' where r: "run_test (tst P) ?o ?x w = (stop, w')" by fastforce
  obtain b2 where b2: "restore_buf in_buf b' = Some b2" "mb_ok b2" "temp_len b2 = length in_buf" "take (length in_buf) (mem b2) = in_buf"
    using restore_buf_ok[OF m(2) len] by blast
  have "h_inv in_buf m0 p0 (h\<lparr>hb := b2, hw := w'\<rparr>)" using assms(3) b2 by (simp add: h_inv_def)
  from extend_run_inv[OF this] have "stop \<or> h_inv in_buf m0 p0 (extend_run P (h\<lparr>hb := b2, hw := w'\<rparr>))" by simp
  moreover have "havoc_step P s in_buf h = Some (if stop then (True, h\<lparr>hb := b', hw := w'\<rparr>)
      else (False, extend_run P (h\<lparr>hb := b2, hw := w'\<rparr>)))"
    using m(1) r b2(1) by (simp add: havoc_step_def)
  moreover have "havoc_step (P\<lparr>tst := (tst P)\<lparr>run_test := f\<rparr>\<rparr>) s in_buf h = havoc_step P s in_buf h"
    using m(1) r b2(1) f[OF x] by (simp add: havoc_step_def extend_run_def)
  ultimately show ?thesis by auto
qed

lemma havoc_loop_ok:
  assumes "rng_source (src P)" "\<And>w. 0 < queue_cycle (env P w)" "0 < p0"
    and f: "\<And>opn b w. 1 \<le> length b \<Longrightarrow> length b \<le> MAX_FILE \<Longrightarrow> f opn b w = run_test (tst P) opn b w"
  shows "\<lbrakk>h_inv in_buf m0 p0 h; m0 * 3200 div p0 \<le> fuel + cur\<rbrakk> \<Longrightarrow>
    (\<exists>stop h'. havoc_loop fuel P s in_buf cur h = Inr (stop, h') \<and> (stop \<or> h_inv in_buf m0 p0 h'))
    \<and> havoc_loop fuel (P\<lparr>tst := (tst P)\<lparr>run_test := f\<rparr>\<rparr>) s in_buf cur h = havoc_loop fuel P s in_buf cur h"
proof (induction fuel arbitrary: cur h)
  case 0
  have "h_max h * p0 \<le> m0 * perf_score h" "perf_score h \<le> 3200" using "0.prems"(1) by (simp_all add: h_inv_def)
  then have "h_max h * p0 \<le> m0 * 3200" by (meson mult_le_mono2 order_trans)
  then have "h_max h \<le> m0 * 3200 div p0" using assms(3) by (simp add: less_eq_div_iff_mult_less_eq)
  then have "\<not> cur < h_max h" using "0.prems"(2) by simp
  then show ?case using "0.prems"(1) by (subst havoc_loop.simps, subst (2) havoc_loop.simps, subst (3) havoc_loop.simps) auto
next
  case (Suc fuel)
  show ?case
  proof (cases "cur < h_max h")
    case True
    obtain stop h' where st: "havoc_step P s in_buf h = Some (stop, h')" "stop \<or> h_inv in_buf m0 p0 h'"
      and e: "havoc_step (P\<lparr>tst := (tst P)\<lparr>run_test := f\<rparr>\<rparr>) s in_buf h = havoc_step P s in_buf h"
      using havoc_step_ok[OF assms(1,2) Suc.prems(1), of f s] f by blast
    have l: "havoc_loop (Suc fuel) Q s in_buf cur h = (if stop then Inr (True, h') else havoc_loop fuel Q s in_buf (Suc cur) h')"
      if "havoc_step Q s in_buf h = Some (stop, h')" for Q :: "'a hpar"
      using True that by (subst havoc_loop.simps) simp
    show ?thesis unfolding l[OF st(1)] l[OF e[unfolded st(1)]]
      using Suc.IH[of h' "Suc cur"] st(2) Suc.prems(2) by (cases stop) auto
  next
    case False
    then show ?thesis using Suc.prems(1) by (subst havoc_loop.simps, subst (2) havoc_loop.simps, subst (3) havoc_loop.simps) auto
  qed
qed


lemma havoc_runs_bound:
  assumes "2 \<le> p" "cycles \<le> 1024"
  shows "havoc_runs P cycles p * 3200 div p \<le> 32768"
proof -
  have "cycles * p div havoc_div P div 100 \<le> 1024 * p div 100"
    using assms(2) by (intro div_le_mono) (meson div_le_dividend mult_le_mono1 order_trans)
  then have "havoc_runs P cycles p \<le> max 16 (1024 * p div 100)" by (simp add: havoc_runs_def max_def)
  then have "havoc_runs P cycles p * 3200 \<le> max 16 (1024 * p div 100) * 3200" by simp
  also have "\<dots> \<le> 32768 * p"
  proof -
    have "1024 * p div 100 * 100 \<le> 1024 * p" by (rule div_times_less_eq_dividend)
    then show ?thesis using assms(1) by (auto simp: max_def)
  qed
  finally have "havoc_runs P cycles p * 3200 div p \<le> 32768 * p div p" by (rule div_le_mono)
  then show ?thesis using assms(1) by simp
qed

text \<open>
  C30: the havoc stage ends. Although it doubles its number of runs whenever new paths turn up, for every score that
  \<^verbatim>\<open>calculate_score\<close> can return (2 to 1600) and whatever the target reports, the loop needs at most 32768 runs, all
  without a memory error; unless a run asks to abandon the entry, the buffer is afterwards the input again.
  Only inputs of 1 to \<^const>\<open>MAX_FILE\<close> bytes are handed to the target: any other tester that agrees on these gives
  the same result.
\<close>

theorem havoc_stage_ends:
  assumes "rng_source (src P)" "\<forall>w. 0 < queue_cycle (env P w)" "2 \<le> perf" "perf \<le> 1600" "cycles \<le> HAVOC_CYCLES_INIT"
    and "1 \<le> length in_buf" "length in_buf \<le> MAX_FILE" "take (length in_buf) (out_buf d) = in_buf"
    and "\<forall>opn b w. 1 \<le> length b \<and> length b \<le> MAX_FILE \<longrightarrow> f opn b w = run_test (tst P) opn b w"
  shows "(\<exists>stop d'. havoc_stage 32768 P s cycles perf in_buf d = Inr (stop, d') \<and> (stop \<or> out_buf d' = in_buf \<and> stage_max d' \<le> 32768))
    \<and> havoc_stage 32768 (P\<lparr>tst := (tst P)\<lparr>run_test := f\<rparr>\<rparr>) s cycles perf in_buf d = havoc_stage 32768 P s cycles perf in_buf d"
proof -
  let ?h = "\<lparr>hb = \<lparr>mem = out_buf d, temp_len = length in_buf\<rparr>, h_max = havoc_runs P cycles perf,
               perf_score = perf, havoc_queued = paths P (world d), hw = world d\<rparr>"
  let ?m = "havoc_runs P cycles perf"
  let ?P = "P\<lparr>tst := (tst P)\<lparr>run_test := f\<rparr>\<rparr>"
  have "length in_buf \<le> length (out_buf d)" using assms(8) by (metis length_take min.bounded_iff order_refl)
  then have i: "h_inv in_buf ?m perf ?h" using assms(4,6,7,8) by (simp add: h_inv_def mb_ok_def)
  have fuel: "?m * 3200 div perf \<le> 32768 + 0" using havoc_runs_bound[OF assms(3), of cycles P] assms(5) by simp
  have p: "0 < perf" using assms(3) by simp
  have ff: "\<And>opn b w. 1 \<le> length b \<Longrightarrow> length b \<le> MAX_FILE \<Longrightarrow> f opn b w = run_test (tst P) opn b w" using assms(9) by blast
  obtain stop h' where l: "havoc_loop 32768 P s in_buf 0 ?h = Inr (stop, h')" "stop \<or> h_inv in_buf ?m perf h'"
    and e: "havoc_loop 32768 ?P s in_buf 0 ?h = havoc_loop 32768 P s in_buf 0 ?h"
    using havoc_loop_ok[OF assms(1) _ p _ i fuel, of f s] assms(2) ff by blast
  have "h_max h' \<le> 32768" if "h_inv in_buf ?m perf h'"
  proof -
    have "h_max h' * perf \<le> ?m * 3200" using that unfolding h_inv_def by (meson mult_le_mono2 order_trans)
    then have "h_max h' \<le> ?m * 3200 div perf" using p by (simp add: less_eq_div_iff_mult_less_eq)
    then show ?thesis using fuel by simp
  qed
  then have "\<exists>stop d'. havoc_stage 32768 P s cycles perf in_buf d = Inr (stop, d') \<and> (stop \<or> out_buf d' = in_buf \<and> stage_max d' \<le> 32768)"
    using l by (auto simp: havoc_stage_def Let_def h_inv_def finish_stage_def count_stage_def)
  moreover have "havoc_stage 32768 ?P s cycles perf in_buf d = havoc_stage 32768 P s cycles perf in_buf d"
  proof -
    have fs: "finish_stage ((tst P)\<lparr>run_test := f\<rparr>) s x = finish_stage (tst P) s x" for x
      by (simp add: finish_stage_def count_stage_def)
    have rs: "havoc_runs ?P cycles perf = ?m" by (simp add: havoc_runs_def)
    show ?thesis unfolding havoc_stage_def Let_def rs using e l(1) fs by simp
  qed
  ultimately show ?thesis by blast
qed


definition quiet_par :: "nat rng hpar" where
  "quiet_par = \<lparr>tst = \<lparr>run_test = (\<lambda>opn b w. (False, w)), wait_all = id, symbex = id, hits = (\<lambda>_. 0),
       bind_eff = (\<lambda>m w. w), read_eff = (\<lambda>w. ([], 0)), rnd = (\<lambda>n w. (0, w))\<rparr>,
     src = UR (\<lambda>s. (s, s + 7)) unat, paths = upos,
     env = (\<lambda>w. \<lparr>queue_cycle = 1, run_over10m = False, extras = [], a_extras = []\<rparr>), havoc_div = 1\<rparr>"

theorem havoc_stage_witness:
  "\<exists>stop d'. havoc_stage 32768 quiet_par STAGE_HAVOC 256 100 [1, 2, 3]
       \<lparr>out_buf = [1, 2, 3], stage_cur = 0, stage_max = 0, orig_hit_cnt = 0, stage_finds = (\<lambda>_. 0), stage_cycles = (\<lambda>_. 0),
         blocks_eff_select = 0, blocks_eff_total = 0, oob = False,
         world = \<lparr>rand_cnt = 0, prng = 3, urandom = (\<lambda>i. word_of_nat (i + 5)), upos = 0\<rparr>\<rparr> = Inr (stop, d')
     \<and> (stop \<or> out_buf d' = [1, 2, 3] \<and> stage_max d' \<le> 32768)"
  by (rule conjunct1[OF havoc_stage_ends[where f = "\<lambda>opn b w. (False, w)"]])
    (simp_all add: quiet_par_def UR.rng_source_axioms)

end
