(* ===== verification/Fuzz_One.thy ===== *)
theory Fuzz_One
  imports Havoc Score
begin

text \<open>
  \<^verbatim>\<open>fuzz_one\<close> around its stages, in the S2E build: the decision to skip an entry, reading the input, the order
  of the stages, splicing with another entry, and the bookkeeping at the end. The rest of the fuzzer
  is an arbitrary world from which the queue, the files and some options are read.
\<close>

section \<open>The fuzzer around it\<close>

datatype fault = FAULT_NONE | FAULT_HANG | FAULT_CRASH | FAULT_ERROR | FAULT_NOINST | FAULT_NOBITS | FAULT_REDUNDANT

record options =
  skip_deterministic :: bool
  use_splicing :: bool
  crash_mode :: fault
  master_id :: u32
  master_max :: u32

record 'w fpar =
  hp :: "'w hpar"
  qs :: "'w \<Rightarrow> qstate"
  put_qs :: "qstate \<Rightarrow> 'w \<Rightarrow> 'w"
  files :: "'w \<Rightarrow> string \<Rightarrow> buf option"
  cal :: "'w \<Rightarrow> cal_stats"
  calibrate :: "nat \<Rightarrow> buf \<Rightarrow> 'w \<Rightarrow> fault \<times> 'w"
  stop_soon :: "'w \<Rightarrow> bool"
  count_skip :: "'w \<Rightarrow> 'w"             \<comment> \<open>\<^verbatim>\<open>cur_skipped_paths++\<close>\<close>
  reset_eff :: "'w \<Rightarrow> 'w"              \<comment> \<open>\<^verbatim>\<open>g_eff_map = 0; g_eff_cnt = 1\<close>\<close>
  opts :: options

definition ent :: "'w fpar \<Rightarrow> nat \<Rightarrow> 'w \<Rightarrow> queue_entry" where
  "ent F q w = heap (qs F w) ! q"

definition upd_qs :: "'w fpar \<Rightarrow> (qstate \<Rightarrow> qstate) \<Rightarrow> 'w \<Rightarrow> 'w" where
  "upd_qs F f w = put_qs F (f (qs F w)) w"

definition roll :: "'w fpar \<Rightarrow> nat \<Rightarrow> 'w \<Rightarrow> err + nat \<times> 'w" where
  "roll F n w = (case src (hp F) n w of None \<Rightarrow> Inl DivByZero | Some x \<Rightarrow> Inr x)"

section \<open>Skipping\<close>

definition skip_prob :: "qstate \<Rightarrow> nat \<Rightarrow> queue_entry \<Rightarrow> nat" where
  "skip_prob st cycle e =
     (if pending_favored st \<noteq> 0 then (if was_fuzzed e \<or> \<not> favored e then SKIP_TO_NEW_PROB else 0)
      else if \<not> dumb_mode st \<and> \<not> favored e \<and> queued_paths st > 10 then
        (if cycle > 1 \<and> \<not> was_fuzzed e then SKIP_NFAV_NEW_PROB else SKIP_NFAV_OLD_PROB)
      else 0)"

text \<open>The random number is only drawn where there is a chance to skip.\<close>

definition skip_entry :: "'w fpar \<Rightarrow> nat \<Rightarrow> 'w \<Rightarrow> err + bool \<times> 'w" where
  "skip_entry F q w =
     (let p = skip_prob (qs F w) (queue_cycle (env (hp F) w)) (ent F q w) in
      if p = 0 then Inr (False, w) else err_bind (roll F 100 w) (\<lambda>(v, w). Inr (v < p, w)))"

section \<open>Splicing\<close>

text \<open>\<^verbatim>\<open>do tid = UR(queued_paths); while (tid == current_entry)\<close>\<close>

fun pick_tid :: "nat \<Rightarrow> 'w fpar \<Rightarrow> nat \<Rightarrow> 'w \<Rightarrow> err + nat \<times> 'w" where
  "pick_tid 0 F cur w = Inl NoFuel"
| "pick_tid (Suc fuel) F cur w =
     err_bind (roll F (queued_paths (qs F w)) w) (\<lambda>(tid, w). if tid = cur then pick_tid fuel F cur w else Inr (tid, w))"

text \<open>On to an entry of at least two bytes that is not the current one.\<close>

fun skip_short :: "nat \<Rightarrow> queue_entry list \<Rightarrow> nat \<Rightarrow> nat option \<Rightarrow> err + nat option" where
  "skip_short fuel h q None = Inr None"
| "skip_short 0 h q (Some p) = Inl NoFuel"
| "skip_short (Suc fuel) h q (Some p) =
     (if q_len (h ! p) < 2 \<or> p = q then skip_short fuel h q (next_ent (h ! p)) else Inr (Some p))"

definition read_entry :: "'w fpar \<Rightarrow> nat \<Rightarrow> 'w \<Rightarrow> err + buf" where
  "read_entry F p w =
     (case files F w (fname (ent F p w)) of
        None \<Rightarrow> Inl (Fatal ''Unable to open'')
      | Some c \<Rightarrow> if length c < q_len (ent F p w) then Inl (Fatal ''Short read'') else Inr (take (q_len (ent F p w)) c))"

text \<open>The new input: the head of the current one up to the split, then the other one.\<close>

definition splice_bufs :: "'w fpar \<Rightarrow> buf \<Rightarrow> buf \<Rightarrow> 'w \<Rightarrow> err + buf option \<times> 'w" where
  "splice_bufs F in_buf new_buf w =
     (case locate_diffs in_buf new_buf (min (length in_buf) (length new_buf)) of (f_diff, l_diff) \<Rightarrow>
        if f_diff < 0 \<or> l_diff < 2 \<or> f_diff = l_diff then Inr (None, w)
        else err_bind (roll F (nat (l_diff - f_diff)) w) (\<lambda>(v, w).
          let split_at = nat f_diff + v in Inr (Some (write_at new_buf 0 (take split_at in_buf)), w)))"

definition splice_once :: "nat \<Rightarrow> 'w fpar \<Rightarrow> nat \<Rightarrow> nat \<Rightarrow> buf \<Rightarrow> 'w \<Rightarrow> err + buf option \<times> 'w" where
  "splice_once fuel F cur q in_buf w =
     err_bind (pick_tid fuel F cur w) (\<lambda>(tid, w).
     err_bind (seek_entry (qs F w) tid) (\<lambda>target.
     err_bind (skip_short (length (heap (qs F w))) (heap (qs F w)) q target) (\<lambda>target.
     case target of None \<Rightarrow> Inr (None, w)
     | Some p \<Rightarrow> err_bind (read_entry F p w) (\<lambda>new_buf. splice_bufs F in_buf new_buf w))))"

text \<open>
  The label \<^verbatim>\<open>retry_splicing\<close>: up to \<^const>\<open>SPLICE_CYCLES\<close> attempts, each successful one followed by a havoc stage on
  the new input; the first argument counts the attempts left.
\<close>

fun splicing :: "nat \<Rightarrow> nat \<Rightarrow> 'w fpar \<Rightarrow> nat \<Rightarrow> nat \<Rightarrow> nat \<Rightarrow> buf \<Rightarrow> 'w det \<Rightarrow> err + bool \<times> 'w det" where
  "splicing 0 fuel F cur q orig_perf in_buf d = Inr (False, d)"
| "splicing (Suc k) fuel F cur q orig_perf in_buf d =
     (if use_splicing (opts F) \<and> queued_paths (qs F (world d)) > 1 \<and> q_len (ent F q (world d)) > 1 then
        err_bind (splice_once fuel F cur q in_buf (world d)) (\<lambda>(r, w).
          case r of
            None \<Rightarrow> splicing k fuel F cur q orig_perf in_buf (d\<lparr>world := w\<rparr>)
          | Some new \<Rightarrow>
              err_bind (havoc_stage 32768 (hp F) STAGE_SPLICE SPLICE_HAVOC orig_perf new (d\<lparr>world := w, out_buf := new\<rparr>))
                (\<lambda>(stop, d). if stop then Inr (True, d) else splicing k fuel F cur q orig_perf in_buf d))
      else Inr (False, d))"

section \<open>The whole procedure\<close>

text \<open>\<^verbatim>\<open>x--\<close> on a \<^verbatim>\<open>u32\<close>, and the label \<^verbatim>\<open>abandon_entry\<close>.\<close>

definition dec32 :: "nat \<Rightarrow> nat" where
  "dec32 n = (n + (2 ^ 32 - 1)) mod 2 ^ 32"

definition finish_entry :: "nat \<Rightarrow> bool \<Rightarrow> qstate \<Rightarrow> qstate" where
  "finish_entry q stop st =
     (let e = heap st ! q in
      if \<not> stop \<and> cal_failed e = 0 \<and> \<not> was_fuzzed e then
        (upd_entry q (\<lambda>e. e\<lparr>was_fuzzed := True\<rparr>) st)
          \<lparr>pending_not_fuzzed := dec32 (pending_not_fuzzed st),
           pending_favored := (if favored e then dec32 (pending_favored st) else pending_favored st)\<rparr>
      else st)"

text \<open>A failed calibration is repeated a few times; \<open>True\<close> means to abandon the entry.\<close>

definition recalibrate :: "'w fpar \<Rightarrow> nat \<Rightarrow> buf \<Rightarrow> 'w \<Rightarrow> err + bool \<times> 'w" where
  "recalibrate F q in_buf w =
     (if cal_failed (ent F q w) \<noteq> 0 then
        let (res, w) = (if cal_failed (ent F q w) < CAL_CHANCES then calibrate F q in_buf w else (FAULT_HANG, w)) in
        if res = FAULT_ERROR then Inl (Fatal ''Unable to execute target application'')
        else if stop_soon F w \<or> res \<noteq> crash_mode (opts F) then Inr (True, count_skip F w)
        else Inr (False, w)
      else Inr (False, w))"

text \<open>Does this entry go through the deterministic stages here?\<close>

definition wants_det :: "options \<Rightarrow> queue_entry \<Rightarrow> bool" where
  "wants_det o' e \<longleftrightarrow> \<not> (skip_deterministic o' \<or> was_fuzzed e \<or> passed_det e) \<and>
     \<not> (master_max o' \<noteq> 0 \<and> exec_cksum e mod master_max o' \<noteq> master_id o' - 1)"

definition run_det :: "'w fpar \<Rightarrow> nat \<Rightarrow> buf \<Rightarrow> 'w det \<Rightarrow> err + bool \<times> 'w det" where
  "run_det F q in_buf d =
     (let e = env (hp F) (world d);
          (stop, d) = det_stages (tst (hp F)) (extras e) (a_extras e) in_buf d
      in if stop then Inr (True, d)
         else if passed_det (ent F q (world d)) then Inr (False, d)
         else err_bind (mark_as_det_done q (qs F (world d))) (\<lambda>st. Inr (False, d\<lparr>world := put_qs F st (world d)\<rparr>)))"

definition stages :: "nat \<Rightarrow> 'w fpar \<Rightarrow> nat \<Rightarrow> nat \<Rightarrow> nat \<Rightarrow> buf \<Rightarrow> 'w det \<Rightarrow> err + bool \<times> 'w det" where
  "stages fuel F cur q perf in_buf d =
     (let det = wants_det (opts F) (ent F q (world d)) in
      err_bind (if det then run_det F q in_buf d else Inr (False, d)) (\<lambda>(stop, d).
      if stop then Inr (True, d) else
      err_bind (havoc_stage 32768 (hp F) STAGE_HAVOC (if det then HAVOC_CYCLES_INIT else HAVOC_CYCLES) perf in_buf d) (\<lambda>(stop, d).
      if stop then Inr (True, d) else splicing SPLICE_CYCLES fuel F cur q perf in_buf d)))"

text \<open>The result is \<^verbatim>\<open>ret_val\<close>: 0 if the entry was fuzzed completely, 1 if it was skipped or abandoned.\<close>

definition fuzz_one :: "nat \<Rightarrow> 'w fpar \<Rightarrow> nat \<Rightarrow> nat \<Rightarrow> 'w det \<Rightarrow> err + nat \<times> 'w det" where
  "fuzz_one fuel F cur q d =
     err_bind (skip_entry F q (world d)) (\<lambda>(skip, w).
     if skip then Inr (1, d\<lparr>world := w\<rparr>) else
     if q_len (ent F q w) = 0 then Inl (Fatal ''Unable to mmap'') else
     err_bind (read_entry F q w) (\<lambda>in_buf.
     let w = upd_qs F (\<lambda>st. st\<lparr>cur_depth := depth (heap st ! q)\<rparr>) w in
     err_bind (recalibrate F q in_buf w) (\<lambda>(stop, w).
     err_bind (if stop then Inr (True, d\<lparr>world := w\<rparr>) else
       (let w = upd_qs F (upd_entry q (\<lambda>e. e\<lparr>trim_done := True\<rparr>)) w in
        err_bind (calculate_score (cal F w) (ent F q w)) (\<lambda>(perf, e).
          stages fuel F cur q perf in_buf (d\<lparr>out_buf := in_buf, world := upd_qs F (upd_entry q (\<lambda>_. e)) w\<rparr>))))
       (\<lambda>(stop, d).
          let w = reset_eff F (world d) in
          Inr (if stop then 1 else 0, d\<lparr>world := upd_qs F (finish_entry q (stop_soon F w)) w\<rparr>)))))"


section \<open>Properties of splicing\<close>

lemma diffs_take_min: "diffs (take (min (length a) (length b)) a) (take (min (length a) (length b)) b) = diffs a b"
  by (auto simp: diffs_def)

lemma roll_ok:
  assumes "rng_source (src (hp F))" "0 < n"
  obtains v w' where "roll F n w = Inr (v, w')" "v < n"
  using rng_source.ur_below[OF assms, of w] by (auto simp: roll_def)

lemma spliced_shape:
  assumes f: "f = Min (diffs a b)" and l: "l = Max (diffs a b)" and D: "diffs a b \<noteq> {}" and k: "f \<le> k" "k < l"
  shows "(take k a @ drop k b) ! l \<noteq> a ! l \<and> (take k a @ drop k b = b \<longleftrightarrow> k = f)"
proof -
  have lD: "l \<in> diffs a b" and fD: "f \<in> diffs a b" using D f l by simp_all
  then have ll: "l < length a" "l < length b" "a ! l \<noteq> b ! l" and ff: "f < length a" "f < length b" "a ! f \<noteq> b ! f"
    by (simp_all add: diffs_def)
  have below: "a ! i = b ! i" if "i < f" for i
  proof (rule ccontr)
    assume "a ! i \<noteq> b ! i"
    then have "i \<in> diffs a b" using that ff by (simp add: diffs_def)
    then have "f \<le> i" unfolding f by simp
    with that show False by simp
  qed
  have nth: "(take k a @ drop k b) ! i = (if i < k then a ! i else b ! i)" if "i < length b" for i
    using that k ll by (simp add: nth_append)
  have "(take k a @ drop k b = b) \<longleftrightarrow> (\<forall>i < length b. i < k \<longrightarrow> a ! i = b ! i)"
    using nth k ll by (auto simp: list_eq_iff_nth_eq)
  also have "\<dots> \<longleftrightarrow> k = f"
    using below ff k(1) by (metis le_neq_implies_less less_or_eq_imp_le order.strict_trans2)
  finally show ?thesis using nth[OF ll(2)] ll(3) k by simp
qed

text \<open>
  C31: splicing two inputs. If they differ in at least two places, not all of them in the first two bytes, the
  result is the head of the current input and the tail of the other one, joined at a random offset between their first and
  last difference. It always differs from the current input at the last difference; it is the other
  input unchanged exactly if the join falls on the first difference. In all other cases the attempt is given
  up, never with an error.
\<close>

theorem splice_bufs_shape:
  assumes "rng_source (src (hp F))"
  shows "\<exists>r w'. splice_bufs F a b w = Inr (r, w') \<and>
    (case r of
       None \<Rightarrow> diffs a b = {} \<or> Max (diffs a b) < 2 \<or> Min (diffs a b) = Max (diffs a b)
     | Some c \<Rightarrow> \<exists>k. Min (diffs a b) \<le> k \<and> k < Max (diffs a b) \<and> c = take k a @ drop k b \<and> length c = length b \<and>
         c ! Max (diffs a b) \<noteq> a ! Max (diffs a b) \<and> (c = b \<longleftrightarrow> k = Min (diffs a b)))"
proof -
  define D where "D = diffs a b"
  have loc: "locate_diffs a b (min (length a) (length b)) = (if D = {} then (- 1, - 1) else (int (Min D), int (Max D)))"
    by (simp add: locate_diffs_def locate_loop_diffs diffs_take_min D_def)
  show ?thesis
  proof (cases "D = {} \<or> Max D < 2 \<or> Min D = Max D")
    case True
    define mn mx where "mn = Min D" and "mx = Max D"
    have "splice_bufs F a b w = Inr (None, w)"
      using loc True unfolding splice_bufs_def mn_def[symmetric] mx_def[symmetric] by auto
    then show ?thesis using True unfolding D_def by (intro exI[of _ None] exI[of _ w]) simp
  next
    case False
    then have d: "D \<noteq> {}" "2 \<le> Max D" "Min D \<noteq> Max D" by auto
    then have mm: "Min D < Max D" using Min_le[of D "Max D"] by (simp add: D_def le_neq_implies_less)
    have "Max D \<in> D" using d(1) by (simp add: D_def)
    then have lt: "Max D < length a" "Max D < length b" by (auto simp: D_def diffs_def)
    obtain v w' where v: "roll F (Max D - Min D) w = Inr (v, w')" "v < Max D - Min D"
      using roll_ok[OF assms, of "Max D - Min D" w] mm by (metis zero_less_diff)
    let ?k = "Min D + v"
    have k: "Min D \<le> ?k" "?k < Max D" using v(2) by simp_all
    have e: "splice_bufs F a b w = Inr (Some (take ?k a @ drop ?k b), w')"
      using loc d v(1) lt k(2) mm by (simp add: splice_bufs_def write_at_def Let_def nat_diff_distrib)
    have "length (take ?k a @ drop ?k b) = length b" using lt k(2) by simp
    moreover have "(take ?k a @ drop ?k b) ! Max D \<noteq> a ! Max D \<and> (take ?k a @ drop ?k b = b \<longleftrightarrow> ?k = Min D)"
      by (rule spliced_shape) (use k d(1) in \<open>simp_all add: D_def\<close>)
    ultimately show ?thesis unfolding e D_def[symmetric] using k
      by (intro exI[of _ "Some (take ?k a @ drop ?k b)"] exI[of _ w'] conjI refl) (simp only: option.case, intro exI[of _ ?k] conjI, simp_all)
  qed
qed


definition quiet_fpar :: "nat rng fpar" where
  "quiet_fpar = \<lparr>hp = \<lparr>tst = \<lparr>run_test = (\<lambda>opn b w. (False, w)), wait_all = id, symbex = id, hits = (\<lambda>_. 0),
       bind_eff = (\<lambda>m w. w), read_eff = (\<lambda>w. ([], 0)), rnd = (\<lambda>n w. (0, w))\<rparr>,
     src = UR (\<lambda>s. (s, s + 7)) unat, paths = upos,
     env = (\<lambda>w. \<lparr>queue_cycle = 1, run_over10m = False, extras = [], a_extras = []\<rparr>), havoc_div = 1\<rparr>,
     qs = (\<lambda>w. empty_queue 8), put_qs = (\<lambda>s w. w), files = (\<lambda>w n. None),
     cal = (\<lambda>w. \<lparr>total_cal_us = 0, total_cal_cycles = 1, total_bitmap_size = 0, total_bitmap_entries = 1\<rparr>),
     calibrate = (\<lambda>q b w. (FAULT_NONE, w)), stop_soon = (\<lambda>w. False), count_skip = id, reset_eff = id,
     opts = \<lparr>skip_deterministic = False, use_splicing = True, crash_mode = FAULT_NONE, master_id = 0, master_max = 0\<rparr>\<rparr>"

theorem splice_bufs_witness:
  "\<exists>r w'. splice_bufs quiet_fpar [1, 2, 3, 4] [1, 9, 3, 8, 5] \<lparr>rand_cnt = 7, prng = 3, urandom = (\<lambda>i. 0), upos = 0\<rparr> = Inr (r, w') \<and>
    (case r of
       None \<Rightarrow> diffs [1, 2, 3, 4] [1, 9, 3, 8, 5] = {} \<or> Max (diffs [1, 2, 3, 4] [1, 9, 3, 8, 5]) < 2 \<or>
         Min (diffs [1, 2, 3, 4] [1, 9, 3, 8, 5]) = Max (diffs [1, 2, 3, 4] [1, 9, 3, 8, 5])
     | Some c \<Rightarrow> \<exists>k. Min (diffs [1, 2, 3, 4] [1, 9, 3, 8, 5]) \<le> k \<and> k < Max (diffs [1, 2, 3, 4] [1, 9, 3, 8, 5]) \<and>
         c = take k [1, 2, 3, 4] @ drop k [1, 9, 3, 8, 5] \<and> length c = length [1 :: u8, 9, 3, 8, 5] \<and>
         c ! Max (diffs [1, 2, 3, 4] [1, 9, 3, 8, 5]) \<noteq> [1, 2, 3, 4] ! Max (diffs [1, 2, 3, 4] [1, 9, 3, 8, 5]) \<and>
         (c = [1, 9, 3, 8, 5] \<longleftrightarrow> k = Min (diffs [1, 2, 3, 4] [1, 9, 3, 8, 5])))"
  by (rule splice_bufs_shape) (simp add: quiet_fpar_def UR.rng_source_axioms)

end
