(* ===== verification/Dict.thy ===== *)
theory Dict
  imports Det Rng
begin

unbundle bit_operations_syntax

text \<open>
  Dictionaries: reading a file or a directory of user tokens, the automatically collected tokens with
  eviction and sorting, their files, and the tokens that \<^verbatim>\<open>libtokencap\<close> writes for later use. Characters are
  bytes, classified as in the C locale. The library function \<^verbatim>\<open>qsort\<close> is a parameter.
\<close>

section \<open>Characters\<close>

definition isspace :: "u8 \<Rightarrow> bool" where "isspace c \<longleftrightarrow> c = 32 \<or> (9 \<le> c \<and> c \<le> 13)"
definition isdigit :: "u8 \<Rightarrow> bool" where "isdigit c \<longleftrightarrow> 48 \<le> c \<and> c \<le> 57"
definition isupper :: "u8 \<Rightarrow> bool" where "isupper c \<longleftrightarrow> 65 \<le> c \<and> c \<le> 90"
definition islower :: "u8 \<Rightarrow> bool" where "islower c \<longleftrightarrow> 97 \<le> c \<and> c \<le> 122"
definition isalnum :: "u8 \<Rightarrow> bool" where "isalnum c \<longleftrightarrow> isdigit c \<or> isupper c \<or> islower c"
definition tolower :: "u8 \<Rightarrow> u8" where "tolower c = (if isupper c then c + 32 else c)"
definition isxdigit :: "u8 \<Rightarrow> bool" where
  "isxdigit c \<longleftrightarrow> isdigit c \<or> (97 \<le> tolower c \<and> tolower c \<le> 102)"

text \<open>The position of a digit in \<^verbatim>\<open>"0123456789abcdef"\<close>, and back.\<close>

definition hexval :: "u8 \<Rightarrow> u8" where
  "hexval c = (if isdigit c then c - 48 else tolower c - 87)"

definition hexdigit :: "u8 \<Rightarrow> u8" where
  "hexdigit v = (if v < 10 then v + 48 else v + 87)"

text \<open>A C string: up to the first zero byte.\<close>

definition cstr :: "buf \<Rightarrow> buf" where "cstr s = takeWhile (\<lambda>c. c \<noteq> 0) s"

text \<open>\<^verbatim>\<open>atoi\<close>: blanks, a sign, digits; saturated to 64 and cut to 32 bits as in the C library.\<close>

definition digits_val :: "buf \<Rightarrow> int" where
  "digits_val s = fold (\<lambda>c n. 10 * n + (uint c - 48)) (takeWhile isdigit s) 0"

definition atoi :: "buf \<Rightarrow> u32" where
  "atoi s = (let s = dropWhile isspace s;
       v = (if s \<noteq> [] \<and> hd s = 45 then - digits_val (tl s) else if s \<noteq> [] \<and> hd s = 43 then digits_val (tl s) else digits_val s)
     in word_of_int (max (- (2 ^ 63)) (min (2 ^ 63 - 1) v)))"

section \<open>Lines of a dictionary\<close>

definition malformed :: "err + 'a" where "malformed = Inl (Fatal ''Malformed name=value pair'')"

text \<open>The text between the quotes, with its escapes.\<close>

fun parse_body :: "buf \<Rightarrow> err + buf" where
  "parse_body [] = Inr []"
| "parse_body (c # cs) =
     (if c \<le> 31 \<or> 128 \<le> c then Inl (Fatal ''Non-printable characters'')
      else if c = 92 then
        (case cs of
           [] \<Rightarrow> Inl (Fatal ''Invalid escaping'')
         | d # ds \<Rightarrow>
             if d = 92 \<or> d = 34 then err_bind (parse_body ds) (\<lambda>t. Inr (d # t))
             else (case ds of
                 a # b # es \<Rightarrow>
                   if d = 120 \<and> isxdigit a \<and> isxdigit b
                   then err_bind (parse_body es) (\<lambda>t. Inr ((push_bit 4 (hexval a) OR hexval b) # t))
                   else Inl (Fatal ''Invalid escaping'')
               | _ \<Rightarrow> Inl (Fatal ''Invalid escaping'')))
      else err_bind (parse_body cs) (\<lambda>t. Inr (c # t)))"

definition parse_value :: "buf \<Rightarrow> err + buf option" where
  "parse_value s =
     (let s = dropWhile (\<lambda>c. isspace c \<or> c = 61) s in
      if s = [] \<or> hd s \<noteq> 34 then malformed
      else if tl s = [] then Inl (Fatal ''Empty keyword'')
      else err_bind (parse_body (tl s)) (\<lambda>tok.
        if length tok > MAX_DICT_FILE then Inl (Fatal ''Keyword too big'') else Inr (Some tok)))"

definition trim :: "buf \<Rightarrow> buf" where
  "trim s = rev (dropWhile isspace (rev (dropWhile isspace s)))"

text \<open>One line: \<^term>\<open>None\<close> for a line that is skipped.\<close>

definition parse_line :: "nat \<Rightarrow> buf \<Rightarrow> err + buf option" where
  "parse_line dict_level line =
     (let s = trim (cstr line) in
      if s = [] \<or> hd s = 35 then Inr None
      else if last s \<noteq> 34 then malformed
      else
        let s = dropWhile (\<lambda>c. isalnum c \<or> c = 95) (butlast s) in
        if s \<noteq> [] \<and> hd s = 64 then
          (if unat (atoi (tl s)) > dict_level then Inr None else parse_value (dropWhile isdigit (tl s)))
        else parse_value s)"

text \<open>\<^verbatim>\<open>fgets(buf, MAX_LINE, f)\<close> over the contents of a file.\<close>

definition MAX_LINE :: nat where [simp]: "MAX_LINE = 8192"

definition fgets_one :: "buf \<Rightarrow> buf" where
  "fgets_one c = (let p = take (MAX_LINE - 1) c; l = takeWhile (\<lambda>x. x \<noteq> 10) p in take (length l + 1) p)"

function fgets_lines :: "buf \<Rightarrow> buf list" where
  "fgets_lines c = (if c = [] then [] else fgets_one c # fgets_lines (drop (length (fgets_one c)) c))"
  by pat_completeness auto
termination
  by (relation "measure length") (auto simp: fgets_one_def Let_def neq_Nil_conv)

declare fgets_lines.simps [simp del]

section \<open>Loading user tokens\<close>

record loading =
  toks :: "extra_data list"
  min_len :: nat
  max_len :: nat

definition new_token :: "buf \<Rightarrow> loading \<Rightarrow> loading" where
  "new_token tok ld = \<lparr>toks = toks ld @ [\<lparr>ex_data = tok, hit_cnt = 0\<rparr>], min_len = min (min_len ld) (length tok),
     max_len = max (max_len ld) (length tok)\<rparr>"

definition load_line :: "nat \<Rightarrow> buf \<Rightarrow> loading \<Rightarrow> err + loading" where
  "load_line dict_level line ld =
     err_bind (parse_line dict_level line) (\<lambda>r. Inr (case r of None \<Rightarrow> ld | Some tok \<Rightarrow> new_token tok ld))"

definition load_extras_file :: "nat \<Rightarrow> buf \<Rightarrow> loading \<Rightarrow> err + loading" where
  "load_extras_file dict_level content ld = fold_err (load_line dict_level) (fgets_lines content) ld"

text \<open>What \<^verbatim>\<open>lstat\<close> and \<^verbatim>\<open>access\<close> tell of a directory entry, and its contents.\<close>

record dirent =
  readable :: bool
  regular :: bool
  content :: buf

definition load_dirent :: "dirent \<Rightarrow> loading \<Rightarrow> err + loading" where
  "load_dirent e ld =
     (if \<not> readable e then Inl (Fatal ''Unable to access'')
      else if \<not> regular e \<or> content e = [] then Inr ld
      else if length (content e) > MAX_DICT_FILE then Inl (Fatal ''Extra is too big'')
      else Inr (new_token (content e) ld))"

datatype path_kind = Missing | Plain buf | Directory "dirent list"

type_synonym sorter = "(extra_data \<Rightarrow> extra_data \<Rightarrow> int) \<Rightarrow> extra_data list \<Rightarrow> extra_data list"

text \<open>The comparison functions subtract 32-bit values and return a signed difference.\<close>

definition compare_extras_len :: "extra_data \<Rightarrow> extra_data \<Rightarrow> int" where
  "compare_extras_len e1 e2 = sint (word_of_nat (length (ex_data e1)) - word_of_nat (length (ex_data e2)) :: u32)"

definition compare_extras_use_d :: "extra_data \<Rightarrow> extra_data \<Rightarrow> int" where
  "compare_extras_use_d e1 e2 = sint (word_of_nat (hit_cnt e2) - word_of_nat (hit_cnt e1) :: u32)"

definition load_extras :: "sorter \<Rightarrow> (buf \<Rightarrow> path_kind) \<Rightarrow> buf \<Rightarrow> err + extra_data list" where
  "load_extras qsort fs dir =
     (let at = (64 \<in> set dir); name = takeWhile (\<lambda>c. c \<noteq> 64) dir;
          dict_level = (if at then unat (atoi (tl (dropWhile (\<lambda>c. c \<noteq> 64) dir))) else 0);
          ld = \<lparr>toks = [], min_len = MAX_DICT_FILE, max_len = 0\<rparr>
      in err_bind
        (case fs name of
           Missing \<Rightarrow> Inl (Fatal ''Unable to open'')
         | Plain c \<Rightarrow> load_extras_file dict_level c ld
         | Directory es \<Rightarrow> if at then Inl (Fatal ''Dictionary levels not supported for directories'') else fold_err load_dirent es ld)
        (\<lambda>ld. if toks ld = [] then Inl (Fatal ''No usable files'') else Inr (qsort compare_extras_len (toks ld))))"

section \<open>Automatic tokens\<close>

record dict =
  d_extras :: "extra_data list"
  d_auto :: "extra_data list"
  auto_changed :: bool

definition memcmp_nocase :: "buf \<Rightarrow> buf \<Rightarrow> bool" where
  "memcmp_nocase m1 m2 = list_ex (\<lambda>(a, b). tolower a \<noteq> tolower b) (zip m1 m2)"

text \<open>
  A two-byte token is compared as an unsigned value with the signed constant, so a negative
  constant only matches in its byte-swapped form; a four-byte token is compared in 32 unsigned bits.
\<close>

definition builtin :: "buf \<Rightarrow> bool" where
  "builtin mem \<longleftrightarrow>
     (length mem = 2 \<and> list_ex (\<lambda>v. uint (load16 mem 0) = sint v \<or> load16 mem 0 = SWAP16 v) interesting_16) \<or>
     (length mem = 4 \<and> list_ex (\<lambda>v. load32 mem 0 = v \<or> load32 mem 0 = SWAP32 v) interesting_32)"

definition same_bytes :: "buf \<Rightarrow> bool" where
  "same_bytes mem \<longleftrightarrow> mem \<noteq> [] \<and> list_all (\<lambda>c. c = hd mem) (tl mem)"

definition known_extra :: "extra_data list \<Rightarrow> buf \<Rightarrow> bool" where
  "known_extra xs mem \<longleftrightarrow>
     list_ex (\<lambda>x. \<not> memcmp_nocase (ex_data x) mem)
       (takeWhile (\<lambda>x. length (ex_data x) = length mem) (dropWhile (\<lambda>x. length (ex_data x) < length mem) xs))"

text \<open>The first matching token gets a hit.\<close>

fun hit_auto :: "extra_data list \<Rightarrow> buf \<Rightarrow> extra_data list option" where
  "hit_auto [] mem = None"
| "hit_auto (x # xs) mem =
     (if length (ex_data x) = length mem \<and> \<not> memcmp_nocase (ex_data x) mem
      then Some (x\<lparr>hit_cnt := (hit_cnt x + 1) mod 2 ^ 32\<rparr> # xs)
      else map_option (Cons x) (hit_auto xs mem))"

definition sort_auto :: "sorter \<Rightarrow> extra_data list \<Rightarrow> extra_data list" where
  "sort_auto qsort xs =
     (let ys = qsort compare_extras_use_d xs; n = min USE_AUTO_EXTRAS (length ys) in
      qsort compare_extras_len (take n ys) @ drop n ys)"

definition maybe_add_auto ::
  "sorter \<Rightarrow> (nat \<Rightarrow> 'r \<Rightarrow> (nat \<times> 'r) option) \<Rightarrow> buf \<Rightarrow> dict \<Rightarrow> 'r \<Rightarrow> (dict \<times> 'r) option"
where
  "maybe_add_auto qsort ur mem st r =
     (if same_bytes mem \<or> builtin mem \<or> known_extra (d_extras st) mem then Some (st, r)
      else
        let st = st\<lparr>auto_changed := True\<rparr>; new = \<lparr>ex_data = mem, hit_cnt = 0\<rparr> in
        case hit_auto (d_auto st) mem of
          Some xs \<Rightarrow> Some (st\<lparr>d_auto := sort_auto qsort xs\<rparr>, r)
        | None \<Rightarrow>
            if length (d_auto st) < MAX_AUTO_EXTRAS then Some (st\<lparr>d_auto := sort_auto qsort (d_auto st @ [new])\<rparr>, r)
            else do {
              (v, r) \<leftarrow> ur ((MAX_AUTO_EXTRAS + 1) div 2) r;
              let i = MAX_AUTO_EXTRAS div 2 + v;
              if i < length (d_auto st) then Some (st\<lparr>d_auto := sort_auto qsort ((d_auto st)[i := new])\<rparr>, r) else None
            })"

text \<open>The files \<^verbatim>\<open>auto_000000\<close>, \<^verbatim>\<open>auto_000001\<close>, ... as a map from their number.\<close>

definition save_auto :: "dict \<Rightarrow> (nat \<Rightarrow> buf option) \<Rightarrow> dict \<times> (nat \<Rightarrow> buf option)" where
  "save_auto st fs =
     (if \<not> auto_changed st then (st, fs)
      else (st\<lparr>auto_changed := False\<rparr>,
            \<lambda>i. if i < min USE_AUTO_EXTRAS (length (d_auto st)) then Some (ex_data (d_auto st ! i)) else fs i))"

fun load_auto_from ::
  "nat \<Rightarrow> nat \<Rightarrow> sorter \<Rightarrow> (nat \<Rightarrow> 'r \<Rightarrow> (nat \<times> 'r) option) \<Rightarrow> (nat \<Rightarrow> buf option) \<Rightarrow> dict \<Rightarrow> 'r \<Rightarrow> (dict \<times> 'r) option"
where
  "load_auto_from 0 i qsort ur fs st r = Some (st, r)"
| "load_auto_from (Suc k) i qsort ur fs st r =
     (case fs i of
        None \<Rightarrow> Some (st, r)
      | Some c \<Rightarrow>
          let tmp = take (MAX_AUTO_EXTRA + 1) c in
          do {
            (st, r) \<leftarrow> (if MIN_AUTO_EXTRA \<le> length tmp \<and> length tmp \<le> MAX_AUTO_EXTRA
                        then maybe_add_auto qsort ur tmp st r else Some (st, r));
            load_auto_from k (Suc i) qsort ur fs st r
          })"

definition load_auto ::
  "sorter \<Rightarrow> (nat \<Rightarrow> 'r \<Rightarrow> (nat \<times> 'r) option) \<Rightarrow> (nat \<Rightarrow> buf option) \<Rightarrow> dict \<Rightarrow> 'r \<Rightarrow> (dict \<times> 'r) option"
where
  "load_auto qsort ur fs st r = load_auto_from USE_AUTO_EXTRAS 0 qsort ur fs st r"

section \<open>Tokens written by libtokencap\<close>

definition esc_char :: "u8 \<Rightarrow> buf" where
  "esc_char c = (if c \<le> 31 \<or> 127 \<le> c \<or> c = 34 \<or> c = 92
     then [92, 120, hexdigit (drop_bit 4 c), hexdigit (c AND 15)] else [c])"

text \<open>
  \<^verbatim>\<open>__tokencap_dump\<close>: nothing for tokens of unsuitable length; a text ends at its first zero byte.
\<close>

definition tokencap_dump :: "buf \<Rightarrow> bool \<Rightarrow> buf" where
  "tokencap_dump tok is_text =
     (if length tok < MIN_AUTO_EXTRA \<or> length tok > MAX_AUTO_EXTRA then []
      else [34] @ concat (map esc_char (if is_text then cstr tok else tok)) @ [34, 10])"

end
