(* ===== verification/Dict_Props.thy ===== *)
theory Dict_Props
  imports Dict
begin

unbundle bit_operations_syntax

text \<open>
  Properties of the dictionaries: what loading guarantees, what collecting keeps, and the two round trips
  through files, of tokens written by \<^verbatim>\<open>libtokencap\<close> and of automatic tokens saved between sessions.
\<close>

section \<open>Tokens written by libtokencap\<close>

lemma nibble_all:
  assumes "list_all (\<lambda>n. P (word_of_nat n)) [0..<16]" "(v :: u8) < 16"
  shows "P v"
proof -
  have "unat v \<in> set [0..<16]" using assms(2) by (simp add: word_less_nat_alt)
  then have "P (word_of_nat (unat v))" using assms(1) unfolding list_all_iff by blast
  then show ?thesis by simp
qed

lemma nibble: "(v :: u8) < 16 \<Longrightarrow> isxdigit (hexdigit v) \<and> hexval (hexdigit v) = v \<and> hexdigit v \<noteq> 0 \<and> hexdigit v \<noteq> 10"
  by (erule nibble_all[rotated]) code_simp

lemma nibbles: "push_bit 4 (drop_bit 4 c) OR (c AND 15) = (c :: u8)" "drop_bit 4 c < 16" "c AND 15 < 16"
proof -
  have m: "(15 :: u8) = mask 4" by (simp add: mask_eq_exp_minus_1)
  show "push_bit 4 (drop_bit 4 c) OR (c AND 15) = c"
    unfolding m by (rule bit_word_eqI) (auto simp: bit_simps)
  have "unat (drop_bit 4 c) = unat c div 16" by (simp add: drop_bit_eq_div unat_div)
  moreover have "unat c < 2 ^ LENGTH(8)" by (rule unsigned_less)
  ultimately show "drop_bit 4 c < 16" by (simp add: word_less_nat_alt)
  show "c AND 15 < 16" using word_and_le1[of c 15] by (simp add: word_le_nat_alt word_less_nat_alt le_less_trans)
qed

lemma parse_body_esc: "parse_body (esc_char c @ cs) = err_bind (parse_body cs) (\<lambda>t. Inr (c # t))"
proof (cases "c \<le> 31 \<or> 127 \<le> c \<or> c = 34 \<or> c = 92")
  case True
  then show ?thesis using nibble[OF nibbles(2), of c] nibble[OF nibbles(3), of c] nibbles(1)[of c]
    by (simp add: esc_char_def)
next
  case False
  then have "\<not> 128 \<le> c" by (simp add: word_le_nat_alt)
  with False show ?thesis by (simp add: esc_char_def)
qed

lemma parse_body_dump: "parse_body (concat (map esc_char t)) = Inr t"
  by (induction t) (simp_all add: parse_body_esc)

lemma dump_clean: "0 \<notin> set (concat (map esc_char t))" "10 \<notin> set (concat (map esc_char t))"
  using nibbles(2,3) by (auto simp: esc_char_def dest: nibble)

text \<open>The line of a dumped token, with the token as read back.\<close>

lemma parse_dumped:
  assumes "length t \<le> MAX_DICT_FILE"
  shows "parse_line lvl ([34] @ concat (map esc_char t) @ [34, 10]) =
    (if t = [] then Inl (Fatal ''Empty keyword'') else Inr (Some t))"
proof -
  let ?b = "concat (map esc_char t)"
  have c: "cstr ([34] @ ?b @ [34, 10]) = [34] @ ?b @ [34, 10]"
    unfolding cstr_def using dump_clean(1)[of t] by (intro takeWhile_eq_all_conv[THEN iffD2]) auto
  have t: "trim ([34] @ ?b @ [34, 10]) = 34 # ?b @ [34]"
    by (simp add: trim_def isspace_def)
  have "butlast (34 # ?b @ [34]) = 34 # ?b" by (simp add: butlast_append)
  moreover have "last (34 # ?b @ [34]) = 34" by simp
  moreover have "?b = [] \<longleftrightarrow> t = []" by (cases t) (auto simp: esc_char_def split: if_splits)
  ultimately show ?thesis
    unfolding parse_line_def c t using assms
    by (simp add: isalnum_def isdigit_def isupper_def islower_def isspace_def parse_value_def parse_body_dump Let_def)
qed

lemma length_dump: "length (concat (map esc_char t)) \<le> 4 * length t"
  by (induction t) (auto simp: esc_char_def)

text \<open>A short line that ends in a newline is read as a whole.\<close>

lemma fgets_lines_line:
  assumes "10 \<notin> set l" "length l + 1 < MAX_LINE"
  shows "fgets_lines (l @ 10 # rest) = (l @ [10]) # fgets_lines rest"
proof -
  define k where "k = MAX_LINE - 1 - length l - 1"
  have "take (MAX_LINE - 1) (l @ 10 # rest) = l @ 10 # take k rest"
    using assms(2) by (simp add: k_def take_Cons')
  moreover have "takeWhile (\<lambda>x. x \<noteq> 10) (l @ 10 # take k rest) = l"
    using assms(1) by (subst takeWhile_append2) auto
  ultimately have "fgets_one (l @ 10 # rest) = l @ [10]" by (simp add: fgets_one_def)
  then show ?thesis by (subst fgets_lines.simps) simp
qed

text \<open>The tokens of suitable length, and what is captured of a token.\<close>

definition dumped :: "buf \<times> bool \<Rightarrow> bool" where
  "dumped p \<longleftrightarrow> MIN_AUTO_EXTRA \<le> length (fst p) \<and> length (fst p) \<le> MAX_AUTO_EXTRA"

definition captured :: "buf \<times> bool \<Rightarrow> buf" where
  "captured p = (if snd p then cstr (fst p) else fst p)"

lemma load_dumped:
  assumes "dumped p"
  shows "load_extras_file lvl (tokencap_dump (fst p) (snd p) @ rest) ld =
    (if captured p = [] then Inl (Fatal ''Empty keyword'') else load_extras_file lvl rest (new_token (captured p) ld))"
proof -
  let ?l = "34 # concat (map esc_char (captured p)) @ [34]"
  have len: "length (captured p) \<le> MAX_AUTO_EXTRA"
    using assms le_trans[OF length_takeWhile_le] by (fastforce simp: dumped_def captured_def cstr_def)
  have d: "tokencap_dump (fst p) (snd p) @ rest = ?l @ 10 # rest"
    using assms by (simp add: dumped_def captured_def tokencap_dump_def)
  have "length ?l + 1 < MAX_LINE" using length_dump[of "captured p"] len by simp
  then have f: "fgets_lines (?l @ 10 # rest) = (?l @ [10]) # fgets_lines rest"
    using dump_clean(2)[of "captured p"] by (intro fgets_lines_line) auto
  have "parse_line lvl (?l @ [10]) = (if captured p = [] then Inl (Fatal ''Empty keyword'') else Inr (Some (captured p)))"
    using parse_dumped[of "captured p" lvl] len by simp
  then show ?thesis unfolding load_extras_file_def d f by (simp add: load_line_def)
qed

text \<open>
  C32: the round trip of captured tokens. A file that \<^verbatim>\<open>libtokencap\<close> has written for any sequence of tokens is read by
  the dictionary loader, at every level, as exactly the tokens of suitable length in their order, whatever bytes they
  have; a text token is cut at its first zero byte. The one exception is a text token that begins with a zero byte, which
  the replacements of \<^verbatim>\<open>strncmp\<close> and \<^verbatim>\<open>strncasecmp\<close> dump as an empty keyword: on such a file the loader aborts.
\<close>

theorem tokencap_roundtrip:
  "load_extras_file lvl (concat (map (\<lambda>p. tokencap_dump (fst p) (snd p)) ps)) ld =
    (if list_ex (\<lambda>p. captured p = []) (filter dumped ps) then Inl (Fatal ''Empty keyword'')
     else Inr (fold new_token (map captured (filter dumped ps)) ld))"
proof (induction ps arbitrary: ld)
  case Nil
  have "fgets_lines [] = []" by (subst fgets_lines.simps) simp
  then show ?case by (simp add: load_extras_file_def)
next
  case (Cons p ps)
  show ?case
  proof (cases "dumped p")
    case True
    then show ?thesis using Cons by (simp add: load_dumped)
  next
    case False
    then have "tokencap_dump (fst p) (snd p) = []" by (auto simp: dumped_def tokencap_dump_def)
    then show ?thesis using Cons False by simp
  qed
qed

theorem tokencap_witness:
  "load_extras_file 0 (concat (map (\<lambda>p. tokencap_dump (fst p) (snd p)) [([34, 0, 92, 200], False), ([65, 66, 67, 0, 68], True), ([7], False)]))
     \<lparr>toks = [], min_len = 128, max_len = 0\<rparr> =
   Inr (fold new_token [[34, 0, 92, 200], [65, 66, 67]] \<lparr>toks = [], min_len = 128, max_len = 0\<rparr>)"
  unfolding tokencap_roundtrip by (simp add: dumped_def captured_def cstr_def)


section \<open>Sorting\<close>

text \<open>What the C standard promises of \<^verbatim>\<open>qsort\<close>, for a comparison that orders the elements.\<close>

definition orders :: "(extra_data \<Rightarrow> extra_data \<Rightarrow> int) \<Rightarrow> extra_data set \<Rightarrow> bool" where
  "orders cmp A \<longleftrightarrow> (\<forall>x \<in> A. \<forall>y \<in> A. cmp x y \<le> 0 \<or> cmp y x \<le> 0) \<and>
     (\<forall>x \<in> A. \<forall>y \<in> A. \<forall>z \<in> A. cmp x y \<le> 0 \<longrightarrow> cmp y z \<le> 0 \<longrightarrow> cmp x z \<le> 0)"

definition qsort_ok :: "sorter \<Rightarrow> bool" where
  "qsort_ok qsort \<longleftrightarrow> (\<forall>cmp xs. orders cmp (set xs) \<longrightarrow>
     mset (qsort cmp xs) = mset xs \<and> sorted_wrt (\<lambda>x y. cmp x y \<le> 0) (qsort cmp xs))"

lemma sint_diff:
  assumes "a < 2 ^ 31" "b < 2 ^ 31"
  shows "sint (word_of_nat a - word_of_nat b :: u32) = int a - int b"
proof -
  have "sint (word_of_nat a - word_of_nat b :: u32) = sint (word_of_int (int a - int b) :: u32)" by simp
  also have "\<dots> = signed_take_bit 31 (int a - int b)" by (subst signed_of_int) simp
  also have "\<dots> = int a - int b" using assms by (intro signed_take_bit_int_eq_self) simp_all
  finally show ?thesis .
qed

lemma orders_len: "(\<forall>x \<in> A. length (ex_data x) < 2 ^ 31) \<Longrightarrow> orders compare_extras_len A"
  unfolding orders_def compare_extras_len_def by (auto simp: sint_diff)

lemma orders_use: "(\<forall>x \<in> A. hit_cnt x < 2 ^ 31) \<Longrightarrow> orders compare_extras_use_d A"
  unfolding orders_def compare_extras_use_d_def by (auto simp: sint_diff)

lemma qsort_len:
  assumes "qsort_ok qsort" "\<forall>x \<in> set xs. length (ex_data x) < 2 ^ 31"
  shows "mset (qsort compare_extras_len xs) = mset xs" "sorted (map (length \<circ> ex_data) (qsort compare_extras_len xs))"
proof -
  have r: "mset (qsort compare_extras_len xs) = mset xs" "sorted_wrt (\<lambda>x y. compare_extras_len x y \<le> 0) (qsort compare_extras_len xs)"
    using assms(1) orders_len[of "set xs"] assms(2) by (auto simp: qsort_ok_def)
  then show "mset (qsort compare_extras_len xs) = mset xs" by simp
  have s: "set (qsort compare_extras_len xs) = set xs" using r(1) by (metis set_mset_mset)
  have "sorted_wrt (\<lambda>x y. length (ex_data x) \<le> length (ex_data y)) (qsort compare_extras_len xs)"
    using r(2) by (rule sorted_wrt_mono_rel[rotated]) (use s assms(2) in \<open>auto simp: compare_extras_len_def sint_diff\<close>)
  then show "sorted (map (length \<circ> ex_data) (qsort compare_extras_len xs))"
    by (simp add: sorted_map comp_def)
qed

lemma qsort_use:
  assumes "qsort_ok qsort" "\<forall>x \<in> set xs. hit_cnt x < 2 ^ 31"
  shows "mset (qsort compare_extras_use_d xs) = mset xs"
  using assms(1) orders_use[of "set xs"] assms(2) by (auto simp: qsort_ok_def)

lemma sort_auto_ok:
  assumes "qsort_ok qsort" "\<forall>x \<in> set xs. hit_cnt x < 2 ^ 31 \<and> length (ex_data x) < 2 ^ 31"
  shows "mset (sort_auto qsort xs) = mset xs" "sorted (map (length \<circ> ex_data) (take USE_AUTO_EXTRAS (sort_auto qsort xs)))"
proof -
  define ys where "ys = qsort compare_extras_use_d xs"
  have m: "mset ys = mset xs" unfolding ys_def by (rule qsort_use) (use assms in auto)
  then have s: "set ys = set xs" by (metis set_mset_mset)
  define n where "n = min USE_AUTO_EXTRAS (length ys)"
  have le: "\<forall>x \<in> set (take n ys). length (ex_data x) < 2 ^ 31"
    using assms(2) s by (auto dest: in_set_takeD)
  note q = qsort_len[OF assms(1) le]
  have e: "sort_auto qsort xs = qsort compare_extras_len (take n ys) @ drop n ys"
    by (simp add: sort_auto_def ys_def n_def Let_def)
  have "mset (sort_auto qsort xs) = mset (take n ys) + mset (drop n ys)" unfolding e using q(1) by simp
  also have "\<dots> = mset xs" unfolding mset_append[symmetric] append_take_drop_id m ..
  finally show "mset (sort_auto qsort xs) = mset xs" .
  have "length (qsort compare_extras_len (take n ys)) = n"
    using q(1) by (metis length_take min.absorb2 min.cobounded2 n_def size_mset)
  then have "take USE_AUTO_EXTRAS (sort_auto qsort xs) = qsort compare_extras_len (take n ys) \<or>
      take USE_AUTO_EXTRAS (sort_auto qsort xs) = qsort compare_extras_len (take n ys) @ [] \<and> drop n ys = []"
    unfolding e n_def by (cases "USE_AUTO_EXTRAS \<le> length ys") auto
  then show "sorted (map (length \<circ> ex_data) (take USE_AUTO_EXTRAS (sort_auto qsort xs)))" using q(2) by auto
qed


text \<open>A sorting function that satisfies the contract: insertion sort.\<close>

fun ins :: "(extra_data \<Rightarrow> extra_data \<Rightarrow> int) \<Rightarrow> extra_data \<Rightarrow> extra_data list \<Rightarrow> extra_data list" where
  "ins cmp x [] = [x]"
| "ins cmp x (y # ys) = (if cmp x y \<le> 0 then x # y # ys else y # ins cmp x ys)"

definition ins_sort :: sorter where
  "ins_sort cmp xs = foldr (ins cmp) xs []"

lemma mset_ins: "mset (ins cmp x ys) = add_mset x (mset ys)"
  by (induction ys) auto

lemma mset_ins_sort: "mset (ins_sort cmp xs) = mset xs"
  unfolding ins_sort_def by (induction xs) (simp_all add: mset_ins)

lemma orders_subset: "orders cmp B \<Longrightarrow> A \<subseteq> B \<Longrightarrow> orders cmp A"
  unfolding orders_def by (meson subsetD)

lemma orders_total: "orders cmp A \<Longrightarrow> x \<in> A \<Longrightarrow> y \<in> A \<Longrightarrow> \<not> cmp x y \<le> 0 \<Longrightarrow> cmp y x \<le> 0"
  unfolding orders_def by blast

lemma orders_trans: "orders cmp A \<Longrightarrow> x \<in> A \<Longrightarrow> y \<in> A \<Longrightarrow> z \<in> A \<Longrightarrow> cmp x y \<le> 0 \<Longrightarrow> cmp y z \<le> 0 \<Longrightarrow> cmp x z \<le> 0"
  unfolding orders_def by blast

lemma sorted_ins:
  assumes "orders cmp (insert x (set ys))" "sorted_wrt (\<lambda>x y. cmp x y \<le> 0) ys"
  shows "sorted_wrt (\<lambda>x y. cmp x y \<le> 0) (ins cmp x ys)"
  using assms
proof (induction ys)
  case (Cons y ys)
  have s: "set (ins cmp x ys) = insert x (set ys)" using mset_ins[of cmp x ys] by (metis set_mset_add_mset_insert set_mset_mset)
  have "orders cmp (insert x (set ys))" by (rule orders_subset[OF Cons.prems(1)]) auto
  then have IH: "sorted_wrt (\<lambda>x y. cmp x y \<le> 0) (ins cmp x ys)" using Cons.IH Cons.prems(2) by simp
  show ?case
  proof (cases "cmp x y \<le> 0")
    case True
    have "cmp x z \<le> 0" if "z \<in> set ys" for z
      by (rule orders_trans[OF Cons.prems(1), of x y z]) (use that True Cons.prems(2) in simp_all)
    with True Cons.prems(2) show ?thesis by simp
  next
    case False
    have "cmp y x \<le> 0" by (rule orders_total[OF Cons.prems(1) _ _ False]) simp_all
    with False IH Cons.prems(2) s show ?thesis by simp
  qed
qed simp

lemma ins_sort_ok: "qsort_ok ins_sort"
  unfolding qsort_ok_def
proof (intro allI impI conjI)
  fix cmp xs
  assume o': "orders cmp (set xs)"
  show "mset (ins_sort cmp xs) = mset xs" by (rule mset_ins_sort)
  show "sorted_wrt (\<lambda>x y. cmp x y \<le> 0) (ins_sort cmp xs)"
    using o'
  proof (induction xs)
    case (Cons x xs)
    have "set (ins_sort cmp xs) = set xs" using mset_ins_sort[of cmp xs] by (metis set_mset_mset)
    moreover have "orders cmp (set xs)" by (rule orders_subset[OF Cons.prems]) auto
    ultimately show ?case using Cons.prems Cons.IH sorted_ins[of cmp x "ins_sort cmp xs"] by (simp add: ins_sort_def)
  qed (simp add: ins_sort_def)
qed


section \<open>Loading user tokens\<close>

text \<open>What holds of the tokens while they are read.\<close>

definition toks_ok :: "extra_data list \<Rightarrow> bool" where
  "toks_ok xs \<longleftrightarrow> (\<forall>x \<in> set xs. ex_data x \<noteq> [] \<and> length (ex_data x) \<le> MAX_DICT_FILE \<and> hit_cnt x = 0)"

lemma parse_body_nonempty: "parse_body s = Inr t \<Longrightarrow> s \<noteq> [] \<Longrightarrow> t \<noteq> []"
  by (cases s) (auto simp: err_bind_eq_Inr split: if_splits list.splits)

lemma parse_value_ok: "parse_value s = Inr (Some t) \<Longrightarrow> t \<noteq> [] \<and> length t \<le> MAX_DICT_FILE"
  by (auto simp: parse_value_def Let_def malformed_def err_bind_eq_Inr dest: parse_body_nonempty split: if_splits)

lemma parse_line_ok: "parse_line lvl l = Inr (Some t) \<Longrightarrow> t \<noteq> [] \<and> length t \<le> MAX_DICT_FILE"
  by (auto simp: parse_line_def Let_def malformed_def dest: parse_value_ok split: if_splits)

lemma new_token_ok: "toks_ok (toks ld) \<Longrightarrow> t \<noteq> [] \<Longrightarrow> length t \<le> MAX_DICT_FILE \<Longrightarrow> toks_ok (toks (new_token t ld))"
  by (auto simp: toks_ok_def new_token_def)

lemma load_line_ok: "toks_ok (toks ld) \<Longrightarrow> load_line lvl l ld = Inr ld' \<Longrightarrow> toks_ok (toks ld')"
  by (auto simp: load_line_def err_bind_eq_Inr dest: parse_line_ok intro!: new_token_ok split: option.splits)

lemma load_dirent_ok: "toks_ok (toks ld) \<Longrightarrow> load_dirent e ld = Inr ld' \<Longrightarrow> toks_ok (toks ld')"
  by (auto simp: load_dirent_def intro!: new_token_ok split: if_splits)

lemma load_lines_ok:
  "fold_err (load_line lvl) ls \<lparr>toks = [], min_len = m, max_len = n\<rparr> = Inr ld \<Longrightarrow> toks_ok (toks ld)"
  by (erule fold_err_inv[where P = "\<lambda>ld. toks_ok (toks ld)"]) (auto simp: toks_ok_def[of "[]"] intro: load_line_ok)

lemma load_dirents_ok:
  "fold_err load_dirent es \<lparr>toks = [], min_len = m, max_len = n\<rparr> = Inr ld \<Longrightarrow> toks_ok (toks ld)"
  by (erule fold_err_inv[where P = "\<lambda>ld. toks_ok (toks ld)"]) (auto simp: toks_ok_def[of "[]"] intro: load_dirent_ok)

lemma loaded_ok:
  assumes "qsort_ok qsort" "load_extras qsort fs dir = Inr es"
  shows "es \<noteq> [] \<and> toks_ok es \<and> sorted (map (length \<circ> ex_data) es)"
proof -
  from assms(2) obtain ld :: loading where l: "toks_ok (toks ld)" "toks ld \<noteq> []" "es = qsort compare_extras_len (toks ld)"
    unfolding load_extras_def Let_def err_bind_eq_Inr load_extras_file_def
    by (auto split: path_kind.splits if_splits dest: load_lines_ok load_dirents_ok)
  have "\<forall>x \<in> set (toks ld). length (ex_data x) < 2 ^ 31" using l(1) by (fastforce simp: toks_ok_def)
  note q = qsort_len[OF assms(1) this]
  have "set es = set (toks ld)" using q(1) l(3) by (metis set_mset_mset)
  then show ?thesis using q(2) l unfolding toks_ok_def by auto
qed

text \<open>
  C33: the type of a loaded dictionary. Whatever file or directory is given, loading either aborts or yields
  at least one token; every token is non-empty, at most \<^const>\<open>MAX_DICT_FILE\<close> bytes long and has no hits, and the tokens are sorted by
  length, which the deterministic stages and the collector rely on.
\<close>

theorem load_extras_typed:
  assumes "qsort_ok qsort"
  shows "(case load_extras qsort fs dir of
      Inl e \<Rightarrow> True
    | Inr es \<Rightarrow> es \<noteq> [] \<and> sorted (map (length \<circ> ex_data) es) \<and>
        (\<forall>x \<in> set es. 1 \<le> length (ex_data x) \<and> length (ex_data x) \<le> MAX_DICT_FILE \<and> hit_cnt x = 0))"
  using loaded_ok[OF assms, of fs dir] by (auto simp: toks_ok_def Suc_le_eq split: sum.split)

theorem load_extras_witness:
  "load_extras ins_sort (\<lambda>p. Directory [\<lparr>readable = True, regular = True, content = [65, 66]\<rparr>, \<lparr>readable = True, regular = False, content = []\<rparr>,
       \<lparr>readable = True, regular = True, content = [7]\<rparr>]) [100] = Inr [\<lparr>ex_data = [7], hit_cnt = 0\<rparr>, \<lparr>ex_data = [65, 66], hit_cnt = 0\<rparr>] \<and>
   sorted (map (length \<circ> ex_data) [\<lparr>ex_data = [7], hit_cnt = 0\<rparr>, \<lparr>ex_data = [65, 66], hit_cnt = 0\<rparr>])"
proof -
  let ?fs = "\<lambda>p :: buf. Directory [\<lparr>readable = True, regular = True, content = [65, 66]\<rparr>, \<lparr>readable = True, regular = False, content = []\<rparr>,
       \<lparr>readable = True, regular = True, content = [7]\<rparr>]"
  have "load_extras ins_sort ?fs [100] = Inr [\<lparr>ex_data = [7], hit_cnt = 0\<rparr>, \<lparr>ex_data = [65, 66], hit_cnt = 0\<rparr>]"
    by (simp add: load_extras_def load_dirent_def new_token_def ins_sort_def compare_extras_len_def)
  then show ?thesis using load_extras_typed[OF ins_sort_ok, of ?fs "[100]"] by simp
qed


section \<open>Collecting tokens\<close>

text \<open>Tokens are identified up to the case of their letters.\<close>

definition key :: "extra_data \<Rightarrow> buf" where
  "key x = map tolower (ex_data x)"

lemma memcmp_nocase_key:
  "length a = length b \<Longrightarrow> \<not> memcmp_nocase a b \<longleftrightarrow> map tolower a = map tolower b"
  by (auto simp: memcmp_nocase_def list_ex_iff in_set_zip list_eq_iff_nth_eq)

lemma known_extra_iff:
  assumes "sorted (map (length \<circ> ex_data) xs)"
  shows "known_extra xs mem \<longleftrightarrow> map tolower mem \<in> key ` set xs"
proof -
  let ?P = "\<lambda>x. length (ex_data x) < length mem" and ?Q = "\<lambda>x. length (ex_data x) = length mem"
  have "takeWhile ?Q (dropWhile ?P xs) = filter ?Q xs"
    using assms
  proof (induction xs)
    case (Cons x xs)
    show ?case
    proof (cases "?P x")
      case False
      have "takeWhile ?Q ys = filter ?Q ys" if "sorted (map (length \<circ> ex_data) ys)" "\<forall>y \<in> set ys. length mem \<le> length (ex_data y)" for ys
        using that
      proof (induction ys)
        case (Cons y ys)
        have "filter ?Q ys = []" if "\<not> ?Q y" using Cons.prems that by (fastforce simp: filter_empty_conv)
        with Cons show ?case by (cases "?Q y") simp_all
      qed simp
      moreover have "\<forall>y \<in> set (x # xs). length mem \<le> length (ex_data y)" using Cons.prems False by auto
      ultimately show ?thesis using False Cons.prems by (metis dropWhile.simps(2))
    qed (use Cons in auto)
  qed simp
  then have "known_extra xs mem \<longleftrightarrow> (\<exists>x \<in> set xs. length (ex_data x) = length mem \<and> \<not> memcmp_nocase (ex_data x) mem)"
    by (auto simp: known_extra_def list_ex_iff)
  also have "\<dots> \<longleftrightarrow> (\<exists>x \<in> set xs. map tolower (ex_data x) = map tolower mem)"
    using memcmp_nocase_key map_eq_imp_length_eq by blast
  finally show ?thesis by (auto simp: key_def image_iff eq_commute)
qed

lemma hit_auto_cases:
  "(case hit_auto xs mem of
      None \<Rightarrow> map tolower mem \<notin> key ` set xs
    | Some ys \<Rightarrow> map tolower mem \<in> key ` set xs \<and> map ex_data ys = map ex_data xs \<and>
        (\<forall>y \<in> set ys. \<exists>x \<in> set xs. hit_cnt y \<le> hit_cnt x + 1))"
proof (induction xs)
  case (Cons x xs)
  show ?case
  proof (cases "length (ex_data x) = length mem \<and> \<not> memcmp_nocase (ex_data x) mem")
    case True
    then have "key x = map tolower mem" using memcmp_nocase_key[of "ex_data x" mem] by (simp add: key_def)
    then have "map tolower mem \<in> key ` set (x # xs)" by simp
    moreover have "(hit_cnt x + 1) mod 2 ^ 32 \<le> hit_cnt x + 1" by simp
    moreover have "\<And>y. y \<in> set xs \<Longrightarrow> \<exists>z \<in> set (x # xs). hit_cnt y \<le> hit_cnt z + 1" by fastforce
    ultimately show ?thesis using True by auto
  next
    case False
    then have n: "map tolower mem \<noteq> key x" using memcmp_nocase_key map_eq_imp_length_eq unfolding key_def by metis
    show ?thesis
    proof (cases "hit_auto xs mem")
      case None
      then show ?thesis using Cons n False by auto
    next
      case (Some ys)
      then show ?thesis using Cons n False by (auto simp: image_iff)
    qed
  qed
qed simp

text \<open>What is true of the collected tokens at all times.\<close>

definition auto_ok :: "dict \<Rightarrow> bool" where
  "auto_ok st \<longleftrightarrow> length (d_auto st) \<le> MAX_AUTO_EXTRAS \<and> distinct (map key (d_auto st)) \<and>
     key ` set (d_auto st) \<inter> key ` set (d_extras st) = {} \<and>
     sorted (map (length \<circ> ex_data) (take USE_AUTO_EXTRAS (d_auto st))) \<and>
     (\<forall>x \<in> set (d_auto st). MIN_AUTO_EXTRA \<le> length (ex_data x) \<and> length (ex_data x) \<le> MAX_AUTO_EXTRA \<and>
        \<not> same_bytes (ex_data x) \<and> \<not> builtin (ex_data x))"

text \<open>The part of it that does not depend on the order.\<close>

definition bag_ok :: "extra_data list \<Rightarrow> extra_data list \<Rightarrow> bool" where
  "bag_ok es xs \<longleftrightarrow> length xs \<le> MAX_AUTO_EXTRAS \<and> distinct (map key xs) \<and> key ` set xs \<inter> key ` set es = {} \<and>
     (\<forall>x \<in> set xs. MIN_AUTO_EXTRA \<le> length (ex_data x) \<and> length (ex_data x) \<le> MAX_AUTO_EXTRA \<and>
        \<not> same_bytes (ex_data x) \<and> \<not> builtin (ex_data x))"

lemma auto_ok_bag: "auto_ok st \<longleftrightarrow> bag_ok (d_extras st) (d_auto st) \<and> sorted (map (length \<circ> ex_data) (take USE_AUTO_EXTRAS (d_auto st)))"
  by (auto simp: auto_ok_def bag_ok_def)

lemma bag_ok_mset: "mset xs = mset ys \<Longrightarrow> bag_ok es xs \<longleftrightarrow> bag_ok es ys"
proof -
  assume m: "mset xs = mset ys"
  then have "set xs = set ys" "length xs = length ys" by (metis set_mset_mset, metis size_mset)
  moreover have "distinct (map key xs) \<longleftrightarrow> distinct (map key ys)"
    using m by (metis distinct_count_atmost_1 mset_map set_mset_mset)
  ultimately show ?thesis unfolding bag_ok_def by simp
qed

lemma sorted_auto_ok:
  assumes "qsort_ok qsort" "bag_ok (d_extras st) xs" "\<forall>x \<in> set xs. hit_cnt x < 2 ^ 31"
  shows "auto_ok (st\<lparr>d_auto := sort_auto qsort xs\<rparr>)" "mset (sort_auto qsort xs) = mset xs"
proof -
  have "\<forall>x \<in> set xs. hit_cnt x < 2 ^ 31 \<and> length (ex_data x) < 2 ^ 31"
    using assms(2,3) by (fastforce simp: bag_ok_def)
  note s = sort_auto_ok[OF assms(1) this]
  then show "mset (sort_auto qsort xs) = mset xs" by simp
  show "auto_ok (st\<lparr>d_auto := sort_auto qsort xs\<rparr>)"
    using s assms(2) bag_ok_mset[OF s(1)] by (simp add: auto_ok_bag)
qed


lemma bag_ok_data:
  assumes "map ex_data xs = map ex_data ys"
  shows "bag_ok es xs \<longleftrightarrow> bag_ok es ys" "key ` set xs = key ` set ys"
proof -
  have k: "map key xs = map key ys" unfolding key_def using assms by (metis (no_types, lifting) list.map_comp map_eq_conv comp_apply)
  then show "key ` set xs = key ` set ys" by (metis list.set_map)
  let ?P = "\<lambda>d. MIN_AUTO_EXTRA \<le> length d \<and> length d \<le> MAX_AUTO_EXTRA \<and> \<not> same_bytes d \<and> \<not> builtin d"
  have "(\<forall>x \<in> set xs. ?P (ex_data x)) \<longleftrightarrow> (\<forall>x \<in> set ys. ?P (ex_data x))"
    using arg_cong[OF assms, of "\<lambda>l. \<forall>d \<in> set l. ?P d"] by simp
  moreover have "length xs = length ys" using assms by (rule map_eq_imp_length_eq)
  moreover have "key ` set xs = key ` set ys" using k by (metis list.set_map)
  ultimately show "bag_ok es xs \<longleftrightarrow> bag_ok es ys" unfolding bag_ok_def k by simp
qed

definition fits :: "extra_data list \<Rightarrow> extra_data list \<Rightarrow> extra_data \<Rightarrow> bool" where
  "fits es xs n \<longleftrightarrow> key n \<notin> key ` set es \<and> key n \<notin> key ` set xs \<and> MIN_AUTO_EXTRA \<le> length (ex_data n) \<and>
     length (ex_data n) \<le> MAX_AUTO_EXTRA \<and> \<not> same_bytes (ex_data n) \<and> \<not> builtin (ex_data n)"

lemma bag_ok_append: "bag_ok es xs \<Longrightarrow> fits es xs n \<Longrightarrow> length xs < MAX_AUTO_EXTRAS \<Longrightarrow> bag_ok es (xs @ [n])"
  by (auto simp: bag_ok_def fits_def)

lemma bag_ok_update:
  assumes "bag_ok es xs" "fits es xs n" "i < length xs"
  shows "bag_ok es (xs[i := n])" "key n \<in> key ` set (xs[i := n])"
proof -
  have "distinct ((map key xs)[i := key n])" using assms by (auto simp: bag_ok_def fits_def intro!: distinct_list_update)
  moreover have "set (xs[i := n]) \<subseteq> insert n (set xs)" by (rule set_update_subset_insert)
  ultimately show "bag_ok es (xs[i := n])" using assms unfolding bag_ok_def fits_def map_update length_list_update by blast
  show "key n \<in> key ` set (xs[i := n])" using assms(3) by (simp add: set_update_memI)
qed

text \<open>The number of hits of each token, which the collector adds to.\<close>

definition hits_below :: "nat \<Rightarrow> dict \<Rightarrow> bool" where
  "hits_below h st \<longleftrightarrow> (\<forall>x \<in> set (d_auto st). hit_cnt x < h)"

text \<open>A token that passes the filters, with the cases of the collector side by side.\<close>

lemma maybe_add_auto_eq:
  assumes "\<not> (same_bytes mem \<or> builtin mem \<or> known_extra (d_extras st) mem)"
  shows "maybe_add_auto qsort ur mem st r = (case hit_auto (d_auto st) mem of
      Some xs \<Rightarrow> Some (st\<lparr>auto_changed := True, d_auto := sort_auto qsort xs\<rparr>, r)
    | None \<Rightarrow> if length (d_auto st) < MAX_AUTO_EXTRAS
        then Some (st\<lparr>auto_changed := True, d_auto := sort_auto qsort (d_auto st @ [\<lparr>ex_data = mem, hit_cnt = 0\<rparr>])\<rparr>, r)
        else Option.bind (ur ((MAX_AUTO_EXTRAS + 1) div 2) r) (\<lambda>(v, r). if MAX_AUTO_EXTRAS div 2 + v < length (d_auto st)
          then Some (st\<lparr>auto_changed := True, d_auto := sort_auto qsort
                 ((d_auto st)[MAX_AUTO_EXTRAS div 2 + v := \<lparr>ex_data = mem, hit_cnt = 0\<rparr>])\<rparr>, r) else None))"
proof -
  have d: "d_auto (st\<lparr>auto_changed := True\<rparr>) = d_auto st" by simp
  show ?thesis unfolding maybe_add_auto_def if_not_P[OF assms] Let_def d ..
qed

lemma resorted_ok:
  assumes "qsort_ok qsort" "bag_ok (d_extras st) xs" "\<forall>x \<in> set xs. hit_cnt x < h" "h \<le> 2 ^ 31"
  defines "st' \<equiv> st\<lparr>auto_changed := True, d_auto := sort_auto qsort xs\<rparr>"
  shows "auto_ok st' \<and> d_extras st' = d_extras st \<and> hits_below h st' \<and> set (d_auto st') = set xs"
proof -
  have h: "\<forall>x \<in> set xs. hit_cnt x < 2 ^ 31" using assms(3,4) by fastforce
  have q: "auto_ok st'" "mset (sort_auto qsort xs) = mset xs"
    unfolding st'_def using sorted_auto_ok[OF assms(1) _ h, of "st\<lparr>auto_changed := True\<rparr>"] assms(2) by simp_all
  have "set (sort_auto qsort xs) = set xs" using q(2) by (metis set_mset_mset)
  then show ?thesis using q(1) assms(3) by (simp add: st'_def hits_below_def)
qed

lemma maybe_add_auto_step:
  assumes "qsort_ok qsort" "rng_source ur" "sorted (map (length \<circ> ex_data) (d_extras st))" "auto_ok st"
    and "MIN_AUTO_EXTRA \<le> length mem" "length mem \<le> MAX_AUTO_EXTRA" "hits_below h st" "h < 2 ^ 31"
  shows "\<exists>st' r'. maybe_add_auto qsort ur mem st r = Some (st', r') \<and> auto_ok st' \<and> d_extras st' = d_extras st \<and>
    hits_below (Suc h) st' \<and>
    (same_bytes mem \<or> builtin mem \<or> map tolower mem \<in> key ` (set (d_extras st) \<union> set (d_auto st')))"
proof (cases "same_bytes mem \<or> builtin mem \<or> known_extra (d_extras st) mem")
  case True
  then have "maybe_add_auto qsort ur mem st r = Some (st, r)" by (simp add: maybe_add_auto_def)
  moreover have "hits_below (Suc h) st" using assms(7) by (auto simp: hits_below_def less_Suc_eq)
  ultimately show ?thesis using True assms(4) known_extra_iff[OF assms(3), of mem] by (auto simp: image_Un)
next
  case False
  note e = maybe_add_auto_eq[OF False, of qsort ur r]
  have bag: "bag_ok (d_extras st) (d_auto st)" using assms(4) by (simp add: auto_ok_bag)
  have fin: "?thesis" if "maybe_add_auto qsort ur mem st r = Some (st\<lparr>auto_changed := True, d_auto := sort_auto qsort xs\<rparr>, r')"
    "bag_ok (d_extras st) xs" "\<forall>x \<in> set xs. hit_cnt x < Suc h" "map tolower mem \<in> key ` set xs" for xs r'
    using resorted_ok[OF assms(1) that(2,3)] assms(8) that(1,4) unfolding image_Un by auto
  show ?thesis
  proof (cases "hit_auto (d_auto st) mem")
    case (Some xs)
    have h: "map tolower mem \<in> key ` set (d_auto st)" "map ex_data xs = map ex_data (d_auto st)"
      "\<forall>y \<in> set xs. \<exists>x \<in> set (d_auto st). hit_cnt y \<le> hit_cnt x + 1"
      using hit_auto_cases[where xs = "d_auto st" and mem = mem] Some by auto
    have "\<forall>x \<in> set xs. hit_cnt x < Suc h" using h(3) assms(7) unfolding hits_below_def by fastforce
    then show ?thesis using fin[of xs r] bag h(1) bag_ok_data[OF h(2)] e Some by simp
  next
    case None
    let ?n = "\<lparr>ex_data = mem, hit_cnt = 0\<rparr>"
    from None have "map tolower mem \<notin> key ` set (d_auto st)" using hit_auto_cases[where xs = "d_auto st" and mem = mem] by simp
    then have fits: "fits (d_extras st) (d_auto st) ?n"
      using False assms(5,6) known_extra_iff[OF assms(3), of mem] by (simp add: fits_def key_def)
    have k: "key ?n = map tolower mem" by (simp add: key_def)
    have hits: "\<forall>x \<in> insert ?n (set (d_auto st)). hit_cnt x < Suc h" using assms(7) unfolding hits_below_def by fastforce
    show ?thesis
    proof (cases "length (d_auto st) < MAX_AUTO_EXTRAS")
      case True
      then show ?thesis using fin[OF _ bag_ok_append[OF bag fits True], of r] hits e None k by simp
    next
      case False
      then have len: "length (d_auto st) = MAX_AUTO_EXTRAS" using bag by (simp add: bag_ok_def)
      obtain v r' where v: "ur ((MAX_AUTO_EXTRAS + 1) div 2) r = Some (v, r')" "v < (MAX_AUTO_EXTRAS + 1) div 2"
        using rng_source.ur_below[OF assms(2), of "(MAX_AUTO_EXTRAS + 1) div 2" r] by auto
      then have i: "MAX_AUTO_EXTRAS div 2 + v < length (d_auto st)" using len by simp
      have "\<forall>x \<in> set ((d_auto st)[MAX_AUTO_EXTRAS div 2 + v := ?n]). hit_cnt x < Suc h"
        using hits set_update_subset_insert[of "d_auto st" "MAX_AUTO_EXTRAS div 2 + v" ?n] by blast
      moreover have "maybe_add_auto qsort ur mem st r =
          Some (st\<lparr>auto_changed := True, d_auto := sort_auto qsort ((d_auto st)[MAX_AUTO_EXTRAS div 2 + v := ?n])\<rparr>, r')"
        unfolding e None using False v(1) i by simp
      ultimately show ?thesis using fin[OF _ bag_ok_update(1)[OF bag fits i]] bag_ok_update(2)[OF bag fits i] k by simp
    qed
  qed
qed

text \<open>
  C34: the automatic dictionary. Collecting a token never fails (the evicted index is always in range) and keeps,
  at every length the callers use: at most \<^const>\<open>MAX_AUTO_EXTRAS\<close> tokens, no two of them equal up to letter case and none equal
  to a user token, none a run of one byte or a built-in value, and the tokens in use sorted by length, which
  the overwriting stage relies on. Afterwards the token is in the dictionary unless it was rejected as one of these.
\<close>

theorem maybe_add_auto_ok:
  assumes "qsort_ok qsort" "rng_source ur" "sorted (map (length \<circ> ex_data) (d_extras st))" "auto_ok st"
    and "MIN_AUTO_EXTRA \<le> length mem" "length mem \<le> MAX_AUTO_EXTRA" "hits_below (2 ^ 31 - 1) st"
  shows "\<exists>st' r'. maybe_add_auto qsort ur mem st r = Some (st', r') \<and> auto_ok st' \<and> d_extras st' = d_extras st \<and>
    (same_bytes mem \<or> builtin mem \<or> map tolower mem \<in> key ` (set (d_extras st) \<union> set (d_auto st')))"
proof -
  have "(2 :: nat) ^ 31 - 1 < 2 ^ 31" by simp
  from maybe_add_auto_step[OF assms this, of r] show ?thesis by blast
qed


theorem maybe_add_auto_witness:
  "\<exists>st' r'. maybe_add_auto ins_sort (UR (\<lambda>s. (s, s + 7)) unat) [65, 66, 67]
       \<lparr>d_extras = [\<lparr>ex_data = [90], hit_cnt = 0\<rparr>], d_auto = [], auto_changed = False\<rparr>
       \<lparr>rand_cnt = 7, prng = 3, urandom = (\<lambda>i. 0), upos = 0\<rparr> = Some (st', r') \<and>
     auto_ok st' \<and> d_extras st' = [\<lparr>ex_data = [90], hit_cnt = 0\<rparr>] \<and>
     map tolower [65, 66, 67] \<in> key ` ({\<lparr>ex_data = [90], hit_cnt = 0\<rparr>} \<union> set (d_auto st'))"
  using maybe_add_auto_ok[of ins_sort "UR (\<lambda>s. (s, s + 7)) unat" "\<lparr>d_extras = [\<lparr>ex_data = [90], hit_cnt = 0\<rparr>], d_auto = [], auto_changed = False\<rparr>" "[65, 66, 67]"
      "\<lparr>rand_cnt = 7, prng = 3, urandom = (\<lambda>i. 0), upos = 0\<rparr>"]
  by (simp add: ins_sort_ok UR.rng_source_axioms auto_ok_def same_bytes_def builtin_def hits_below_def)


text \<open>Any number of tokens, one after the other.\<close>

fun add_autos ::
  "sorter \<Rightarrow> (nat \<Rightarrow> 'r \<Rightarrow> (nat \<times> 'r) option) \<Rightarrow> buf list \<Rightarrow> dict \<Rightarrow> 'r \<Rightarrow> (dict \<times> 'r) option"
where
  "add_autos qsort ur [] st r = Some (st, r)"
| "add_autos qsort ur (mem # ms) st r = Option.bind (maybe_add_auto qsort ur mem st r) (\<lambda>(st, r). add_autos qsort ur ms st r)"

lemma add_autos_ok:
  assumes "qsort_ok qsort" "rng_source ur" "sorted (map (length \<circ> ex_data) (d_extras st))" "auto_ok st"
    and "\<forall>mem \<in> set ms. MIN_AUTO_EXTRA \<le> length mem \<and> length mem \<le> MAX_AUTO_EXTRA" "hits_below h st" "h + length ms \<le> 2 ^ 31"
  shows "\<exists>st' r'. add_autos qsort ur ms st r = Some (st', r') \<and> auto_ok st' \<and> d_extras st' = d_extras st"
  using assms(3-)
proof (induction ms arbitrary: st r h)
  case (Cons mem ms)
  have "MIN_AUTO_EXTRA \<le> length mem" "length mem \<le> MAX_AUTO_EXTRA" "h < 2 ^ 31" using Cons.prems(3,5) by auto
  from maybe_add_auto_step[OF assms(1,2) Cons.prems(1,2) this(1,2) Cons.prems(4) this(3), of r]
  obtain st1 r1 where s: "maybe_add_auto qsort ur mem st r = Some (st1, r1)" "auto_ok st1" "d_extras st1 = d_extras st" "hits_below (Suc h) st1"
    by blast
  have "Suc h + length ms \<le> 2 ^ 31" using Cons.prems(5) by simp
  moreover have "\<forall>mem \<in> set ms. MIN_AUTO_EXTRA \<le> length mem \<and> length mem \<le> MAX_AUTO_EXTRA" using Cons.prems(3) by simp
  ultimately obtain st2 r2 where "add_autos qsort ur ms st1 r1 = Some (st2, r2)" "auto_ok st2" "d_extras st2 = d_extras st1"
    using Cons.IH[of st1 "Suc h" r1] Cons.prems(1) s(2-4) unfolding s(3) by blast
  with s show ?case by simp
qed simp


section \<open>Tokens kept between sessions\<close>

definition fresh :: "extra_data \<Rightarrow> extra_data" where
  "fresh x = \<lparr>ex_data = ex_data x, hit_cnt = 0\<rparr>"

lemma bag_ok_snoc: "bag_ok es (xs @ [n]) \<Longrightarrow> bag_ok es xs \<and> fits es xs n"
  by (auto simp: bag_ok_def fits_def)

lemma bag_ok_take: "bag_ok es xs \<Longrightarrow> bag_ok es (take i xs)"
  unfolding bag_ok_def by (auto simp: take_map[symmetric] dest: in_set_takeD)

lemma bag_ok_fresh: "bag_ok es (map fresh xs) \<longleftrightarrow> bag_ok es xs"
  by (rule bag_ok_data(1)) (simp add: fresh_def)

text \<open>Loading one saved token adds it, without a random choice.\<close>

lemma load_one:
  assumes "qsort_ok qsort" "sorted (map (length \<circ> ex_data) (d_extras st))" "bag_ok (d_extras st) (map fresh xs @ [fresh x])"
    and "mset (d_auto st) = mset (map fresh xs)"
  shows "\<exists>st'. maybe_add_auto qsort ur (ex_data x) st r = Some (st', r) \<and> auto_ok st' \<and>
    d_extras st' = d_extras st \<and> mset (d_auto st') = mset (map fresh (xs @ [x]))"
proof -
  let ?n = "\<lparr>ex_data = ex_data x, hit_cnt = 0\<rparr>" and ?xs = "d_auto st @ [fresh x]"
  let ?st = "st\<lparr>auto_changed := True, d_auto := sort_auto qsort ?xs\<rparr>"
  have m: "mset ?xs = mset (map fresh (xs @ [x]))" "set (d_auto st) = set (map fresh xs)" "length (d_auto st) = length xs"
    using assms(4) by (simp, metis set_mset_mset, metis length_map size_mset)
  have n: "?n = fresh x" by (simp add: fresh_def)
  have f: "fits (d_extras st) (d_auto st) (fresh x)" using bag_ok_snoc[OF assms(3)] m(2) by (simp add: fits_def)
  have len: "length (d_auto st) < MAX_AUTO_EXTRAS" using assms(3) m(3) by (simp add: bag_ok_def)
  have "\<not> known_extra (d_extras st) (ex_data x)" using f known_extra_iff[OF assms(2)] by (simp add: fits_def key_def fresh_def)
  then have "\<not> (same_bytes (ex_data x) \<or> builtin (ex_data x) \<or> known_extra (d_extras st) (ex_data x))"
    using f by (simp add: fits_def fresh_def)
  moreover have "hit_auto (d_auto st) (ex_data x) = None"
    using f hit_auto_cases[where xs = "d_auto st" and mem = "ex_data x"] by (auto simp: fits_def key_def fresh_def split: option.splits)
  ultimately have "maybe_add_auto qsort ur (ex_data x) st r = Some (?st, r)" using len by (simp add: maybe_add_auto_eq n)
  moreover have b: "bag_ok (d_extras st) ?xs" using assms(3) bag_ok_mset[OF m(1)] by simp
  moreover have h: "\<forall>x \<in> set ?xs. hit_cnt x < 1" using m(2) by (auto simp: fresh_def)
  moreover have "mset (d_auto ?st) = mset ?xs"
    using sort_auto_ok(1)[OF assms(1), of ?xs] b h by (fastforce simp: bag_ok_def)
  ultimately show ?thesis using resorted_ok[OF assms(1) b h] m(1) by auto
qed

lemma load_saved:
  assumes "qsort_ok qsort" "sorted (map (length \<circ> ex_data) (d_extras st))" "bag_ok (d_extras st) xs" "length xs \<le> i + k"
    and "\<forall>j. fs j = (if j < length xs then Some (ex_data (xs ! j)) else None)"
    and "auto_ok st" "mset (d_auto st) = mset (map fresh (take i xs))"
  shows "\<exists>st'. load_auto_from k i qsort ur fs st r = Some (st', r) \<and> auto_ok st' \<and> d_extras st' = d_extras st \<and>
    mset (d_auto st') = mset (map fresh xs)"
  using assms(2-)
proof (induction k arbitrary: i st)
  case (Suc k)
  show ?case
  proof (cases "i < length xs")
    case True
    have t: "take (Suc i) xs = take i xs @ [xs ! i]" using True by (rule take_Suc_conv_app_nth)
    have "bag_ok (d_extras st) (map fresh (take i xs @ [xs ! i]))"
      using bag_ok_take[OF Suc.prems(2), of "Suc i"] unfolding t bag_ok_fresh .
    then obtain st1 where s: "maybe_add_auto qsort ur (ex_data (xs ! i)) st r = Some (st1, r)" "auto_ok st1" "d_extras st1 = d_extras st"
      "mset (d_auto st1) = mset (map fresh (take (Suc i) xs))"
      using load_one[OF assms(1) Suc.prems(1) _ Suc.prems(6), of "xs ! i" ur r] unfolding t by auto
    have l: "MIN_AUTO_EXTRA \<le> length (ex_data (xs ! i))" "length (ex_data (xs ! i)) \<le> MAX_AUTO_EXTRA"
      using Suc.prems(2) nth_mem[OF True] unfolding bag_ok_def by blast+
    then have "take (MAX_AUTO_EXTRA + 1) (ex_data (xs ! i)) = ex_data (xs ! i)" by simp
    then have e: "load_auto_from (Suc k) i qsort ur fs st r = load_auto_from k (Suc i) qsort ur fs st1 r"
      using True s(1) l Suc.prems(4) by (simp only: load_auto_from.simps) simp
    have "\<exists>st'. load_auto_from k (Suc i) qsort ur fs st1 r = Some (st', r) \<and> auto_ok st' \<and> d_extras st' = d_extras st1 \<and>
        mset (d_auto st') = mset (map fresh xs)"
      by (rule Suc.IH) (use Suc.prems s(2-4) in simp_all)
    then show ?thesis unfolding e s(3) .
  next
    case False
    then show ?thesis using Suc.prems by simp
  qed
qed simp

text \<open>
  C35: the automatic dictionary survives a session. Saving a changed dictionary into an empty directory and loading
  it in a session with the same user tokens gives a valid dictionary with exactly the tokens that were in use, and
  their hits start from zero.
\<close>

theorem auto_roundtrip:
  assumes "qsort_ok qsort" "sorted (map (length \<circ> ex_data) (d_extras st))" "auto_ok st" "auto_changed st"
  shows "\<exists>st'. load_auto qsort ur (snd (save_auto st (\<lambda>i. None))) \<lparr>d_extras = d_extras st, d_auto = [], auto_changed = False\<rparr> r = Some (st', r) \<and>
    auto_ok st' \<and> mset (d_auto st') = mset (map (\<lambda>x. \<lparr>ex_data = ex_data x, hit_cnt = 0\<rparr>) (take USE_AUTO_EXTRAS (d_auto st)))"
proof -
  let ?xs = "take USE_AUTO_EXTRAS (d_auto st)" and ?st = "\<lparr>d_extras = d_extras st, d_auto = [], auto_changed = False\<rparr>"
  let ?fs = "snd (save_auto st (\<lambda>i. None))"
  have f: "fresh = (\<lambda>x. \<lparr>ex_data = ex_data x, hit_cnt = 0\<rparr>)" by (rule ext) (simp add: fresh_def)
  have "\<forall>j. ?fs j = (if j < length ?xs then Some (ex_data (?xs ! j)) else None)"
    using assms(4) by (auto simp: save_auto_def min.commute)
  moreover have "bag_ok (d_extras ?st) ?xs" using assms(3) by (simp add: auto_ok_bag bag_ok_take)
  moreover have "auto_ok ?st" by (simp add: auto_ok_def)
  moreover have "sorted (map (length \<circ> ex_data) (d_extras ?st))" "length ?xs \<le> 0 + USE_AUTO_EXTRAS"
    "mset (d_auto ?st) = mset (map fresh (take 0 ?xs))" using assms(2) by simp_all
  ultimately show ?thesis unfolding load_auto_def f[symmetric] using load_saved[OF assms(1), of ?st ?xs 0 USE_AUTO_EXTRAS ?fs ur r] by blast
qed

theorem auto_roundtrip_witness:
  "\<exists>st'. load_auto ins_sort (UR (\<lambda>s. (s, s + 7)) unat)
      (snd (save_auto \<lparr>d_extras = [], d_auto = [\<lparr>ex_data = [65, 66, 67], hit_cnt = 5\<rparr>], auto_changed = True\<rparr> (\<lambda>i. None)))
      \<lparr>d_extras = [], d_auto = [], auto_changed = False\<rparr> \<lparr>rand_cnt = 7, prng = 3, urandom = (\<lambda>i. 0), upos = 0\<rparr> =
      Some (st', \<lparr>rand_cnt = 7, prng = 3, urandom = (\<lambda>i. 0), upos = 0\<rparr>) \<and>
    auto_ok st' \<and> mset (d_auto st') = {#\<lparr>ex_data = [65, 66, 67], hit_cnt = 0\<rparr>#}"
  using auto_roundtrip[of ins_sort "\<lparr>d_extras = [], d_auto = [\<lparr>ex_data = [65, 66, 67], hit_cnt = 5\<rparr>], auto_changed = True\<rparr>"
      "UR (\<lambda>s. (s, s + 7)) unat" "\<lparr>rand_cnt = 7, prng = 3, urandom = (\<lambda>i. 0), upos = 0\<rparr>"]
  by (simp add: ins_sort_ok auto_ok_def same_bytes_def builtin_def)


end
