(* ===== verification/Std_Map.thy ===== *)
theory Std_Map
  imports Fuzz_Prelude
begin

text \<open>
  The ordered maps of the C++ standard library, as the emulator plugins use them: a list of pairs in the order
  of the keys. \<^verbatim>\<open>insert\<close> keeps an existing entry, assignment through \<^verbatim>\<open>operator[]\<close> replaces it, and reading
  through \<^verbatim>\<open>operator[]\<close> adds a default entry for a missing key.
\<close>

section \<open>The operations\<close>

type_synonym 'v omap = "(nat \<times> 'v) list"

definition om_find :: "nat \<Rightarrow> 'v omap \<Rightarrow> 'v option" where
  "om_find k m = map_of m k"

fun om_set :: "nat \<Rightarrow> 'v \<Rightarrow> 'v omap \<Rightarrow> 'v omap" where
  "om_set k v [] = [(k, v)]"
| "om_set k v ((k', v') # m) =
     (if k < k' then (k, v) # (k', v') # m else if k = k' then (k, v) # m else (k', v') # om_set k v m)"

definition om_insert :: "nat \<Rightarrow> 'v \<Rightarrow> 'v omap \<Rightarrow> 'v omap" where
  "om_insert k v m = (if om_find k m = None then om_set k v m else m)"

definition om_erase :: "nat \<Rightarrow> 'v omap \<Rightarrow> 'v omap" where
  "om_erase k m = filter (\<lambda>p. fst p \<noteq> k) m"

text \<open>\<^verbatim>\<open>m[k]\<close> as an expression: the value, and the map that may have grown.\<close>

definition om_get :: "'v \<Rightarrow> nat \<Rightarrow> 'v omap \<Rightarrow> 'v \<times> 'v omap" where
  "om_get d k m = (case om_find k m of Some v \<Rightarrow> (v, m) | None \<Rightarrow> (d, om_set k d m))"

definition om_ok :: "'v omap \<Rightarrow> bool" where
  "om_ok m \<longleftrightarrow> sorted_wrt (<) (map fst m)"

definition om_keys :: "'v omap \<Rightarrow> nat set" where
  "om_keys m = fst ` set m"


section \<open>The contract\<close>

text \<open>What the clients of a map rely on.\<close>

locale std_map =
  fixes find :: "nat \<Rightarrow> 'm \<Rightarrow> 'v option"
    and assign :: "nat \<Rightarrow> 'v \<Rightarrow> 'm \<Rightarrow> 'm"
    and erase :: "nat \<Rightarrow> 'm \<Rightarrow> 'm"
    and ok :: "'m \<Rightarrow> bool"
  assumes find_assign: "find j (assign k v m) = (if j = k then Some v else find j m)"
    and find_erase: "find j (erase k m) = (if j = k then None else find j m)"
    and ok_assign: "ok m \<Longrightarrow> ok (assign k v m)"
    and ok_erase: "ok m \<Longrightarrow> ok (erase k m)"
begin

lemma find_assign_same: "find k (assign k v m) = Some v"
  by (simp add: find_assign)

lemma dom_assign: "{j. find j (assign k v m) \<noteq> None} = insert k {j. find j m \<noteq> None}"
  by (auto simp: find_assign)

lemma dom_erase: "{j. find j (erase k m) \<noteq> None} = {j. find j m \<noteq> None} - {k}"
  by (auto simp: find_erase)

lemma erase_assign: "find j (erase k (assign k v m)) = find j (erase k m)"
  by (simp add: find_assign find_erase)

lemma assign_twice: "find j (assign k v (assign k w m)) = find j (assign k v m)"
  by (simp add: find_assign)

end


section \<open>Sorted lists satisfy it\<close>

lemma om_find_simps [simp]:
  "om_find j [] = None" "om_find j ((k, v) # m) = (if j = k then Some v else om_find j m)"
  by (simp_all add: om_find_def)

lemma om_find_set [simp]: "om_find j (om_set k v m) = (if j = k then Some v else om_find j m)"
  by (induction k v m rule: om_set.induct) auto

lemma om_find_erase [simp]: "om_find j (om_erase k m) = (if j = k then None else om_find j m)"
  by (induction m) (auto simp: om_erase_def)

lemma fst_om_set [simp]: "fst ` set (om_set k v m) = insert k (fst ` set m)"
  by (induction k v m rule: om_set.induct) auto

lemma om_ok_simps [simp]: "om_ok []" "om_ok (p # m) \<longleftrightarrow> (\<forall>q \<in> set m. fst p < fst q) \<and> om_ok m"
  by (auto simp: om_ok_def)

lemma om_ok_set [simp]: "om_ok m \<Longrightarrow> om_ok (om_set k v m)"
proof (induction k v m rule: om_set.induct)
  case (2 k v k' v' m)
  have "\<forall>q \<in> set (om_set k v m). fst q = k \<or> fst q \<in> fst ` set m"
    using fst_om_set[of k v m] by blast
  then show ?case using 2 by (auto simp: image_iff) (metis fst_conv nat_neq_iff)+
qed simp

lemma om_ok_erase [simp]: "om_ok m \<Longrightarrow> om_ok (om_erase k m)"
  unfolding om_erase_def by (induction m) auto

interpretation om: std_map om_find om_set om_erase om_ok
  by unfold_locales simp_all

lemma om_find_insert [simp]:
  "om_find j (om_insert k v m) = (if j = k \<and> om_find k m = None then Some v else om_find j m)"
  by (simp add: om_insert_def)

lemma om_ok_insert [simp]: "om_ok m \<Longrightarrow> om_ok (om_insert k v m)"
  by (simp add: om_insert_def)

lemma om_keys_iff: "k \<in> om_keys m \<longleftrightarrow> om_find k m \<noteq> None"
  by (auto simp: om_keys_def om_find_def map_of_eq_None_iff)

lemma om_keys_simps [simp]:
  "om_keys (om_set k v m) = insert k (om_keys m)" "om_keys (om_erase k m) = om_keys m - {k}" "om_keys [] = {}"
  "om_keys (om_insert k v m) = insert k (om_keys m)"
  by (auto simp: om_keys_iff set_eq_iff)

lemma finite_om_keys [simp]: "finite (om_keys m)"
  by (simp add: om_keys_def)

lemma om_get_fst [simp]: "fst (om_get d k m) = (case om_find k m of Some v \<Rightarrow> v | None \<Rightarrow> d)"
  by (simp add: om_get_def split: option.split)

lemma om_get_snd_find [simp]: "om_find j (snd (om_get d k m)) = (if j = k \<and> om_find k m = None then Some d else om_find j m)"
  by (simp add: om_get_def split: option.split)

lemma om_get_snd_ok [simp]: "om_ok m \<Longrightarrow> om_ok (snd (om_get d k m))"
  by (simp add: om_get_def split: option.split)

lemma om_get_snd_keys [simp]: "om_keys (snd (om_get d k m)) = insert k (om_keys m)"
  by (auto simp: om_keys_iff set_eq_iff)

text \<open>The size of a map is the number of its keys.\<close>

lemma om_length: "om_ok m \<Longrightarrow> length m = card (om_keys m)"
proof (induction m)
  case (Cons p m)
  then have "fst p \<notin> om_keys m" by (auto simp: om_keys_def)
  moreover have "om_keys (p # m) = insert (fst p) (om_keys m)" by (simp add: om_keys_def)
  ultimately show ?case using Cons by simp
qed simp

lemma om_find_in: "om_ok m \<Longrightarrow> (k, v) \<in> set m \<longleftrightarrow> om_find k m = Some v"
proof (induction m)
  case (Cons p m)
  obtain a b where p: "p = (a, b)" by (cases p)
  have "om_find a m = None" using Cons.prems p om_keys_iff[of a m] by (fastforce simp: om_keys_def)
  with Cons p show ?case by auto
qed simp

lemma om_find_map: "om_find k (map (\<lambda>(k, v). (k, f v)) m) = map_option f (om_find k m)"
  by (induction m) auto

lemma om_ok_map [simp]: "om_ok (map (\<lambda>(k, v). (k, f v)) m) \<longleftrightarrow> om_ok m"
  by (simp add: om_ok_def comp_def case_prod_beta)

end
