(* ===== verification/Test_Filter.thy ===== *)
theory Test_Filter
  imports Std_Map Bitmap
begin

text \<open>
  The filter of redundant test cases in the emulator (\<^verbatim>\<open>TestcaseFilter.cpp\<close>): the significant execution
  states it keeps, the test of a new input against their path conditions, the eviction of states that are never hit,
  and the check for branches that have been drilled before.

  Execution states are identified by their ID, and the objects themselves are kept in \<open>objs\<close>. The expressions of the
  symbolic executor, their hash and their evaluation under an assignment are parameters, and so are the orders in which
  sets of pointers and of expressions are traversed.
\<close>

section \<open>State\<close>

record 'e xstate =
  getInputSize :: nat
  path_constraints :: "'e list"
  concolics :: "(string \<times> buf) list"
  getPc :: nat

record 'e symex =
  ehash :: "'e \<Rightarrow> nat"
  evaluate :: "(string \<times> buf) list \<Rightarrow> 'e \<Rightarrow> bool option"
  ptr_order :: "nat list \<Rightarrow> nat list"
  expr_order :: "'e list \<Rightarrow> 'e list"

record 'e tfilter =
  m_hottestNum :: nat
  m_sampleFreq :: nat
  m_FreqCounter :: nat
  m_ModeSwitched :: bool
  m_mainImageBase :: nat
  m_mainImageEnd :: nat
  m_input_states :: "nat list omap"
  m_sigID_ConHash :: "nat set omap"
  m_sigID_ConInMainImage :: "'e list omap"
  m_sigID_States :: "nat omap"
  m_sigID_HD :: "nat omap"
  m_drill_ConHash :: "nat set omap"
  m_dril_inputsizeLB :: "(nat \<times> bool list) list omap"
  objs :: "nat \<Rightarrow> 'e xstate"
  killed :: "nat list"

section \<open>Collecting\<close>

definition setMainImage :: "nat \<Rightarrow> nat \<Rightarrow> 'e tfilter \<Rightarrow> 'e tfilter" where
  "setMainImage base len f = f\<lparr>m_mainImageBase := base, m_mainImageEnd := (base + len) mod 2 ^ 64\<rparr>"

definition isMainImage :: "'e tfilter \<Rightarrow> nat \<Rightarrow> bool" where
  "isMainImage f pc \<longleftrightarrow> m_mainImageBase f \<le> pc \<and> pc \<le> m_mainImageEnd f"

definition onDisabledFork :: "nat \<Rightarrow> 'e \<Rightarrow> 'e tfilter \<Rightarrow> 'e tfilter" where
  "onDisabledFork i cond f =
     (if \<not> isMainImage f (getPc (objs f i)) then f
      else case om_find i (m_sigID_ConInMainImage f) of
        None \<Rightarrow> f\<lparr>m_sigID_ConInMainImage := om_insert i [cond] (m_sigID_ConInMainImage f)\<rparr>
      | Some pc \<Rightarrow> f\<lparr>m_sigID_ConInMainImage := om_set i (List.insert cond pc) (m_sigID_ConInMainImage f)\<rparr>)"

text \<open>The loop over the significant states that looks for one with the same length and the same hashes.\<close>

fun same_state :: "'e tfilter \<Rightarrow> nat \<Rightarrow> nat set \<Rightarrow> (nat \<times> nat) list \<Rightarrow> nat set omap \<Rightarrow> bool \<times> nat set omap" where
  "same_state f sz hs [] ch = (False, ch)"
| "same_state f sz hs ((k, p) # ss) ch =
     (if getInputSize (objs f p) \<noteq> sz then same_state f sz hs ss ch
      else case om_get {} p ch of (cur, ch) \<Rightarrow>
        if cur = hs then (True, ch) else same_state f sz hs ss ch)"

definition forget_cons :: "nat \<Rightarrow> 'e tfilter \<Rightarrow> 'e tfilter" where
  "forget_cons i f = f\<lparr>m_sigID_ConInMainImage := om_erase i (m_sigID_ConInMainImage f)\<rparr>"

definition add_input_state :: "nat \<Rightarrow> nat \<Rightarrow> nat list omap \<Rightarrow> nat list omap" where
  "add_input_state sz i m = (case om_find sz m of
     None \<Rightarrow> om_insert sz [i] m
   | Some ps \<Rightarrow> om_set sz (List.insert i ps) m)"

definition addSigState :: "'e symex \<Rightarrow> nat \<Rightarrow> 'e tfilter \<Rightarrow> bool \<times> 'e tfilter" where
  "addSigState P i f =
     (if length (m_sigID_States f) + 1 \<ge> m_hottestNum f then (True, forget_cons i f)
      else
        let hs = set (map (ehash P) (path_constraints (objs f i))); sz = getInputSize (objs f i);
            (same, ch) = same_state f sz hs (m_sigID_States f) (m_sigID_ConHash f);
            f = f\<lparr>m_sigID_ConHash := ch\<rparr>
        in if same then (True, forget_cons i f)
           else (False, f\<lparr>m_sigID_ConHash := om_insert i hs ch, m_sigID_HD := om_insert i 0 (m_sigID_HD f),
             m_sigID_States := om_insert i i (m_sigID_States f),
             m_input_states := add_input_state sz i (m_input_states f)\<rparr>))"

definition cleanup :: "nat \<Rightarrow> 'e tfilter \<Rightarrow> 'e tfilter" where
  "cleanup i f = forget_cons i f"


section \<open>Eviction\<close>

text \<open>
  \<^verbatim>\<open>updateHotStates\<close>: all counters are reset, and the first state that was not hit is removed everywhere.
\<close>

definition first_cold :: "nat omap \<Rightarrow> nat option" where
  "first_cold h = map_option fst (find (\<lambda>p. snd p = 0) h)"

definition updateHotStates :: "'e tfilter \<Rightarrow> err + bool \<times> 'e tfilter" where
  "updateHotStates f =
     (let cold = map (\<lambda>(k, v). (k, 0)) (m_sigID_HD f) in
      case first_cold (m_sigID_HD f) of
        None \<Rightarrow> Inr (False, f\<lparr>m_sigID_HD := cold\<rparr>)
      | Some i \<Rightarrow>
          let f = f\<lparr>m_sigID_HD := om_erase i cold, m_sigID_ConHash := om_erase i (m_sigID_ConHash f)\<rparr> in
          case om_find i (m_sigID_States f) of
            None \<Rightarrow> Inl NullDeref
          | Some p \<Rightarrow>
              let sz = getInputSize (objs f p); ps = fst (om_get [] sz (m_input_states f)) in
              if p \<notin> set ps then Inl OutOfBounds
              else Inr (True, f\<lparr>m_input_states := om_set sz (remove1 p ps) (m_input_states f),
                m_sigID_States := om_erase i (m_sigID_States f),
                m_sigID_ConInMainImage := om_erase i (m_sigID_ConInMainImage f), killed := p # killed f\<rparr>))"


section \<open>The redundancy test\<close>

datatype fast = Refuted | Confirmed | Unknown

definition filterSplitedStateFast :: "nat set \<Rightarrow> nat set \<Rightarrow> nat set \<Rightarrow> fast" where
  "filterSplitedStateFast cur T F =
     (if cur \<inter> F \<noteq> {} then Refuted else if cur \<subseteq> T then Confirmed else Unknown)"

text \<open>The objects that keep their values when an input is substituted, and the substitution.\<close>

fun strstr :: "string \<Rightarrow> string \<Rightarrow> bool" where
  "strstr [] sub \<longleftrightarrow> sub = []"
| "strstr (c # s) sub \<longleftrightarrow> take (length sub) (c # s) = sub \<or> strstr s sub"

definition keeps_value :: "string \<Rightarrow> bool" where
  "keeps_value name \<longleftrightarrow> strstr name ''const_arr'' \<or> strstr name ''dummy''"

definition substitute :: "buf \<Rightarrow> (string \<times> buf) list \<Rightarrow> (string \<times> buf) list" where
  "substitute input bs = map (\<lambda>(n, v). (n, if keeps_value n then v else input)) bs"

text \<open>The conditions of one state, in order, with the hashes known to be true or false.\<close>

datatype verdict = Holds | Fails | Undecided

fun check_conds :: "'e symex \<Rightarrow> (string \<times> buf) list \<Rightarrow> 'e list \<Rightarrow> nat set \<Rightarrow> nat set \<Rightarrow> verdict \<times> nat set \<times> nat set" where
  "check_conds P bs [] T F = (Holds, T, F)"
| "check_conds P bs (c # cs) T F =
     (if ehash P c \<in> T then check_conds P bs cs T F
      else if ehash P c \<in> F then (Fails, T, F)
      else case evaluate P bs c of
        None \<Rightarrow> (Undecided, T, F)
      | Some True \<Rightarrow> check_conds P bs cs (insert (ehash P c) T) F
      | Some False \<Rightarrow> (Fails, T, insert (ehash P c) F))"

definition hit :: "nat \<Rightarrow> 'e tfilter \<Rightarrow> 'e tfilter" where
  "hit i f = f\<lparr>m_sigID_HD := om_set i ((fst (om_get 0 i (m_sigID_HD f)) + 1) mod 2 ^ 32) (m_sigID_HD f)\<rparr>"

text \<open>
  The loop over the states of the right length. The size of the file and the bytes that can be read may differ;
  the objects are only substituted when all bytes could be read.
\<close>

datatype scan = Matched nat | Unmatched | Stuck nat | ReadError

fun scan_states :: "'e symex \<Rightarrow> nat \<Rightarrow> buf \<Rightarrow> nat list \<Rightarrow> nat set \<Rightarrow> nat set \<Rightarrow> 'e tfilter \<Rightarrow> scan \<times> 'e tfilter" where
  "scan_states P fsize bytes [] T F f = (Unmatched, f)"
| "scan_states P fsize bytes (i # is) T F f =
     (case om_get {} i (m_sigID_ConHash f) of (cur, ch) \<Rightarrow>
      let f = f\<lparr>m_sigID_ConHash := ch\<rparr> in
      case filterSplitedStateFast cur T F of
        Refuted \<Rightarrow> scan_states P fsize bytes is T F f
      | Confirmed \<Rightarrow> (Matched i, hit i f)
      | Unknown \<Rightarrow>
          let o1 = objs f i in
          if list_ex (\<lambda>(n, v). \<not> keeps_value n) (concolics o1) \<and> length bytes < fsize then (ReadError, f)
          else
            let bs = substitute (take fsize bytes) (concolics o1);
                f = f\<lparr>objs := (objs f)(i := o1\<lparr>concolics := bs\<rparr>)\<rparr>
            in case om_get [] i (m_sigID_ConInMainImage f) of (pc, cm) \<Rightarrow>
               let f = f\<lparr>m_sigID_ConInMainImage := cm\<rparr> in
               case check_conds P bs (expr_order P pc) T F of
                 (Holds, T, F) \<Rightarrow> (Matched i, hit i f)
               | (Fails, T, F) \<Rightarrow> scan_states P fsize bytes is T F f
               | (Undecided, T, F) \<Rightarrow> (Stuck i, f))"

text \<open>
  \<^verbatim>\<open>isRedundant\<close>: whether the input in the file takes the path of a state that is kept, and, every
  \<open>m_sampleFreq + 1\<close> inputs that do not, whether a state was evicted. \<open>rand\<close> is the value that \<^verbatim>\<open>rand()\<close> returns.
  The size of the file is a 32-bit key of \<^verbatim>\<open>m_input_states\<close>; test cases have at most 1 MB.
\<close>

definition sample :: "'e tfilter \<Rightarrow> err + bool \<times> 'e tfilter" where
  "sample f =
     (if \<not> m_ModeSwitched f then Inr (False, f)
      else if m_FreqCounter f = 0 then updateHotStates (f\<lparr>m_FreqCounter := m_sampleFreq f\<rparr>)
      else Inr (False, f\<lparr>m_FreqCounter := m_FreqCounter f - 1\<rparr>))"

definition isRedundant :: "'e symex \<Rightarrow> (nat \<times> buf) option \<Rightarrow> nat \<Rightarrow> 'e tfilter \<Rightarrow> err + bool \<times> bool \<times> 'e tfilter" where
  "isRedundant P file rand f =
     (if m_sigID_States f = [] then Inr (False, False, f)
      else case file of
        None \<Rightarrow> Inl (Fatal ''could not open'')
      | Some (fsize, bytes) \<Rightarrow>
          case om_get [] fsize (m_input_states f) of (ps, ms) \<Rightarrow>
          case scan_states P fsize bytes (ptr_order P ps) {} {} (f\<lparr>m_input_states := ms\<rparr>) of
            (Matched i, f) \<Rightarrow> Inr (True, False, f)
          | (ReadError, f) \<Rightarrow> Inr (False, False, f)
          | (Stuck i, f) \<Rightarrow> if rand mod 5 \<noteq> 0 then Inr (True, False, hit i f) else Inr (False, False, f)
          | (Unmatched, f) \<Rightarrow> err_bind (sample f) (\<lambda>(symbex, f). Inr (False, symbex, f)))"


section \<open>Drilling\<close>

text \<open>The bucket of a number of hits.\<close>

definition bucket_of :: "nat \<Rightarrow> nat" where
  "bucket_of n =
     (if n = 0 then 0 else if n = 1 then 1 else if n = 2 then 2 else if n = 3 \<or> n = 4 then 3
      else if 5 \<le> n \<and> n \<le> 8 then 4 else if 9 \<le> n \<and> n \<le> 16 then 5 else if 17 \<le> n \<and> n \<le> 32 then 6
      else if 33 \<le> n \<and> n \<le> 64 then 7 else if 65 \<le> n \<and> n \<le> 128 then 8 else if 129 \<le> n \<and> n \<le> 256 then 9 else 10)"

definition LoopBucket :: "nat \<Rightarrow> nat \<times> bool list" where
  "LoopBucket pc = (pc, replicate 11 False)"

definition mark_bucket :: "nat \<Rightarrow> nat \<Rightarrow> nat \<times> bool list \<Rightarrow> nat \<times> bool list" where
  "mark_bucket pc b lb = (if fst lb = pc then (pc, (snd lb)[b := True]) else lb)"

definition checkLoopBucketFast :: "nat \<Rightarrow> nat \<Rightarrow> 'e tfilter \<Rightarrow> bool \<times> 'e tfilter" where
  "checkLoopBucketFast i hitcount f =
     (let sz = getInputSize (objs f i); pc = getPc (objs f i);
          (lbs, m) = om_get [] sz (m_dril_inputsizeLB f);
          (lbs, m) = (if find (\<lambda>lb. fst lb = pc) lbs = None
                      then (LoopBucket pc # lbs, om_set sz (LoopBucket pc # lbs) m) else (lbs, m));
          b = bucket_of hitcount
      in case find (\<lambda>lb. fst lb = pc) lbs of
           None \<Rightarrow> (False, f\<lparr>m_dril_inputsizeLB := m\<rparr>)
         | Some lb \<Rightarrow>
             if snd lb ! b then (True, f\<lparr>m_dril_inputsizeLB := m\<rparr>)
             else (False, f\<lparr>m_dril_inputsizeLB := om_set sz (map (mark_bucket pc b) lbs) m\<rparr>))"

fun known_hash :: "nat \<Rightarrow> nat list \<Rightarrow> nat set omap \<Rightarrow> bool \<times> nat set omap" where
  "known_hash h [] ch = (False, ch)"
| "known_hash h (p # ps) ch =
     (case om_get {} p ch of (hs, ch) \<Rightarrow> if h \<in> hs then (True, ch) else known_hash h ps ch)"

definition checkRedundantFast :: "'e symex \<Rightarrow> nat \<Rightarrow> nat \<Rightarrow> 'e tfilter \<Rightarrow> err + bool \<times> 'e tfilter" where
  "checkRedundantFast P i hitcount f =
     (case path_constraints (objs f i) of
        [] \<Rightarrow> Inl OutOfBounds
      | c # _ \<Rightarrow>
          let h = ehash P c; sz = getInputSize (objs f i); (loop, f) = checkLoopBucketFast i hitcount f in
          if loop then Inr (True, f)
          else
            let (dh, m) = om_get {} sz (m_drill_ConHash f); f = f\<lparr>m_drill_ConHash := m\<rparr> in
            if h \<in> dh then Inr (True, f)
            else
              let (ps, ms) = om_get [] sz (m_input_states f);
                  (known, ch) = known_hash h (ptr_order P ps) (m_sigID_ConHash f);
                  f = f\<lparr>m_input_states := ms, m_sigID_ConHash := ch\<rparr>
              in if known then Inr (True, f)
                 else Inr (False, f\<lparr>m_drill_ConHash := om_set sz (insert h dh) (m_drill_ConHash f)\<rparr>))"

end
