(* ===== verification/Filter_Props.thy ===== *)
theory Filter_Props
  imports Test_Filter
begin

text \<open>
  Properties of the test case filter: its maps stay consistent whatever happens, the redundancy test is sound and
  complete up to the recorded conditions, cold states are evicted, and no branch is drilled twice.
\<close>

section \<open>Consistency of the maps\<close>

definition states_of :: "'e tfilter \<Rightarrow> nat \<Rightarrow> nat list" where
  "states_of f sz = (case om_find sz (m_input_states f) of None \<Rightarrow> [] | Some ps \<Rightarrow> ps)"

definition hashes_of :: "'e symex \<Rightarrow> 'e tfilter \<Rightarrow> nat \<Rightarrow> nat set" where
  "hashes_of P f i = ehash P ` set (path_constraints (objs f i))"

definition kept :: "'e tfilter \<Rightarrow> nat set" where
  "kept f = om_keys (m_sigID_States f)"

definition filter_ok :: "'e symex \<Rightarrow> 'e tfilter \<Rightarrow> bool" where
  "filter_ok P f \<longleftrightarrow> om_ok (m_sigID_States f) \<and> om_ok (m_sigID_HD f) \<and> om_ok (m_sigID_ConHash f) \<and>
     om_keys (m_sigID_HD f) = kept f \<and>
     (\<forall>i. om_find i (m_sigID_States f) = (if i \<in> kept f then Some i else None)) \<and>
     (\<forall>i. om_find i (m_sigID_ConHash f) = (if i \<in> kept f then Some (hashes_of P f i) else None)) \<and>
     (\<forall>sz. distinct (states_of f sz) \<and> set (states_of f sz) = {i \<in> kept f. getInputSize (objs f i) = sz}) \<and>
     (\<forall>i \<in> kept f. \<forall>j \<in> kept f. getInputSize (objs f i) = getInputSize (objs f j) \<and> hashes_of P f i = hashes_of P f j \<longrightarrow> i = j) \<and>
     (kept f = {} \<or> card (kept f) < m_hottestNum f)"

lemma filter_okD:
  assumes "filter_ok P f"
  shows "om_ok (m_sigID_States f)" "om_ok (m_sigID_HD f)" "om_ok (m_sigID_ConHash f)" "om_keys (m_sigID_HD f) = kept f"
    "om_find i (m_sigID_States f) = (if i \<in> kept f then Some i else None)"
    "om_find i (m_sigID_ConHash f) = (if i \<in> kept f then Some (hashes_of P f i) else None)"
    "distinct (states_of f sz)" "set (states_of f sz) = {i \<in> kept f. getInputSize (objs f i) = sz}"
    "kept f = {} \<or> card (kept f) < m_hottestNum f"
  using assms unfolding filter_ok_def by blast+

lemma filter_ok_inj:
  "filter_ok P f \<Longrightarrow> i \<in> kept f \<Longrightarrow> j \<in> kept f \<Longrightarrow> getInputSize (objs f i) = getInputSize (objs f j) \<Longrightarrow>
    hashes_of P f i = hashes_of P f j \<Longrightarrow> i = j"
  unfolding filter_ok_def by blast

lemma filter_okI:
  assumes "kept f = K" "om_ok (m_sigID_States f)" "om_ok (m_sigID_HD f)" "om_ok (m_sigID_ConHash f)" "om_keys (m_sigID_HD f) = K"
    and "\<And>i. om_find i (m_sigID_States f) = (if i \<in> K then Some i else None)"
    and "\<And>i. om_find i (m_sigID_ConHash f) = (if i \<in> K then Some (hashes_of P f i) else None)"
    and "\<And>sz. distinct (states_of f sz)" "\<And>sz. set (states_of f sz) = {i \<in> K. getInputSize (objs f i) = sz}"
    and "\<And>i j. i \<in> K \<Longrightarrow> j \<in> K \<Longrightarrow> getInputSize (objs f i) = getInputSize (objs f j) \<Longrightarrow> hashes_of P f i = hashes_of P f j \<Longrightarrow> i = j"
    and "K = {} \<or> card K < m_hottestNum f"
  shows "filter_ok P f"
  unfolding filter_ok_def assms(1) using assms(2-) by simp

text \<open>What the invariant depends on.\<close>

lemma filter_ok_cong:
  assumes "m_sigID_States f' = m_sigID_States f" "om_ok (m_sigID_HD f')" "om_keys (m_sigID_HD f') = om_keys (m_sigID_HD f)"
    and "m_sigID_ConHash f' = m_sigID_ConHash f" "states_of f' = states_of f" "m_hottestNum f' = m_hottestNum f"
    and "\<forall>i \<in> kept f. getInputSize (objs f' i) = getInputSize (objs f i) \<and> path_constraints (objs f' i) = path_constraints (objs f i)"
    and "filter_ok P f"
  shows "filter_ok P f'"
proof -
  have k: "kept f' = kept f" by (simp add: kept_def assms(1))
  have h: "\<forall>i \<in> kept f. hashes_of P f' i = hashes_of P f i" using assms(7) by (simp add: hashes_of_def)
  show ?thesis using assms(8) unfolding filter_ok_def k assms(1,3-6) using assms(2,7) h by (simp cong: conj_cong)
qed

lemma ok_onDisabledFork:
  assumes "filter_ok P f"
  shows "filter_ok P (onDisabledFork i c f)"
  by (rule filter_ok_cong[OF _ _ _ _ _ _ _ assms])
    (use filter_okD(2)[OF assms] in \<open>auto simp: onDisabledFork_def states_of_def fun_eq_iff split: option.split\<close>)

lemma ok_forget:
  assumes "filter_ok P f"
  shows "filter_ok P (forget_cons i f)"
  by (rule filter_ok_cong[OF _ _ _ _ _ _ _ assms])
    (use filter_okD(2)[OF assms] in \<open>auto simp: forget_cons_def states_of_def fun_eq_iff\<close>)

lemma om_get_present: "om_find k m = Some v \<Longrightarrow> om_get d k m = (v, m)"
  by (simp add: om_get_def)

lemma ok_hit:
  assumes "filter_ok P f" "i \<in> kept f"
  shows "filter_ok P (hit i f)"
  by (rule filter_ok_cong[OF _ _ _ _ _ _ _ assms(1)])
    (use filter_okD(2,4)[OF assms(1)] assms(2) in \<open>auto simp: hit_def states_of_def fun_eq_iff\<close>)


subsection \<open>Adding a state\<close>

lemma same_state_kept:
  assumes "\<forall>(k, p) \<in> set ss. om_find p ch = Some (H p)"
  shows "same_state f sz hs ss ch = ((\<exists>(k, p) \<in> set ss. getInputSize (objs f p) = sz \<and> H p = hs), ch)"
  using assms by (induction ss) (auto simp: om_get_def)

lemma same_state_ok:
  assumes "filter_ok P f"
  shows "same_state f sz hs (m_sigID_States f) (m_sigID_ConHash f) =
    ((\<exists>p \<in> kept f. getInputSize (objs f p) = sz \<and> hashes_of P f p = hs), m_sigID_ConHash f)"
proof -
  have m: "(k, p) \<in> set (m_sigID_States f) \<longleftrightarrow> k \<in> kept f \<and> p = k" for k p
    using om_find_in[OF filter_okD(1)[OF assms], of k p] filter_okD(5)[OF assms, of k] by auto
  have S: "set (m_sigID_States f) = (\<lambda>k. (k, k)) ` kept f" unfolding set_eq_iff split_paired_All using m by blast
  have "\<forall>(k, p) \<in> set (m_sigID_States f). om_find p (m_sigID_ConHash f) = Some (hashes_of P f p)"
    unfolding S using filter_okD(6)[OF assms] by simp
  from same_state_kept[OF this, of f sz hs] show ?thesis unfolding S by simp
qed

lemma states_of_add:
  "states_of (f\<lparr>m_input_states := add_input_state sz i (m_input_states f)\<rparr>) = (states_of f)(sz := List.insert i (states_of f sz))"
  by (auto simp: states_of_def add_input_state_def fun_eq_iff split: option.split)

text \<open>The outcome of adding a state: refused, or entered into all maps.\<close>

definition duplicate :: "'e symex \<Rightarrow> 'e tfilter \<Rightarrow> nat \<Rightarrow> bool" where
  "duplicate P f i \<longleftrightarrow> (\<exists>p \<in> kept f. getInputSize (objs f p) = getInputSize (objs f i) \<and> hashes_of P f p = hashes_of P f i)"

lemma addSigState_eq:
  assumes "filter_ok P f"
  shows "addSigState P i f = (if length (m_sigID_States f) + 1 \<ge> m_hottestNum f \<or> duplicate P f i then (True, forget_cons i f)
    else (False, f\<lparr>m_sigID_ConHash := om_insert i (hashes_of P f i) (m_sigID_ConHash f), m_sigID_HD := om_insert i 0 (m_sigID_HD f),
      m_sigID_States := om_insert i i (m_sigID_States f),
      m_input_states := add_input_state (getInputSize (objs f i)) i (m_input_states f)\<rparr>))"
proof -
  have "set (map (ehash P) (path_constraints (objs f i))) = hashes_of P f i" by (simp add: hashes_of_def)
  then show ?thesis unfolding addSigState_def Let_def same_state_ok[OF assms] by (simp add: duplicate_def)
qed

lemma ok_addSigState:
  assumes "filter_ok P f" "i \<notin> kept f" "addSigState P i f = (b, f')"
  shows "filter_ok P f'"
proof (cases "length (m_sigID_States f) + 1 \<ge> m_hottestNum f \<or> duplicate P f i")
  case True
  then show ?thesis using assms(3) ok_forget[OF assms(1), of i] by (auto simp: addSigState_eq[OF assms(1)])
next
  case False
  let ?sz = "getInputSize (objs f i)"
  have f': "f' = f\<lparr>m_sigID_ConHash := om_insert i (hashes_of P f i) (m_sigID_ConHash f), m_sigID_HD := om_insert i 0 (m_sigID_HD f),
      m_sigID_States := om_insert i i (m_sigID_States f), m_input_states := add_input_state ?sz i (m_input_states f)\<rparr>"
    using assms(3) False by (simp add: addSigState_eq[OF assms(1)])
  have k: "kept f' = insert i (kept f)" by (simp add: f' kept_def)
  have "states_of f' = states_of (f\<lparr>m_input_states := add_input_state ?sz i (m_input_states f)\<rparr>)"
    by (simp add: f' states_of_def fun_eq_iff)
  then have s: "states_of f' = (states_of f)(?sz := List.insert i (states_of f ?sz))" by (simp only: states_of_add)
  have h: "hashes_of P f' = hashes_of P f" "objs f' = objs f" "m_hottestNum f' = m_hottestNum f"
    by (simp_all add: f' hashes_of_def fun_eq_iff)
  have c: "card (insert i (kept f)) < m_hottestNum f"
    using False assms(2) om_length[OF filter_okD(1)[OF assms(1)]] by (simp add: kept_def)
  have n: "om_find i (m_sigID_ConHash f) = None" "om_find i (m_sigID_States f) = None"
    using filter_okD(5,6)[OF assms(1), of i] assms(2) by simp_all
  have u: "\<forall>p \<in> kept f. getInputSize (objs f p) = ?sz \<longrightarrow> hashes_of P f p \<noteq> hashes_of P f i" using False by (auto simp: duplicate_def)
  have "om_ok (m_sigID_States f')" "om_ok (m_sigID_HD f')" "om_ok (m_sigID_ConHash f')" "om_keys (m_sigID_HD f') = kept f'"
    using filter_okD(1-4)[OF assms(1)] k by (simp_all add: f')
  moreover have "\<forall>j. om_find j (m_sigID_States f') = (if j \<in> kept f' then Some j else None)"
    "\<forall>j. om_find j (m_sigID_ConHash f') = (if j \<in> kept f' then Some (hashes_of P f j) else None)"
    using filter_okD(5,6)[OF assms(1)] n assms(2) unfolding k by (simp_all add: f')
  moreover have "\<forall>sz. distinct (states_of f' sz) \<and> set (states_of f' sz) = {j \<in> kept f'. getInputSize (objs f j) = sz}"
    using filter_okD(7,8)[OF assms(1)] unfolding k s by auto
  moreover have "p = q" if "p \<in> kept f'" "q \<in> kept f'" "getInputSize (objs f p) = getInputSize (objs f q)" "hashes_of P f p = hashes_of P f q" for p q
  proof -
    have "p \<in> kept f \<Longrightarrow> q \<in> kept f \<Longrightarrow> p = q" using assms(1) that(3,4) unfolding filter_ok_def by blast
    moreover have "p = i \<Longrightarrow> q \<in> kept f \<Longrightarrow> False" "q = i \<Longrightarrow> p \<in> kept f \<Longrightarrow> False" using u that(3,4) by metis+
    ultimately show ?thesis using that(1,2) unfolding k by blast
  qed
  ultimately show ?thesis unfolding filter_ok_def h using c k by simp
qed


subsection \<open>Evicting a state\<close>

lemma find_first:
  assumes "om_ok m"
  shows "case find (\<lambda>p. snd p = 0) m of
      None \<Rightarrow> \<forall>k. om_find k m \<noteq> Some 0
    | Some p \<Rightarrow> om_find (fst p) m = Some 0 \<and> (\<forall>k < fst p. om_find k m \<noteq> Some 0)"
  using assms
proof (induction m)
  case (Cons p m)
  obtain a b where p: "p = (a, b)" by (cases p)
  have "om_find k m = None" if "k \<le> a" for k
    using Cons.prems that om_keys_iff[of k m] unfolding p by (fastforce simp: om_keys_def)
  then show ?case using Cons unfolding p by (auto split: option.splits)
qed simp

lemma first_cold_cases:
  assumes "om_ok m"
  shows "case first_cold m of
      None \<Rightarrow> \<forall>k. om_find k m \<noteq> Some 0
    | Some i \<Rightarrow> om_find i m = Some 0 \<and> (\<forall>k < i. om_find k m \<noteq> Some 0)"
  using find_first[OF assms] by (auto simp: first_cold_def split: option.splits)

definition reset_hd :: "'e tfilter \<Rightarrow> 'e tfilter" where
  "reset_hd f = f\<lparr>m_sigID_HD := map (\<lambda>(k, v). (k, 0)) (m_sigID_HD f)\<rparr>"

definition drop_state :: "nat \<Rightarrow> 'e tfilter \<Rightarrow> 'e tfilter" where
  "drop_state i f = f\<lparr>m_sigID_HD := om_erase i (m_sigID_HD f), m_sigID_ConHash := om_erase i (m_sigID_ConHash f),
     m_input_states := om_set (getInputSize (objs f i)) (remove1 i (states_of f (getInputSize (objs f i)))) (m_input_states f),
     m_sigID_States := om_erase i (m_sigID_States f),
     m_sigID_ConInMainImage := om_erase i (m_sigID_ConInMainImage f), killed := i # killed f\<rparr>"

lemma keys_map: "om_keys (map (\<lambda>(k, v). (k, g v)) m) = om_keys m"
  by (auto simp: om_keys_iff om_find_map)

lemma ok_reset: "filter_ok P f \<Longrightarrow> filter_ok P (reset_hd f)"
proof -
  assume ok: "filter_ok P f"
  show ?thesis
    by (rule filter_ok_cong[OF _ _ _ _ _ _ _ ok])
      (use filter_okD(2)[OF ok] in \<open>simp_all add: reset_hd_def states_of_def fun_eq_iff keys_map\<close>)
qed

lemma kept_drop: "kept (drop_state i f) = kept f - {i}"
  by (simp add: kept_def drop_state_def)

lemma states_of_drop:
  "states_of (drop_state i f) = (states_of f)(getInputSize (objs f i) := remove1 i (states_of f (getInputSize (objs f i))))"
  by (simp add: states_of_def drop_state_def fun_eq_iff)

lemma ok_drop:
  assumes "filter_ok P f"
  shows "filter_ok P (drop_state i f)"
proof (rule filter_okI[OF kept_drop])
  have d: "objs (drop_state i f) = objs f" "hashes_of P (drop_state i f) = hashes_of P f" "m_hottestNum (drop_state i f) = m_hottestNum f"
    by (simp_all add: drop_state_def hashes_of_def fun_eq_iff)
  show "om_ok (m_sigID_States (drop_state i f))" "om_ok (m_sigID_HD (drop_state i f))" "om_ok (m_sigID_ConHash (drop_state i f))"
    "om_keys (m_sigID_HD (drop_state i f)) = kept f - {i}"
    using filter_okD(1-4)[OF assms] by (simp_all add: drop_state_def)
  show "om_find j (m_sigID_States (drop_state i f)) = (if j \<in> kept f - {i} then Some j else None)"
    "om_find j (m_sigID_ConHash (drop_state i f)) = (if j \<in> kept f - {i} then Some (hashes_of P (drop_state i f) j) else None)" for j
    using filter_okD(5,6)[OF assms, of j] unfolding d by (simp_all add: drop_state_def)
  fix sz
  note S = filter_okD(7)[OF assms, of sz] filter_okD(8)[OF assms, of sz]
  show "distinct (states_of (drop_state i f) sz)" using S(1) by (auto simp: states_of_drop)
  show "set (states_of (drop_state i f) sz) = {j \<in> kept f - {i}. getInputSize (objs (drop_state i f) j) = sz}"
  proof (cases "sz = getInputSize (objs f i)")
    case True
    then have "set (states_of (drop_state i f) sz) = set (states_of f sz) - {i}" using S(1) by (auto simp: states_of_drop)
    then show ?thesis unfolding d S(2) by blast
  next
    case False
    then have "set (states_of (drop_state i f) sz) = set (states_of f sz)" by (simp add: states_of_drop)
    then show ?thesis unfolding d S(2) using False by auto
  qed
next
  have "card (kept f - {i}) \<le> card (kept f)" by (rule card_mono) (simp_all add: kept_def)
  then show "kept f - {i} = {} \<or> card (kept f - {i}) < m_hottestNum (drop_state i f)"
    using filter_okD(9)[OF assms] by (auto simp: drop_state_def)
next
  fix p q
  assume "p \<in> kept f - {i}" "q \<in> kept f - {i}" "getInputSize (objs (drop_state i f) p) = getInputSize (objs (drop_state i f) q)"
    "hashes_of P (drop_state i f) p = hashes_of P (drop_state i f) q"
  then show "p = q" by (intro filter_ok_inj[OF assms, of p q]) (simp_all add: drop_state_def hashes_of_def)
qed

lemma reset_simps:
  "m_sigID_States (reset_hd f) = m_sigID_States f" "m_sigID_ConHash (reset_hd f) = m_sigID_ConHash f"
  "m_input_states (reset_hd f) = m_input_states f" "objs (reset_hd f) = objs f" "kept (reset_hd f) = kept f"
  by (simp_all add: reset_hd_def kept_def)

lemma updateHotStates_eq:
  assumes "filter_ok P f"
  shows "updateHotStates f = (case first_cold (m_sigID_HD f) of
      None \<Rightarrow> Inr (False, reset_hd f) | Some i \<Rightarrow> Inr (True, drop_state i (reset_hd f)))"
proof (cases "first_cold (m_sigID_HD f)")
  case (Some i)
  have "om_find i (m_sigID_HD f) = Some 0" using first_cold_cases[OF filter_okD(2)[OF assms]] Some by simp
  then have i: "i \<in> kept f" using filter_okD(4)[OF assms] om_keys_iff[of i "m_sigID_HD f"] by simp
  have "om_find i (m_sigID_States f) = Some i" using filter_okD(5)[OF assms, of i] i by simp
  moreover have "i \<in> set (states_of f (getInputSize (objs f i)))" using filter_okD(8)[OF assms] i by simp
  ultimately show ?thesis using Some
    by (simp add: updateHotStates_def Let_def drop_state_def reset_hd_def states_of_def)
qed (simp add: updateHotStates_def reset_hd_def)

text \<open>
  C36: eviction. When the filter samples its counters, every counter starts again from zero, and if some state was not
  hit since the last sample, the one with the smallest ID among these is terminated and forgotten in all maps; no
  other state is. The maps stay consistent, so the lookups that the code makes without a check always succeed.
\<close>

theorem eviction_correct:
  assumes "filter_ok P f"
  shows "\<exists>b f'. updateHotStates f = Inr (b, f') \<and> filter_ok P f' \<and>
    b = (\<exists>i. om_find i (m_sigID_HD f) = Some 0) \<and> (\<forall>i. om_find i (m_sigID_HD f') \<in> {None, Some 0}) \<and>
    (if b then kept f' = kept f - {LEAST i. om_find i (m_sigID_HD f) = Some 0} \<and>
       killed f' = (LEAST i. om_find i (m_sigID_HD f) = Some 0) # killed f \<and>
       om_find (LEAST i. om_find i (m_sigID_HD f) = Some 0) (m_sigID_ConInMainImage f') = None
     else kept f' = kept f \<and> killed f' = killed f)"
proof (cases "first_cold (m_sigID_HD f)")
  case None
  have "\<forall>k. om_find k (m_sigID_HD f) \<noteq> Some 0" using first_cold_cases[OF filter_okD(2)[OF assms]] None by simp
  then show ?thesis using updateHotStates_eq[OF assms] None ok_reset[OF assms]
    by (auto simp: reset_simps om_find_map reset_hd_def[of f] kept_def)
next
  case (Some i)
  have c: "om_find i (m_sigID_HD f) = Some 0" "\<forall>k < i. om_find k (m_sigID_HD f) \<noteq> Some 0"
    using first_cold_cases[OF filter_okD(2)[OF assms]] Some by simp_all
  then have l: "(LEAST i. om_find i (m_sigID_HD f) = Some 0) = i" by (intro Least_equality) (auto simp: not_less[symmetric])
  have "om_find j (m_sigID_HD (drop_state i (reset_hd f))) \<in> {None, Some 0}" for j
    by (cases "om_find j (m_sigID_HD f)") (simp_all add: drop_state_def reset_hd_def om_find_map)
  then show ?thesis unfolding l using updateHotStates_eq[OF assms] Some ok_drop[OF ok_reset[OF assms], of i] c(1)
    by (auto simp: kept_drop reset_simps) (simp_all add: drop_state_def reset_hd_def)
qed


section \<open>The redundancy test\<close>

text \<open>
  What the symbolic executor is trusted for: under every state's assignment with the input substituted, a condition has
  a constant value, and conditions with the same hash have the same value. \<open>val\<close> gives the value for a hash.
\<close>

definition conds_of :: "'e tfilter \<Rightarrow> nat \<Rightarrow> 'e list" where
  "conds_of f i = (case om_find i (m_sigID_ConInMainImage f) of None \<Rightarrow> [] | Some cs \<Rightarrow> cs)"

definition values_by_hash :: "'e symex \<Rightarrow> 'e tfilter \<Rightarrow> buf \<Rightarrow> (nat \<Rightarrow> bool) \<Rightarrow> bool" where
  "values_by_hash P f input val \<longleftrightarrow> (\<forall>i \<in> kept f. \<forall>e \<in> set (conds_of f i).
     evaluate P (substitute input (concolics (objs f i))) e = Some (val (ehash P e)))"

definition main_true :: "'e symex \<Rightarrow> 'e tfilter \<Rightarrow> (nat \<Rightarrow> bool) \<Rightarrow> nat \<Rightarrow> bool" where
  "main_true P f val i \<longleftrightarrow> (\<forall>e \<in> set (conds_of f i). val (ehash P e))"

definition path_true :: "'e symex \<Rightarrow> 'e tfilter \<Rightarrow> (nat \<Rightarrow> bool) \<Rightarrow> nat \<Rightarrow> bool" where
  "path_true P f val i \<longleftrightarrow> (\<forall>h \<in> hashes_of P f i. val h)"

definition sound_orders :: "'e symex \<Rightarrow> bool" where
  "sound_orders P \<longleftrightarrow> (\<forall>xs. set (ptr_order P xs) = set xs) \<and> (\<forall>es. set (expr_order P es) = set es)"

lemma check_conds_correct:
  assumes "\<forall>e \<in> set cs. evaluate P bs e = Some (val (ehash P e))" "\<forall>h \<in> T. val h" "\<forall>h \<in> F. \<not> val h"
    and "check_conds P bs cs T F = (v, T', F')"
  shows "v = (if \<forall>e \<in> set cs. val (ehash P e) then Holds else Fails) \<and> (\<forall>h \<in> T'. val h) \<and> (\<forall>h \<in> F'. \<not> val h)"
  using assms
proof (induction cs arbitrary: T F)
  case (Cons c cs)
  let ?h = "ehash P c"
  have ev: "evaluate P bs c = Some (val ?h)" and cs: "\<forall>e \<in> set cs. evaluate P bs e = Some (val (ehash P e))"
    using Cons.prems(1) by simp_all
  consider "?h \<in> T" | "?h \<notin> T" "?h \<in> F" | "?h \<notin> T" "?h \<notin> F" "val ?h" | "?h \<notin> T" "?h \<notin> F" "\<not> val ?h" by blast
  then show ?case
  proof cases
    case 1
    then have "check_conds P bs cs T F = (v, T', F')" "val ?h" using Cons.prems by simp_all
    with Cons.IH[OF cs Cons.prems(2,3) this(1)] show ?thesis by simp
  next
    case 2
    then have "v = Fails" "T' = T" "F' = F" "\<not> val ?h" using Cons.prems by simp_all
    with Cons.prems(2,3) show ?thesis by simp
  next
    case 3
    then have e: "check_conds P bs cs (insert ?h T) F = (v, T', F')" using Cons.prems(4) ev by simp
    have "\<forall>h \<in> insert ?h T. val h" using Cons.prems(2) 3 by simp
    from Cons.IH[OF cs this Cons.prems(3) e] 3 show ?thesis by simp
  next
    case 4
    then have "v = Fails" "T' = T" "F' = insert ?h F" using Cons.prems(4) ev by simp_all
    with Cons.prems(2,3) 4 show ?thesis by simp
  qed
qed simp

text \<open>The fields that a scan reads are not changed by it.\<close>

definition scan_same :: "'e tfilter \<Rightarrow> 'e tfilter \<Rightarrow> bool" where
  "scan_same f f' \<longleftrightarrow> m_sigID_States f' = m_sigID_States f \<and> om_keys (m_sigID_HD f') = om_keys (m_sigID_HD f) \<and>
     states_of f' = states_of f \<and> m_hottestNum f' = m_hottestNum f \<and> m_ModeSwitched f' = m_ModeSwitched f \<and>
     (\<forall>i. conds_of f' i = conds_of f i) \<and> killed f' = killed f \<and> (\<forall>i. getInputSize (objs f' i) = getInputSize (objs f i)) \<and>
     (\<forall>i. path_constraints (objs f' i) = path_constraints (objs f i)) \<and>
     m_sigID_ConHash f' = m_sigID_ConHash f"

lemma scan_same_refl: "scan_same f f"
  by (simp add: scan_same_def)

lemma scan_same_trans: "scan_same f g \<Longrightarrow> scan_same g h \<Longrightarrow> scan_same f h"
  by (simp add: scan_same_def)

lemma scan_same_hit: "filter_ok P f \<Longrightarrow> i \<in> kept f \<Longrightarrow> scan_same f (hit i f)"
  using filter_okD(4)[of P f] by (auto simp: scan_same_def hit_def states_of_def conds_of_def fun_eq_iff)

definition bind_conds :: "nat \<Rightarrow> (string \<times> buf) list \<Rightarrow> 'e tfilter \<Rightarrow> 'e tfilter" where
  "bind_conds i bs f = f\<lparr>objs := (objs f)(i := (objs f i)\<lparr>concolics := bs\<rparr>),
     m_sigID_ConInMainImage := snd (om_get [] i (m_sigID_ConInMainImage f))\<rparr>"

lemma scan_same_bind: "scan_same f (bind_conds i bs f)"
  by (auto simp: scan_same_def bind_conds_def states_of_def conds_of_def fun_eq_iff split: option.split)

lemma ok_scan_same:
  assumes "filter_ok P f" "scan_same f f'" "om_ok (m_sigID_HD f')"
  shows "filter_ok P f'"
  by (rule filter_ok_cong[OF _ _ _ _ _ _ _ assms(1)]) (use assms(2,3) in \<open>simp_all add: scan_same_def\<close>)

lemma ok_bind: "filter_ok P f \<Longrightarrow> filter_ok P (bind_conds i bs f)"
  by (rule ok_scan_same[OF _ scan_same_bind]) (simp_all add: bind_conds_def filter_okD(2))

text \<open>One state of the scan, unfolded under the invariant.\<close>

lemma scan_step:
  fixes fsize :: nat and bytes :: buf
  assumes "filter_ok P f" "i \<in> kept f"
  defines "bs \<equiv> substitute (take fsize bytes) (concolics (objs f i))"
  shows "scan_states P fsize bytes (i # is) T F f =
    (case filterSplitedStateFast (hashes_of P f i) T F of
       Refuted \<Rightarrow> scan_states P fsize bytes is T F f
     | Confirmed \<Rightarrow> (Matched i, hit i f)
     | Unknown \<Rightarrow>
         if list_ex (\<lambda>(n, v). \<not> keeps_value n) (concolics (objs f i)) \<and> length bytes < fsize then (ReadError, f)
         else case check_conds P bs (expr_order P (conds_of f i)) T F of
            (Holds, T, F) \<Rightarrow> (Matched i, hit i (bind_conds i bs f))
          | (Fails, T, F) \<Rightarrow> scan_states P fsize bytes is T F (bind_conds i bs f)
          | (Undecided, T, F) \<Rightarrow> (Stuck i, bind_conds i bs f))"
proof -
  have g: "om_get {} i (m_sigID_ConHash f) = (hashes_of P f i, m_sigID_ConHash f)"
    using filter_okD(6)[OF assms(1), of i] assms(2) by (simp add: om_get_present)
  have c: "om_get [] i (m_sigID_ConInMainImage (f\<lparr>objs := x\<rparr>)) = (conds_of f i, snd (om_get [] i (m_sigID_ConInMainImage f)))" for x
    by (simp add: om_get_def conds_of_def split: option.split)
  have f1: "f\<lparr>m_sigID_ConHash := m_sigID_ConHash f\<rparr> = f" by simp
  show ?thesis
    unfolding scan_states.simps g prod.case Let_def f1 bs_def[symmetric] c bind_conds_def ..
qed

lemma kept_bind [simp]: "kept (bind_conds i bs f) = kept f" and kept_hit [simp]: "kept (hit i f) = kept f"
  by (simp_all add: kept_def bind_conds_def hit_def)

lemma drill_frame [simp]:
  "m_dril_inputsizeLB (bind_conds i bs f) = m_dril_inputsizeLB f" "m_dril_inputsizeLB (hit i f) = m_dril_inputsizeLB f"
  by (simp_all add: bind_conds_def hit_def)

text \<open>Whatever the symbolic executor answers, a scan keeps the invariant.\<close>

lemma scan_ok:
  assumes "filter_ok P f" "set is \<subseteq> kept f" "scan_states P fsize bytes is T F f = (r, f')"
  shows "filter_ok P f' \<and> kept f' = kept f \<and> (\<forall>i. r = Matched i \<or> r = Stuck i \<longrightarrow> i \<in> kept f) \<and>
    m_dril_inputsizeLB f' = m_dril_inputsizeLB f"
  using assms
proof (induction "is" arbitrary: T F f)
  case (Cons i "is")
  have i: "i \<in> kept f" "set is \<subseteq> kept f" using Cons.prems(2) by simp_all
  define bs where "bs = substitute (take fsize bytes) (concolics (objs f i))"
  note b = ok_bind[OF Cons.prems(1), of i bs]
  show ?case
  proof (cases "filterSplitedStateFast (hashes_of P f i) T F")
    case Refuted
    then have "scan_states P fsize bytes is T F f = (r, f')"
      using Cons.prems(3) unfolding scan_step[OF Cons.prems(1) i(1)] by simp
    from Cons.IH[OF Cons.prems(1) i(2) this] show ?thesis .
  next
    case Confirmed
    then show ?thesis using Cons.prems(3) ok_hit[OF Cons.prems(1) i(1)] i(1)
      unfolding scan_step[OF Cons.prems(1) i(1)] by auto
  next
    case Unknown
    obtain v T' F' where c: "check_conds P bs (expr_order P (conds_of f i)) T F = (v, T', F')" by (cases "check_conds P bs (expr_order P (conds_of f i)) T F")
    show ?thesis
    proof (cases "list_ex (\<lambda>(n, v). \<not> keeps_value n) (concolics (objs f i)) \<and> length bytes < fsize")
      case True
      then show ?thesis using Cons.prems(1,3) Unknown unfolding scan_step[OF Cons.prems(1) i(1)] by auto
    next
      case False
      note e = Cons.prems(3)[unfolded scan_step[OF Cons.prems(1) i(1)] Unknown fast.case if_not_P[OF False] bs_def[symmetric] c prod.case]
      show ?thesis
      proof (cases v)
        case Holds
        then show ?thesis using e ok_hit[OF b, of i] i(1) by auto
      next
        case Fails
        then have "scan_states P fsize bytes is T' F' (bind_conds i bs f) = (r, f')" using e by simp
        from Cons.IH[OF b _ this] i(2) show ?thesis by simp
      next
        case Undecided
        then show ?thesis using e b i(1) by auto
      qed
    qed
  qed
qed auto

lemma substitute_idem: "substitute input (substitute input bs) = substitute input bs"
  by (auto simp: substitute_def)

lemma values_bind:
  assumes "values_by_hash P f input val"
  shows "values_by_hash P (bind_conds i (substitute input (concolics (objs f i))) f) input val"
proof -
  have c: "conds_of (bind_conds i bs f) j = conds_of f j" for bs j
    using scan_same_bind[of f i bs] by (simp add: scan_same_def)
  show ?thesis using assms unfolding values_by_hash_def kept_bind c by (simp add: bind_conds_def substitute_idem)
qed

lemma path_bind [simp]:
  "path_true P (bind_conds i bs f) val = path_true P f val" "main_true P (bind_conds i bs f) val = main_true P f val"
  using scan_same_bind[of f i bs] by (simp_all add: fun_eq_iff path_true_def main_true_def hashes_of_def scan_same_def)

lemma scan_correct:
  assumes "filter_ok P f" "set is \<subseteq> kept f" "fsize \<le> length bytes" "values_by_hash P f (take fsize bytes) val" "sound_orders P"
    and "\<forall>h \<in> T. val h" "\<forall>h \<in> F. \<not> val h" "scan_states P fsize bytes is T F f = (r, f')"
  shows "(\<exists>i \<in> set is. r = Matched i \<and> (path_true P f val i \<or> main_true P f val i)) \<or>
    (r = Unmatched \<and> (\<forall>i \<in> set is. \<not> (path_true P f val i \<and> main_true P f val i)))"
  using assms(1,2,4,6-)
proof (induction "is" arbitrary: T F f)
  case (Cons i "is")
  have i: "i \<in> kept f" "set is \<subseteq> kept f" using Cons.prems(2) by simp_all
  define bs where "bs = substitute (take fsize bytes) (concolics (objs f i))"
  note step = scan_step[OF Cons.prems(1) i(1), of fsize bytes "is" T F]
  show ?case
  proof (cases "filterSplitedStateFast (hashes_of P f i) T F")
    case Refuted
    then have "\<not> path_true P f val i" using Cons.prems(5) by (auto simp: filterSplitedStateFast_def path_true_def split: if_splits)
    moreover have "scan_states P fsize bytes is T F f = (r, f')" using Cons.prems(6) Refuted unfolding step by simp
    ultimately show ?thesis using Cons.IH[OF Cons.prems(1) i(2) Cons.prems(3-5)] by auto
  next
    case Confirmed
    then have "path_true P f val i" using Cons.prems(4) by (auto simp: filterSplitedStateFast_def path_true_def split: if_splits)
    then show ?thesis using Cons.prems(6) Confirmed unfolding step by auto
  next
    case Unknown
    obtain v T' F' where c: "check_conds P bs (expr_order P (conds_of f i)) T F = (v, T', F')" by (cases "check_conds P bs (expr_order P (conds_of f i)) T F")
    have o: "set (expr_order P (conds_of f i)) = set (conds_of f i)" using assms(5) by (simp add: sound_orders_def)
    have "\<forall>e \<in> set (expr_order P (conds_of f i)). evaluate P bs e = Some (val (ehash P e))"
      unfolding o using Cons.prems(3) i(1) by (simp add: values_by_hash_def bs_def)
    from check_conds_correct[OF this Cons.prems(4,5) c]
    have v: "v = (if main_true P f val i then Holds else Fails)" "\<forall>h \<in> T'. val h" "\<forall>h \<in> F'. \<not> val h"
      unfolding o by (simp_all add: main_true_def)
    have e: "(case v of Holds \<Rightarrow> (Matched i, hit i (bind_conds i bs f)) | Fails \<Rightarrow> scan_states P fsize bytes is T' F' (bind_conds i bs f)
        | Undecided \<Rightarrow> (Stuck i, bind_conds i bs f)) = (r, f')"
      using Cons.prems(6) Unknown assms(3) unfolding step bs_def[symmetric] c by (simp split: verdict.splits)
    show ?thesis
    proof (cases "main_true P f val i")
      case True
      then show ?thesis using e v(1) by auto
    next
      case False
      then have s: "scan_states P fsize bytes is T' F' (bind_conds i bs f) = (r, f')" using e v(1) by simp
      have "values_by_hash P (bind_conds i bs f) (take fsize bytes) val" unfolding bs_def by (rule values_bind[OF Cons.prems(3)])
      from Cons.IH[OF ok_bind[OF Cons.prems(1)] _ this v(2,3) s] i(2) False show ?thesis by auto
    qed
  qed
qed auto

text \<open>The states of the right length, as the code looks them up.\<close>

lemma isRedundant_eq:
  assumes "kept f \<noteq> {}"
  shows "isRedundant P (Some (fsize, bytes)) rand f =
    (case scan_states P fsize bytes (ptr_order P (states_of f fsize)) {} {}
        (f\<lparr>m_input_states := snd (om_get [] fsize (m_input_states f))\<rparr>) of
       (Matched i, f) \<Rightarrow> Inr (True, False, f)
     | (ReadError, f) \<Rightarrow> Inr (False, False, f)
     | (Stuck i, f) \<Rightarrow> if rand mod 5 \<noteq> 0 then Inr (True, False, hit i f) else Inr (False, False, f)
     | (Unmatched, f) \<Rightarrow> err_bind (sample f) (\<lambda>(symbex, f). Inr (False, symbex, f)))"
proof -
  have n: "m_sigID_States f \<noteq> []" using assms by (auto simp: kept_def om_keys_def)
  have g: "om_get [] fsize (m_input_states f) = (states_of f fsize, snd (om_get [] fsize (m_input_states f)))"
    by (simp add: om_get_def states_of_def split: option.split)
  show ?thesis unfolding isRedundant_def if_not_P[OF n] option.case prod.case by (subst g) (simp only: prod.case)
qed

definition looked_up :: "nat \<Rightarrow> 'e tfilter \<Rightarrow> 'e tfilter" where
  "looked_up fsize f = f\<lparr>m_input_states := snd (om_get [] fsize (m_input_states f))\<rparr>"

lemma ok_looked_up:
  assumes "filter_ok P f"
  shows "filter_ok P (looked_up fsize f)"
  by (rule filter_ok_cong[OF _ _ _ _ _ _ _ assms])
    (use filter_okD(2)[OF assms] in \<open>auto simp: looked_up_def states_of_def fun_eq_iff\<close>)

lemma looked_up_simps [simp]:
  "kept (looked_up n f) = kept f" "path_true P (looked_up n f) = path_true P f" "main_true P (looked_up n f) = main_true P f"
  "values_by_hash P (looked_up n f) = values_by_hash P f" "m_ModeSwitched (looked_up n f) = m_ModeSwitched f"
  by (simp_all add: looked_up_def kept_def fun_eq_iff path_true_def main_true_def values_by_hash_def hashes_of_def conds_of_def)

lemma sample_ok:
  assumes "filter_ok P f"
  shows "\<exists>b f'. sample f = Inr (b, f') \<and> filter_ok P f'"
proof -
  have c: "filter_ok P (f\<lparr>m_FreqCounter := n\<rparr>)" for n
    by (rule filter_ok_cong[OF _ _ _ _ _ _ _ assms]) (use filter_okD(2)[OF assms] in \<open>simp_all add: states_of_def fun_eq_iff\<close>)
  have "\<exists>b f'. updateHotStates g = Inr (b, f') \<and> filter_ok P f'" if "filter_ok P g" for g
    using updateHotStates_eq[OF that] ok_reset[OF that] ok_drop[OF ok_reset[OF that]] by (cases "first_cold (m_sigID_HD g)") auto
  then show ?thesis using assms c by (auto simp: sample_def)
qed


text \<open>
  C3: the redundancy test. Suppose the recorded conditions evaluate to constants that depend only on their hash. Then a test
  case that satisfies both the path constraint and all recorded conditions of a kept state of its length is reported as
  redundant; and one that is reported as redundant satisfies the path constraint or all conditions recorded in the
  main image of some kept state of its length. The short cuts through the hashes seen in earlier states change neither.
  Where path constraint and recorded conditions agree for the kept states of that length, the two bounds meet: the test
  case is redundant exactly if all conditions recorded for one of these states are true. Without this agreement they need not
  meet, since the short cuts compare the hashes of the path constraint and the evaluation only sees the recorded conditions.
\<close>

theorem isRedundant_correct:
  assumes "filter_ok P f" "sound_orders P" "values_by_hash P f input val"
    and "isRedundant P (Some (length input, input)) rand f = Inr (b, symbex, f')"
  shows "(b \<longrightarrow> (\<exists>i \<in> kept f. getInputSize (objs f i) = length input \<and> (path_true P f val i \<or> main_true P f val i))) \<and>
    ((\<exists>i \<in> kept f. getInputSize (objs f i) = length input \<and> path_true P f val i \<and> main_true P f val i) \<longrightarrow> b) \<and>
    ((\<forall>i \<in> kept f. getInputSize (objs f i) = length input \<longrightarrow> path_true P f val i = main_true P f val i) \<longrightarrow>
      b = (\<exists>i \<in> kept f. getInputSize (objs f i) = length input \<and> main_true P f val i))"
proof (cases "kept f = {}")
  case True
  then have "m_sigID_States f = []" by (simp add: kept_def om_keys_def)
  then show ?thesis using assms(4) True by (simp add: isRedundant_def)
next
  case False
  let ?n = "length input" and ?f = "looked_up (length input) f"
  obtain r g where s: "scan_states P ?n input (ptr_order P (states_of f ?n)) {} {} ?f = (r, g)" by (cases "scan_states P ?n input (ptr_order P (states_of f ?n)) {} {} ?f")
  have m: "set (ptr_order P (states_of f ?n)) = {i \<in> kept f. getInputSize (objs f i) = ?n}"
    using assms(2) filter_okD(8)[OF assms(1)] by (simp add: sound_orders_def)
  have "values_by_hash P ?f (take ?n input) val" using assms(3) by simp
  moreover have "set (ptr_order P (states_of f ?n)) \<subseteq> kept ?f" unfolding m by auto
  ultimately have "(\<exists>i \<in> kept f. getInputSize (objs f i) = ?n \<and> r = Matched i \<and> (path_true P f val i \<or> main_true P f val i)) \<or>
    (r = Unmatched \<and> (\<forall>i \<in> kept f. getInputSize (objs f i) = ?n \<longrightarrow> \<not> (path_true P f val i \<and> main_true P f val i)))"
    using scan_correct[OF ok_looked_up[OF assms(1)] _ le_refl _ assms(2) _ _ s, of val] unfolding m by auto
  moreover have "b = (\<exists>i. r = Matched i)" if "\<not> (\<exists>i. r = Stuck i)"
    using assms(4) that s unfolding isRedundant_eq[OF False] looked_up_def[symmetric]
    by (auto simp: err_bind_eq_Inr split: scan.splits prod.splits)
  ultimately show ?thesis by auto
qed


section \<open>Drilling\<close>

text \<open>What the two maps of the drilling mode stand for: the loops counted per length and place, and the conditions per length.\<close>

definition buckets_at :: "'e tfilter \<Rightarrow> nat \<Rightarrow> (nat \<times> bool list) list" where
  "buckets_at f sz = (case om_find sz (m_dril_inputsizeLB f) of None \<Rightarrow> [] | Some lbs \<Rightarrow> lbs)"

definition loops :: "'e tfilter \<Rightarrow> (nat \<times> nat \<times> nat) set" where
  "loops f = {(sz, pc, b). b < 11 \<and> (case find (\<lambda>lb. fst lb = pc) (buckets_at f sz) of None \<Rightarrow> False | Some lb \<Rightarrow> snd lb ! b)}"

definition drilled :: "'e tfilter \<Rightarrow> (nat \<times> nat) set" where
  "drilled f = {(sz, h). h \<in> (case om_find sz (m_drill_ConHash f) of None \<Rightarrow> {} | Some hs \<Rightarrow> hs)}"

definition lb_ok :: "'e tfilter \<Rightarrow> bool" where
  "lb_ok f \<longleftrightarrow> (\<forall>sz. \<forall>lb \<in> set (buckets_at f sz). length (snd lb) = 11)"

lemma bucket_less: "bucket_of n < 11"
  by (simp add: bucket_of_def)

lemma find_mark:
  "find (\<lambda>lb. fst lb = p) (map (mark_bucket pc b) lbs) =
    map_option (\<lambda>lb. if p = pc then (pc, (snd lb)[b := True]) else lb) (find (\<lambda>lb. fst lb = p) lbs)"
  by (induction lbs) (auto simp: mark_bucket_def)

text \<open>Looking for a place, and entering it when it is new.\<close>

definition entered :: "nat \<Rightarrow> (nat \<times> bool list) list \<Rightarrow> (nat \<times> bool list) list" where
  "entered pc lbs = (if find (\<lambda>lb. fst lb = pc) lbs = None then LoopBucket pc # lbs else lbs)"

lemma find_entered:
  "find (\<lambda>lb. fst lb = p) (entered pc lbs) =
    (if p = pc \<and> find (\<lambda>lb. fst lb = pc) lbs = None then Some (LoopBucket pc) else find (\<lambda>lb. fst lb = p) lbs)"
  by (auto simp: entered_def LoopBucket_def)

lemma loop_check:
  fixes f :: "'e tfilter" and i n :: nat
  defines "sz \<equiv> getInputSize (objs f i)" and "pc \<equiv> getPc (objs f i)" and "b \<equiv> bucket_of n"
  shows "\<exists>m. checkLoopBucketFast i n f = ((sz, pc, b) \<in> loops f, f\<lparr>m_dril_inputsizeLB := m\<rparr>) \<and>
    (\<forall>z. buckets_at (f\<lparr>m_dril_inputsizeLB := m\<rparr>) z =
      (if z \<noteq> sz then buckets_at f z else if (sz, pc, b) \<in> loops f then entered pc (buckets_at f sz)
       else map (mark_bucket pc b) (entered pc (buckets_at f sz))))"
proof -
  let ?m = "m_dril_inputsizeLB f" and ?l = "buckets_at f sz"
  define m1 where "m1 = (if find (\<lambda>lb. fst lb = pc) ?l = None then om_set sz (LoopBucket pc # ?l) (snd (om_get [] sz ?m)) else snd (om_get [] sz ?m))"
  have g: "om_get [] sz ?m = (?l, snd (om_get [] sz ?m))" by (simp add: om_get_def buckets_at_def split: option.split)
  obtain lb where lb: "find (\<lambda>lb. fst lb = pc) (entered pc ?l) = Some lb" using find_entered[of pc pc ?l] by fastforce
  have "(if find (\<lambda>lb. fst lb = pc) ?l = None then (LoopBucket pc # ?l, om_set sz (LoopBucket pc # ?l) (snd (om_get [] sz ?m))) else (?l, snd (om_get [] sz ?m))) = (entered pc ?l, m1)"
    by (simp add: entered_def m1_def)
  then have e: "checkLoopBucketFast i n f = (if snd lb ! b then (True, f\<lparr>m_dril_inputsizeLB := m1\<rparr>)
      else (False, f\<lparr>m_dril_inputsizeLB := om_set sz (map (mark_bucket pc b) (entered pc ?l)) m1\<rparr>))"
    unfolding checkLoopBucketFast_def Let_def sz_def[symmetric] pc_def[symmetric] b_def[symmetric]
    by (subst g) (simp only: prod.case lb option.case)
  have l: "(sz, pc, b) \<in> loops f \<longleftrightarrow> snd lb ! b"
  proof (cases "find (\<lambda>lb. fst lb = pc) ?l")
    case None
    then have "lb = LoopBucket pc" using lb find_entered[of pc pc ?l] by simp
    then show ?thesis using None bucket_less[of n] by (simp add: loops_def b_def LoopBucket_def)
  next
    case (Some x)
    then have "lb = x" using lb find_entered[of pc pc ?l] by simp
    then show ?thesis using Some bucket_less[of n] by (simp add: loops_def b_def)
  qed
  have m: "om_find z m1 = (if z = sz then Some (entered pc ?l) else om_find z ?m)" for z
    by (auto simp: m1_def entered_def buckets_at_def split: option.split)
  show ?thesis
  proof (cases "snd lb ! b")
    case True
    then show ?thesis unfolding e l by (intro exI[of _ m1]) (simp add: buckets_at_def m)
  next
    case False
    then show ?thesis unfolding e l
      by (intro exI[of _ "om_set sz (map (mark_bucket pc b) (entered pc ?l)) m1"]) (simp add: buckets_at_def m)
  qed
qed

lemma loop_marks:
  assumes "lb_ok f" "\<forall>z. buckets_at f' z =
      (if z \<noteq> sz then buckets_at f z else if (sz, pc, b) \<in> loops f then entered pc (buckets_at f sz)
       else map (mark_bucket pc b) (entered pc (buckets_at f sz)))" "b < 11"
  shows "loops f' = insert (sz, pc, b) (loops f)" "lb_ok f'"
proof -
  have le: "\<forall>lb \<in> set (entered pc (buckets_at f sz)). length (snd lb) = 11"
    using assms(1) by (auto simp: lb_ok_def entered_def LoopBucket_def)
  then show "lb_ok f'" using assms(1,2) by (auto simp: lb_ok_def mark_bucket_def)
  have len: "length (snd lb) = 11" if "find (\<lambda>lb. fst lb = p) (buckets_at f sz) = Some lb" for p lb
  proof -
    have "lb \<in> set (buckets_at f sz)" using that by (auto simp: find_Some_iff)
    then show ?thesis using assms(1) by (simp add: lb_ok_def)
  qed
  have "(z, p, c) \<in> loops f' \<longleftrightarrow> (z, p, c) = (sz, pc, b) \<or> (z, p, c) \<in> loops f" for z p c
  proof (cases "z = sz \<and> p = pc")
    case False
    then have "find (\<lambda>lb. fst lb = p) (buckets_at f' z) = find (\<lambda>lb. fst lb = p) (buckets_at f z)"
      using assms(2) by (auto simp: find_mark find_entered option.map_ident)
    then show ?thesis using False by (auto simp: loops_def)
  next
    case True
    then show ?thesis using assms(2,3) len[of pc]
      by (auto simp: loops_def find_mark find_entered LoopBucket_def nth_list_update split: option.splits if_splits)
  qed
  then show "loops f' = insert (sz, pc, b) (loops f)" by auto
qed

lemma known_hash_ok:
  assumes "\<forall>p \<in> set ps. om_find p ch = Some (H p)"
  shows "known_hash h ps ch = ((\<exists>p \<in> set ps. h \<in> H p), ch)"
  using assms by (induction ps) (auto simp: om_get_def)


definition drill_hashes :: "'e tfilter \<Rightarrow> nat \<Rightarrow> nat set" where
  "drill_hashes f sz = (case om_find sz (m_drill_ConHash f) of None \<Rightarrow> {} | Some hs \<Rightarrow> hs)"

text \<open>A condition that a kept state of the same length already has.\<close>

definition kept_cond :: "'e symex \<Rightarrow> 'e tfilter \<Rightarrow> nat \<Rightarrow> nat \<Rightarrow> bool" where
  "kept_cond P f sz h \<longleftrightarrow> (\<exists>p \<in> kept f. getInputSize (objs f p) = sz \<and> h \<in> hashes_of P f p)"

lemma kept_cond_scan:
  assumes "filter_ok P f" "sound_orders P"
  shows "known_hash h (ptr_order P (states_of f sz)) (m_sigID_ConHash f) = (kept_cond P f sz h, m_sigID_ConHash f)"
proof -
  have p: "set (ptr_order P (states_of f sz)) = {p \<in> kept f. getInputSize (objs f p) = sz}"
    using assms(2) filter_okD(8)[OF assms(1)] by (simp add: sound_orders_def)
  show ?thesis
    using known_hash_ok[of "ptr_order P (states_of f sz)" "m_sigID_ConHash f" "hashes_of P f" h] filter_okD(6)[OF assms(1)]
    unfolding p by (auto simp: kept_cond_def)
qed

lemma drill_eq:
  assumes "filter_ok P f" "sound_orders P" "path_constraints (objs f i) = c # cs"
    and "checkLoopBucketFast i n f = (loop, f\<lparr>m_dril_inputsizeLB := m\<rparr>)" "sz = getInputSize (objs f i)"
  shows "checkRedundantFast P i n f =
    (let f1 = f\<lparr>m_dril_inputsizeLB := m\<rparr>; f2 = f1\<lparr>m_drill_ConHash := snd (om_get {} sz (m_drill_ConHash f))\<rparr>;
         f3 = f2\<lparr>m_input_states := snd (om_get [] sz (m_input_states f))\<rparr> in
     if loop then Inr (True, f1) else if ehash P c \<in> drill_hashes f sz then Inr (True, f2)
     else if kept_cond P f sz (ehash P c) then Inr (True, f3)
     else Inr (False, f1\<lparr>m_drill_ConHash := om_set sz (insert (ehash P c) (drill_hashes f sz)) (snd (om_get {} sz (m_drill_ConHash f))),
       m_input_states := snd (om_get [] sz (m_input_states f))\<rparr>))"
proof -
  define md where "md = snd (om_get {} sz (m_drill_ConHash f))"
  define ms where "ms = snd (om_get [] sz (m_input_states f))"
  have g: "om_get {} sz (m_drill_ConHash f) = (drill_hashes f sz, md)" "om_get [] sz (m_input_states f) = (states_of f sz, ms)"
    by (simp_all add: prod_eq_iff md_def ms_def drill_hashes_def states_of_def)
  show ?thesis unfolding checkRedundantFast_def assms(3,4) list.case Let_def prod.case assms(5)[symmetric]
    by (simp add: g kept_cond_scan[OF assms(1,2)])
qed

text \<open>The fields of the drilling mode and the others do not interfere.\<close>

lemma ok_drill:
  assumes "filter_ok P f" "y = m_input_states f \<or> y = snd (om_get [] sz (m_input_states f))"
  shows "filter_ok P (f\<lparr>m_dril_inputsizeLB := m, m_drill_ConHash := x, m_input_states := y\<rparr>)"
  by (rule filter_ok_cong[OF _ _ _ _ _ _ _ assms(1)])
    (use filter_okD(2)[OF assms(1)] assms(2) in \<open>auto simp: states_of_def fun_eq_iff\<close>)

lemma drilled_simps:
  "drilled (f\<lparr>m_dril_inputsizeLB := m\<rparr>) = drilled f" "drilled (f\<lparr>m_input_states := y\<rparr>) = drilled f"
  "drilled (f\<lparr>m_drill_ConHash := snd (om_get {} sz (m_drill_ConHash f))\<rparr>) = drilled f"
  "drilled (f\<lparr>m_drill_ConHash := om_set sz (insert h (drill_hashes f sz)) (snd (om_get {} sz (m_drill_ConHash f)))\<rparr>) = insert (sz, h) (drilled f)"
  by (auto simp: drilled_def drill_hashes_def split: option.splits if_splits)

lemma loops_simps:
  "loops (f\<lparr>m_drill_ConHash := x\<rparr>) = loops f" "loops (f\<lparr>m_input_states := y\<rparr>) = loops f"
  "lb_ok (f\<lparr>m_drill_ConHash := x\<rparr>) = lb_ok f" "lb_ok (f\<lparr>m_input_states := y\<rparr>) = lb_ok f"
  by (simp_all add: loops_def lb_ok_def buckets_at_def)

lemma drilled_iff: "(sz, h) \<in> drilled f \<longleftrightarrow> h \<in> drill_hashes f sz"
  by (simp add: drilled_def drill_hashes_def)

lemma drill_step:
  fixes f :: "'e tfilter" and n :: nat
  assumes "filter_ok P f" "lb_ok f" "sound_orders P" "path_constraints (objs f i) = c # cs"
  defines "sz \<equiv> getInputSize (objs f i)"
  defines "L \<equiv> (sz, getPc (objs f i), bucket_of n)" and "D \<equiv> (sz, ehash P c)"
  shows "\<exists>b f'. checkRedundantFast P i n f = Inr (b, f') \<and> filter_ok P f' \<and> lb_ok f' \<and> loops f' = insert L (loops f) \<and>
    b = (L \<in> loops f \<or> D \<in> drilled f \<or> kept_cond P f sz (ehash P c)) \<and>
    drilled f' = (if b then drilled f else insert D (drilled f))"
proof -
  obtain m where m: "checkLoopBucketFast i n f = (L \<in> loops f, f\<lparr>m_dril_inputsizeLB := m\<rparr>)"
    and b: "loops (f\<lparr>m_dril_inputsizeLB := m\<rparr>) = insert L (loops f)" "lb_ok (f\<lparr>m_dril_inputsizeLB := m\<rparr>)"
    using loop_check[of i n f] loop_marks[OF assms(2) _ bucket_less] unfolding L_def sz_def by blast
  note e = drill_eq[OF assms(1,3,4) m sz_def[THEN meta_eq_to_obj_eq]]
  note ok = ok_drill[OF assms(1), where sz = sz and m = m]
  have dh: "drill_hashes (f\<lparr>m_dril_inputsizeLB := m\<rparr>) sz = drill_hashes f sz" by (simp add: drill_hashes_def)
  show ?thesis
  proof (cases "L \<in> loops f")
    case True
    then show ?thesis unfolding e using ok[of "m_input_states f" "m_drill_ConHash f"] b by (auto simp: drilled_simps insert_absorb)
  next
    case F1: False
    show ?thesis
    proof (cases "D \<in> drilled f")
      case True
      then show ?thesis unfolding e D_def drilled_iff using F1 ok[of "m_input_states f"] b
          drilled_simps(3)[where f = "f\<lparr>m_dril_inputsizeLB := m\<rparr>" and sz = sz] by (auto simp: drilled_simps(1) loops_simps drilled_iff[symmetric])
    next
      case False
      then show ?thesis unfolding e D_def drilled_iff using F1 ok[of "snd (om_get [] sz (m_input_states f))"] b
          drilled_simps(3,4)[where f = "f\<lparr>m_dril_inputsizeLB := m\<rparr>" and sz = sz]
        by (auto simp: drilled_simps(1,2) loops_simps dh drilled_iff[symmetric])
    qed
  qed
qed


text \<open>
  C37: drilling. The code refines two sets: the loops seen, as triples of input length, place and bucket, and the conditions
  tried, as pairs of length and hash. A branch is skipped exactly if its bucket was seen, its newest condition was tried, or a
  kept state of the same length has it; its bucket is then marked, and the condition of a branch that is not skipped
  is remembered. So a test case is generated at most once for each bucket of a place and for each condition.
\<close>

theorem drill_refines:
  assumes "filter_ok P f" "lb_ok f" "sound_orders P" "path_constraints (objs f i) = c # cs"
  shows "\<exists>b f'. checkRedundantFast P i n f = Inr (b, f') \<and> filter_ok P f' \<and> lb_ok f' \<and>
    loops f' = insert (getInputSize (objs f i), getPc (objs f i), bucket_of n) (loops f) \<and>
    b = ((getInputSize (objs f i), getPc (objs f i), bucket_of n) \<in> loops f \<or> (getInputSize (objs f i), ehash P c) \<in> drilled f \<or>
      kept_cond P f (getInputSize (objs f i)) (ehash P c)) \<and>
    drilled f' = (if b then drilled f else insert (getInputSize (objs f i), ehash P c) (drilled f))"
  using drill_step[OF assms] .


section \<open>Everything that happens to the filter\<close>

lemma drill_frame_forget: "m_dril_inputsizeLB (forget_cons i f) = m_dril_inputsizeLB f"
  by (simp add: forget_cons_def)

lemma lb_ok_frame: "m_dril_inputsizeLB f' = m_dril_inputsizeLB f \<Longrightarrow> lb_ok f' = lb_ok f"
  by (simp add: lb_ok_def buckets_at_def)

lemma sample_frame: "sample f = Inr (b, f') \<Longrightarrow> m_dril_inputsizeLB f' = m_dril_inputsizeLB f"
  by (auto simp: sample_def updateHotStates_def Let_def split: if_splits option.splits)

lemma ok_isRedundant:
  assumes "filter_ok P f" "sound_orders P"
  shows "\<exists>b symbex f'. isRedundant P (Some fl) rand f = Inr (b, symbex, f') \<and> filter_ok P f' \<and> m_dril_inputsizeLB f' = m_dril_inputsizeLB f"
proof (cases "kept f = {}")
  case True
  then have "m_sigID_States f = []" by (simp add: kept_def om_keys_def)
  then show ?thesis using assms(1) by (auto simp: isRedundant_def)
next
  case False
  obtain n bytes where fl: "fl = (n, bytes)" by (cases fl)
  obtain r g where s: "scan_states P n bytes (ptr_order P (states_of f n)) {} {} (looked_up n f) = (r, g)"
    by (cases "scan_states P n bytes (ptr_order P (states_of f n)) {} {} (looked_up n f)")
  have "set (ptr_order P (states_of f n)) \<subseteq> kept (looked_up n f)"
    using assms(2) filter_okD(8)[OF assms(1)] by (auto simp: sound_orders_def)
  from scan_ok[OF ok_looked_up[OF assms(1)] this s]
  have g: "filter_ok P g" "\<And>i. r = Matched i \<or> r = Stuck i \<Longrightarrow> i \<in> kept g" "m_dril_inputsizeLB g = m_dril_inputsizeLB f"
    by (auto simp: looked_up_def)
  obtain b g' where sm: "sample g = Inr (b, g')" "filter_ok P g'" using sample_ok[OF g(1)] by blast
  note e = isRedundant_eq[OF False, of P n bytes rand, unfolded looked_up_def[symmetric] s]
  show ?thesis
  proof (cases r)
    case (Stuck i)
    then show ?thesis unfolding fl e using g ok_hit[OF g(1), of i] by auto
  qed (use g sm sample_frame[OF sm(1)] in \<open>auto simp: fl e\<close>)
qed

text \<open>
  A step is one of the calls that the emulator makes: a fork that is not taken, a state that is entered after its run, a
  test case that is checked, a state given up, a branch considered for drilling, the switch of the mode, and the execution of
  states that are not kept.
\<close>

inductive filter_step :: "'e symex \<Rightarrow> 'e tfilter \<Rightarrow> 'e tfilter \<Rightarrow> bool" for P where
  fs_fork: "filter_step P f (onDisabledFork i c f)"
| fs_add: "i \<notin> kept f \<Longrightarrow> addSigState P i f = (b, f') \<Longrightarrow> filter_step P f f'"
| fs_check: "isRedundant P file rand f = Inr (b, symbex, f') \<Longrightarrow> filter_step P f f'"
| fs_cleanup: "filter_step P f (cleanup i f)"
| fs_drill: "checkRedundantFast P i n f = Inr (b, f') \<Longrightarrow> filter_step P f f'"
| fs_mode: "filter_step P f (f\<lparr>m_ModeSwitched := True\<rparr>)"
| fs_run: "\<forall>i \<in> kept f. obs i = objs f i \<Longrightarrow> filter_step P f (f\<lparr>objs := obs\<rparr>)"

definition filter_start :: "nat \<Rightarrow> nat \<Rightarrow> (nat \<Rightarrow> 'e xstate) \<Rightarrow> 'e tfilter" where
  "filter_start hottest freq obs = \<lparr>m_hottestNum = hottest, m_sampleFreq = freq, m_FreqCounter = freq, m_ModeSwitched = False,
     m_mainImageBase = 0, m_mainImageEnd = 0, m_input_states = [], m_sigID_ConHash = [], m_sigID_ConInMainImage = [],
     m_sigID_States = [], m_sigID_HD = [], m_drill_ConHash = [], m_dril_inputsizeLB = [], objs = obs, killed = []\<rparr>"

lemma ok_start: "filter_ok P (filter_start h s obs)" "lb_ok (filter_start h s obs)" "m_hottestNum (filter_start h s obs) = h"
  by (simp_all add: filter_start_def filter_ok_def kept_def states_of_def lb_ok_def buckets_at_def om_keys_def)

lemma filter_step_ok:
  assumes "filter_step P f f'" "filter_ok P f" "lb_ok f" "sound_orders P"
  shows "filter_ok P f' \<and> lb_ok f'"
  using assms
proof cases
  case (fs_fork i c)
  then show ?thesis using ok_onDisabledFork[OF assms(2)] assms(3)
    by (simp add: lb_ok_def buckets_at_def onDisabledFork_def split: option.split)
next
  case (fs_add i b)
  then have "lb_ok f' = lb_ok f"
    by (intro lb_ok_frame) (auto simp: addSigState_eq[OF assms(2)] forget_cons_def split: if_splits)
  then show ?thesis using ok_addSigState[OF assms(2) fs_add] assms(3) by simp
next
  case (fs_check fl rand b symbex)
  show ?thesis
  proof (cases fl)
    case None
    then have "f' = f" using fs_check by (auto simp: isRedundant_def split: if_splits)
    then show ?thesis using assms(2,3) by simp
  next
    case (Some x)
    then show ?thesis using ok_isRedundant[OF assms(2,4), of x rand] fs_check assms(3) lb_ok_frame[of f' f] by auto
  qed
next
  case (fs_cleanup i)
  then show ?thesis using ok_forget[OF assms(2)] assms(3) lb_ok_frame[OF drill_frame_forget, of i f] by (simp add: cleanup_def)
next
  case (fs_drill i n b)
  then obtain c cs where "path_constraints (objs f i) = c # cs"
    by (auto simp: checkRedundantFast_def split: list.splits)
  then show ?thesis using drill_step[OF assms(2,3,4), of i c cs n] fs_drill by auto
next
  case fs_mode
  have "filter_ok P (f\<lparr>m_ModeSwitched := True\<rparr>)"
    by (rule filter_ok_cong[OF _ _ _ _ _ _ _ assms(2)]) (use filter_okD(2)[OF assms(2)] in \<open>simp_all add: states_of_def fun_eq_iff\<close>)
  then show ?thesis using fs_mode assms(3) by (simp add: lb_ok_def buckets_at_def)
next
  case (fs_run obs)
  have "filter_ok P (f\<lparr>objs := obs\<rparr>)"
    by (rule filter_ok_cong[OF _ _ _ _ _ _ _ assms(2)])
      (use filter_okD(2)[OF assms(2)] fs_run in \<open>simp_all add: states_of_def fun_eq_iff\<close>)
  then show ?thesis using fs_run assms(3) by (simp add: lb_ok_def buckets_at_def)
qed


text \<open>
  C8: the filter as a whole. From the empty filter, in every interleaving of the calls the emulator makes, the maps describe
  the same set of kept states: counters, hashes and the index by length have exactly these entries, no two states of the same
  length have the same hashes, and there are fewer than \<^verbatim>\<open>hottestNum\<close> of them. Therefore checking a test case whose
  file can be opened, and sampling the counters, never fail.
\<close>

theorem filter_consistent:
  assumes "(filter_step P)\<^sup>*\<^sup>* (filter_start h s obs) f" "sound_orders P"
  shows "filter_ok P f \<and> (\<exists>r. isRedundant P (Some fl) rand f = Inr r) \<and> (\<exists>r. updateHotStates f = Inr r)"
proof -
  have "filter_ok P f \<and> lb_ok f"
    using assms(1)
  proof (induction rule: rtranclp_induct)
    case base
    then show ?case by (simp add: ok_start)
  next
    case (step g f)
    then show ?case using filter_step_ok[OF step(2)] assms(2) by blast
  qed
  then have ok: "filter_ok P f" by simp
  show ?thesis using ok ok_isRedundant[OF ok assms(2), of fl rand] updateHotStates_eq[OF ok]
    by (cases "first_cold (m_sigID_HD f)") auto
qed


section \<open>An example\<close>

text \<open>Conditions are numbers, and a condition holds if it is the first byte of the input.\<close>

definition demo_P :: "nat symex" where
  "demo_P = \<lparr>ehash = id, evaluate = (\<lambda>bs e. Some (hd (snd (hd bs)) = word_of_nat e)), ptr_order = id, expr_order = id\<rparr>"

definition demo_obs :: "nat \<Rightarrow> nat xstate" where
  "demo_obs i = \<lparr>getInputSize = 1, path_constraints = [i], concolics = [(''in'', [word_of_nat i])], getPc = 0\<rparr>"

definition demo_f :: "nat tfilter" where
  "demo_f = snd (addSigState demo_P 7 (onDisabledFork 7 7 (filter_start 10 3 demo_obs)))"

lemma demo_orders: "sound_orders demo_P"
  by (simp add: sound_orders_def demo_P_def)

lemma demo_eq: "demo_f = (filter_start 10 3 demo_obs)\<lparr>m_sigID_ConInMainImage := [(7, [7])], m_sigID_ConHash := [(7, {7})], m_sigID_HD := [(7, 0)],
    m_sigID_States := [(7, 7)], m_input_states := [(1, [7])]\<rparr>"
  by (simp add: demo_f_def filter_start_def onDisabledFork_def isMainImage_def addSigState_def demo_obs_def demo_P_def om_insert_def add_input_state_def)

lemma demo_kept: "kept demo_f = {7}" "getInputSize (objs demo_f 7) = 1" "conds_of demo_f 7 = [7]"
  by (simp_all add: demo_eq kept_def om_keys_def filter_start_def demo_obs_def conds_of_def)

lemma demo_ok: "filter_ok demo_P demo_f"
proof -
  let ?f = "onDisabledFork 7 7 (filter_start 10 3 demo_obs)"
  have "filter_ok demo_P ?f" by (rule ok_onDisabledFork[OF ok_start(1)])
  moreover have "7 \<notin> kept ?f" by (simp add: onDisabledFork_def filter_start_def kept_def om_keys_def isMainImage_def demo_obs_def)
  ultimately show ?thesis using ok_addSigState[of demo_P ?f 7] by (cases "addSigState demo_P 7 ?f") (simp add: demo_f_def)
qed

lemma demo_values: "values_by_hash demo_P demo_f [b] (\<lambda>h. b = word_of_nat h)"
proof -
  have "concolics (objs demo_f 7) = [(''in'', [7])]" by (simp add: demo_eq filter_start_def demo_obs_def)
  then show ?thesis
    by (simp add: values_by_hash_def demo_kept) (simp add: substitute_def keeps_value_def demo_P_def)
qed

theorem eviction_witness:
  "\<exists>f'. updateHotStates demo_f = Inr (True, f') \<and> filter_ok demo_P f' \<and> kept f' = {} \<and> killed f' = [7]"
proof -
  have c: "om_find i (m_sigID_HD demo_f) = Some 0 \<longleftrightarrow> i = 7" for i by (simp add: demo_eq)
  then have l: "(LEAST i. om_find i (m_sigID_HD demo_f) = Some 0) = 7" by (intro Least_equality) simp_all
  have "killed demo_f = []" by (simp add: demo_eq filter_start_def)
  then show ?thesis using eviction_correct[OF demo_ok] c l by (auto simp: demo_kept)
qed

theorem isRedundant_witness:
  "(\<exists>symbex f'. isRedundant demo_P (Some (1, [7])) 0 demo_f = Inr (True, symbex, f')) \<and>
   (\<exists>symbex f'. isRedundant demo_P (Some (1, [8])) 0 demo_f = Inr (False, symbex, f'))"
proof -
  have h: "hashes_of demo_P demo_f 7 = {7}" by (simp add: hashes_of_def demo_eq filter_start_def demo_obs_def demo_P_def)
  have t: "path_true demo_P demo_f v 7 = v 7" "main_true demo_P demo_f v 7 = v 7" for v
    by (simp_all add: path_true_def h main_true_def demo_kept) (simp add: demo_P_def)
  have "\<exists>symbex f'. isRedundant demo_P (Some (1, [b])) 0 demo_f = Inr (b = 7, symbex, f')" for b :: u8
  proof -
    obtain r symbex f' where e: "isRedundant demo_P (Some (length [b], [b])) 0 demo_f = Inr (r, symbex, f')"
      using ok_isRedundant[OF demo_ok demo_orders, of "(1, [b])" 0] by auto
    from isRedundant_correct[OF demo_ok demo_orders demo_values e] have "r = (b = 7)"
      by (auto simp: demo_kept t)
    then show ?thesis using e by simp
  qed
  from this[of 7] this[of 8] show ?thesis by simp
qed

theorem drill_witness:
  "\<exists>f'. checkRedundantFast demo_P 3 1 demo_f = Inr (False, f') \<and> loops f' = insert (1, 0, 1) (loops demo_f)"
proof -
  have p: "path_constraints (objs demo_f 3) = [3]" "getInputSize (objs demo_f 3) = 1" "getPc (objs demo_f 3) = 0" "lb_ok demo_f"
    by (simp_all add: demo_eq filter_start_def demo_obs_def lb_ok_def buckets_at_def)
  have h: "hashes_of demo_P demo_f 7 = {7}" by (simp add: hashes_of_def demo_eq filter_start_def demo_obs_def demo_P_def)
  have n: "loops demo_f = {}" "drilled demo_f = {}" by (simp_all add: demo_eq filter_start_def loops_def buckets_at_def drilled_def)
  from drill_refines[OF demo_ok p(4) demo_orders p(1), of 1] show ?thesis
    by (auto simp: p n kept_cond_def demo_kept h bucket_of_def) (simp add: demo_P_def)
qed

theorem filter_consistent_witness:
  "filter_ok demo_P demo_f \<and> (\<exists>r. isRedundant demo_P (Some (1, [7])) 0 demo_f = Inr r) \<and> (\<exists>r. updateHotStates demo_f = Inr r)"
proof (rule filter_consistent)
  let ?f = "onDisabledFork 7 7 (filter_start 10 3 demo_obs)"
  have "filter_step demo_P (filter_start 10 3 demo_obs) ?f" by (rule fs_fork)
  moreover have "7 \<notin> kept ?f" by (simp add: onDisabledFork_def filter_start_def kept_def om_keys_def isMainImage_def demo_obs_def)
  then have "filter_step demo_P ?f demo_f" unfolding demo_f_def by (rule fs_add) (rule prod.collapse[symmetric])
  ultimately show "(filter_step demo_P)\<^sup>*\<^sup>* (filter_start 10 3 demo_obs) demo_f"
    by (rule converse_rtranclp_into_rtranclp[OF _ r_into_rtranclp])
qed (rule demo_orders)


end
