(* ===== verification/Decimal.thy ===== *)
theory Decimal
  imports Dict
begin

text \<open>
  Decimal numbers as \<^verbatim>\<open>sprintf\<close> writes them and \<^verbatim>\<open>atoi\<close> and \<^verbatim>\<open>atol\<close> read them, and \<^verbatim>\<open>strtok\<close> with one
  separator: what the fuzzer and the emulators use to exchange messages.
\<close>

fun dec :: "nat \<Rightarrow> buf" where
  "dec n = (if n < 10 then [word_of_nat (48 + n)] else dec (n div 10) @ [word_of_nat (48 + n mod 10)])"

declare dec.simps [simp del]

definition atol :: "buf \<Rightarrow> u64" where
  "atol s = (let s = dropWhile isspace s;
       v = (if s \<noteq> [] \<and> hd s = 45 then - digits_val (tl s) else if s \<noteq> [] \<and> hd s = 43 then digits_val (tl s) else digits_val s)
     in word_of_int (max (- (2 ^ 63)) (min (2 ^ 63 - 1) v)))"

text \<open>\<^verbatim>\<open>strtok\<close> on a text: the next token, if there is one, and what is left for the next call.\<close>

definition strtok :: "u8 \<Rightarrow> buf \<Rightarrow> (buf \<times> buf) option" where
  "strtok sep s = (let s = dropWhile (\<lambda>c. c = sep) s in
     if s = [] then None else Some (takeWhile (\<lambda>c. c \<noteq> sep) s, drop 1 (dropWhile (\<lambda>c. c \<noteq> sep) s)))"


section \<open>Numbers that are written can be read\<close>

lemma digit_props:
  assumes "d < 10"
  shows "isdigit (word_of_nat (48 + d))" "uint (word_of_nat (48 + d) :: u8) - 48 = int d" "word_of_nat (48 + d) \<noteq> (0 :: u8)"
    "word_of_nat (48 + d) \<noteq> (124 :: u8)" "\<not> isspace (word_of_nat (48 + d))" "word_of_nat (48 + d) \<noteq> (45 :: u8)" "word_of_nat (48 + d) \<noteq> (43 :: u8)"
proof -
  have "list_all (\<lambda>d. isdigit (word_of_nat (48 + d)) \<and> uint (word_of_nat (48 + d) :: u8) - 48 = int d \<and> word_of_nat (48 + d) \<noteq> (0 :: u8) \<and>
      word_of_nat (48 + d) \<noteq> (124 :: u8) \<and> \<not> isspace (word_of_nat (48 + d)) \<and> word_of_nat (48 + d) \<noteq> (45 :: u8) \<and> word_of_nat (48 + d) \<noteq> (43 :: u8)) [0..<10]"
    by code_simp
  moreover have "d \<in> set [0..<10]" using assms by simp
  ultimately show "isdigit (word_of_nat (48 + d))" "uint (word_of_nat (48 + d) :: u8) - 48 = int d" "word_of_nat (48 + d) \<noteq> (0 :: u8)"
    "word_of_nat (48 + d) \<noteq> (124 :: u8)" "\<not> isspace (word_of_nat (48 + d))" "word_of_nat (48 + d) \<noteq> (45 :: u8)" "word_of_nat (48 + d) \<noteq> (43 :: u8)"
    unfolding list_all_iff by blast+
qed

lemma dec_nonempty: "dec n \<noteq> []"
  by (subst dec.simps) simp

lemma dec_digits: "\<forall>c \<in> set (dec n). isdigit c \<and> c \<noteq> 0 \<and> c \<noteq> 124 \<and> \<not> isspace c \<and> c \<noteq> 45 \<and> c \<noteq> 43"
proof (induction n rule: dec.induct)
  case (1 n)
  show ?case
  proof (cases "n < 10")
    case True
    then show ?thesis using digit_props[OF True] by (subst dec.simps) simp
  next
    case False
    have "n mod 10 < 10" by simp
    then show ?thesis using 1[OF False] digit_props[of "n mod 10"] False by (subst dec.simps) auto
  qed
qed

lemma fold_dec: "fold (\<lambda>c v. 10 * v + (uint c - 48)) (dec n) 0 = int n"
proof (induction n rule: dec.induct)
  case (1 n)
  show ?case
  proof (cases "n < 10")
    case True
    then show ?thesis using digit_props(2)[OF True] by (subst dec.simps) simp
  next
    case False
    have "n mod 10 < 10" by simp
    moreover have "10 * int (n div 10) + int (n mod 10) = int n" by presburger
    ultimately show ?thesis using 1[OF False] digit_props(2)[of "n mod 10"] False by (subst dec.simps) simp
  qed
qed

lemma digits_val_dec:
  assumes "r = [] \<or> \<not> isdigit (hd r)"
  shows "digits_val (dec n @ r) = int n"
proof -
  have "takeWhile isdigit r = []" using assms by (cases r) auto
  then have "takeWhile isdigit (dec n @ r) = dec n" using dec_digits[of n] by (simp add: takeWhile_append2)
  then show ?thesis using fold_dec[of n] by (simp add: digits_val_def)
qed

lemma dec_hd: "\<not> isspace (hd (dec n @ r))" "hd (dec n @ r) \<noteq> 45" "hd (dec n @ r) \<noteq> 43"
  using dec_digits[of n] dec_nonempty[of n] by (auto simp: hd_append dest: hd_in_set)

lemma dropWhile_dec: "dropWhile isspace (dec n @ r) = dec n @ r"
  using dec_hd(1)[of n r] dec_nonempty[of n] by (cases "dec n @ r") auto

lemma atoi_dec: "n < 2 ^ 31 \<Longrightarrow> r = [] \<or> \<not> isdigit (hd r) \<Longrightarrow> unat (atoi (dec n @ r)) = n"
  using dec_hd[of n r] dec_nonempty[of n] by (simp add: atoi_def Let_def dropWhile_dec digits_val_dec unsigned_of_nat take_bit_eq_mod)

lemma atol_dec: "n < 2 ^ 63 \<Longrightarrow> r = [] \<or> \<not> isdigit (hd r) \<Longrightarrow> unat (atol (dec n @ r)) = n"
  using dec_hd[of n r] dec_nonempty[of n] by (simp add: atol_def Let_def dropWhile_dec digits_val_dec unsigned_of_nat take_bit_eq_mod)

lemma strtok_dec: "strtok 124 (dec n @ 124 # r) = Some (dec n, r)"
proof -
  have "dropWhile (\<lambda>c. c = 124) (dec n @ 124 # r) = dec n @ 124 # r"
    using dec_digits[of n] dec_nonempty[of n] by (cases "dec n") auto
  moreover have "takeWhile (\<lambda>c. c \<noteq> 124) (dec n @ 124 # r) = dec n" "dropWhile (\<lambda>c. c \<noteq> 124) (dec n @ 124 # r) = 124 # r"
    using dec_digits[of n] by (auto simp: takeWhile_append2 dropWhile_append2)
  ultimately show ?thesis using dec_nonempty[of n] by (simp add: strtok_def)
qed

lemma strtok_dec_end: "strtok 124 (dec n) = Some (dec n, [])"
proof -
  have d: "dropWhile (\<lambda>c. c = 124) (dec n) = dec n" using dec_digits[of n] dec_nonempty[of n] by (cases "dec n") auto
  have t: "takeWhile (\<lambda>c. c \<noteq> 124) (dec n) = dec n" "dropWhile (\<lambda>c. c \<noteq> 124) (dec n) = []"
    using dec_digits[of n] by (auto simp: takeWhile_eq_all_conv dropWhile_eq_Nil_conv)
  show ?thesis unfolding strtok_def Let_def d t using dec_nonempty[of n] by simp
qed

end
