(* ===== verification/End_Detector.thy ===== *)
theory End_Detector
  imports Test_Filter Decimal
begin

text \<open>
  The detection of end-of-input checks in the emulator (\<^verbatim>\<open>InputEndDetector.cpp\<close>) and the collection of the
  input offsets that branches depend on (\<^verbatim>\<open>findInputBytes\<close> and \<^verbatim>\<open>CollectSignificantOffs\<close>).
\<close>

section \<open>Expressions\<close>

text \<open>
  The shape of an expression of the symbolic executor as far as the traversal sees it: constants, one-byte reads of
  an array at an index, and all other operators with their operands.
\<close>

datatype kexpr = Constant nat | Read kexpr | Op "kexpr list"

fun kids :: "kexpr \<Rightarrow> kexpr list" where
  "kids (Constant n) = []"
| "kids (Read i) = [i]"
| "kids (Op es) = es"

text \<open>
  The loop of \<^verbatim>\<open>findInputBytes\<close> over the operands: a read at a constant index is collected, a read at another
  index ends the loop, and every other operand is searched.
\<close>

fun collect_kids :: "kexpr list \<Rightarrow> nat set \<Rightarrow> nat set" where
  "collect_kids [] acc = acc"
| "collect_kids (Read (Constant n) # ks) acc = collect_kids ks (insert (n mod 2 ^ 32) acc)"
| "collect_kids (Read (Read i) # ks) acc = acc"
| "collect_kids (Read (Op es) # ks) acc = acc"
| "collect_kids (Constant n # ks) acc = collect_kids ks acc"
| "collect_kids (Op es # ks) acc = collect_kids ks (collect_kids es acc)"

definition findInputBytes :: "kexpr \<Rightarrow> nat set \<Rightarrow> nat set" where
  "findInputBytes condition collector = collect_kids (kids condition) collector"


section \<open>The detector\<close>

record detector =
  m_PCCs :: "kexpr list omap"
  m_EDHSs :: "nat set"
  m_filtered :: bool
  m_MinContinuous :: nat
  m_CheckInterval :: nat

definition InputEndDetectorState :: detector where
  "InputEndDetectorState = \<lparr>m_PCCs = [], m_EDHSs = {}, m_filtered = False, m_MinContinuous = 0, m_CheckInterval = 0\<rparr>"

definition updatePCCs :: "nat \<Rightarrow> kexpr \<Rightarrow> detector \<Rightarrow> detector" where
  "updatePCCs pc condition d =
     d\<lparr>m_PCCs := (case om_find pc (m_PCCs d) of
         Some cs \<Rightarrow> om_set pc (cs @ [condition]) (m_PCCs d)
       | None \<Rightarrow> om_insert pc [condition] (m_PCCs d))\<rparr>"

definition detect_onDisabledFork :: "nat \<Rightarrow> nat \<Rightarrow> kexpr \<Rightarrow> detector \<Rightarrow> detector" where
  "detect_onDisabledFork i pc condition d = (if i = 0 then d else updatePCCs pc condition d)"

text \<open>
  \<^verbatim>\<open>isEndDetection\<close>: the smallest offsets go up by the interval, in 32 bits. The smallest element of an empty set,
  which an interval of zero would ask for, does not exist.
\<close>

fun steps_by :: "nat \<Rightarrow> nat \<Rightarrow> nat set list \<Rightarrow> err + bool" where
  "steps_by k pre [] = Inr True"
| "steps_by k pre (s # ss) =
     (if card s \<noteq> k then Inr False
      else if s = {} then Inl OutOfBounds
      else let cur = Min s in
        if (word_of_nat cur - word_of_nat pre :: u32) \<noteq> word_of_nat k then Inr False else steps_by k cur ss)"

definition isEndDetection :: "nat \<Rightarrow> nat set list \<Rightarrow> err + bool" where
  "isEndDetection k offs =
     (case offs of
        [] \<Rightarrow> Inl OutOfBounds
      | s # ss \<Rightarrow> if card s \<noteq> k then Inr False else if s = {} then Inl OutOfBounds else steps_by k (Min s) ss)"

fun filter_pcs :: "(kexpr \<Rightarrow> nat) \<Rightarrow> kexpr list omap \<Rightarrow> detector \<Rightarrow> err + detector" where
  "filter_pcs h [] d = Inr d"
| "filter_pcs h ((pc, cs) # m) d =
     (if length cs < m_MinContinuous d then filter_pcs h m d
      else err_bind (isEndDetection (m_CheckInterval d) (map (\<lambda>c. findInputBytes c {}) cs)) (\<lambda>yes.
        filter_pcs h m (if yes then d\<lparr>m_EDHSs := m_EDHSs d \<union> set (map h cs)\<rparr> else d)))"

definition filterInputEndDetectionInternal :: "(kexpr \<Rightarrow> nat) \<Rightarrow> detector \<Rightarrow> err + detector" where
  "filterInputEndDetectionInternal h d = filter_pcs h (m_PCCs d) d"

text \<open>The parameters are set on the first query, and the conditions are evaluated only once.\<close>

definition set_params :: "nat \<Rightarrow> nat \<Rightarrow> detector \<Rightarrow> detector" where
  "set_params minc interval d =
     (let d = (if m_MinContinuous d = 0 then d\<lparr>m_MinContinuous := minc\<rparr> else d) in
      if m_CheckInterval d = 0 then d\<lparr>m_CheckInterval := interval\<rparr> else d)"

definition isEndChecking :: "nat \<Rightarrow> nat \<Rightarrow> (kexpr \<Rightarrow> nat) \<Rightarrow> nat \<Rightarrow> detector \<Rightarrow> err + bool \<times> detector" where
  "isEndChecking minc interval h conditionHS d =
     (let d = set_params minc interval d in
      err_bind (if m_filtered d then Inr d else err_bind (filterInputEndDetectionInternal h d) (\<lambda>d. Inr (d\<lparr>m_filtered := True\<rparr>)))
        (\<lambda>d. Inr (conditionHS \<in> m_EDHSs d, d)))"


section \<open>Collecting offsets\<close>

text \<open>The offsets of all conditions that are not end-of-input checks.\<close>

fun collect_conds :: "nat \<Rightarrow> nat \<Rightarrow> (kexpr \<Rightarrow> nat) \<Rightarrow> kexpr list \<Rightarrow> nat set \<Rightarrow> detector \<Rightarrow> err + nat set \<times> detector" where
  "collect_conds minc interval h [] acc d = Inr (acc, d)"
| "collect_conds minc interval h (c # cs) acc d =
     err_bind (isEndChecking minc interval h (h c) d) (\<lambda>(yes, d).
       collect_conds minc interval h cs (if yes then acc else findInputBytes c acc) d)"

text \<open>\<^verbatim>\<open>"%d-"\<close> for each offset, in order; values from \<open>2 ^ 31\<close> on print as negative numbers.\<close>

definition print_off :: "nat \<Rightarrow> buf" where
  "print_off n = (if n < 2 ^ 31 then dec n else 45 # dec (2 ^ 32 - n)) @ [45]"

text \<open>
  \<^verbatim>\<open>CollectSignificantOffs\<close> on the file for the length of the input: the file is opened without truncation, so the
  new text overwrites the beginning of the old one.
\<close>

definition overwrite :: "buf \<Rightarrow> buf \<Rightarrow> buf" where
  "overwrite old new = new @ drop (length new) old"

definition CollectSignificantOffs ::
  "nat \<Rightarrow> nat \<Rightarrow> (kexpr \<Rightarrow> nat) \<Rightarrow> kexpr xstate \<Rightarrow> detector \<Rightarrow> (nat \<Rightarrow> buf) \<Rightarrow> err + detector \<times> (nat \<Rightarrow> buf)"
where
  "CollectSignificantOffs minc interval h st d files =
     (if getInputSize st < minc then Inr (d, files)
      else err_bind (collect_conds minc interval h (path_constraints st) {} d) (\<lambda>(offs, d).
        if offs = {} then Inr (d, files)
        else Inr (d, files(getInputSize st := overwrite (files (getInputSize st)) (concat (map print_off (sorted_list_of_set offs)))))))"


section \<open>Which offsets are found\<close>

fun read_offs :: "kexpr \<Rightarrow> nat set" where
  "read_offs (Constant n) = {}"
| "read_offs (Read (Constant n)) = {n mod 2 ^ 32}"
| "read_offs (Read (Read i)) = {}"
| "read_offs (Read (Op es)) = {}"
| "read_offs (Op es) = (\<Union>e \<in> set es. read_offs e)"

fun const_idx :: "kexpr \<Rightarrow> bool" where
  "const_idx (Constant n) \<longleftrightarrow> True"
| "const_idx (Read (Constant n)) \<longleftrightarrow> True"
| "const_idx (Read (Read i)) \<longleftrightarrow> False"
| "const_idx (Read (Op es)) \<longleftrightarrow> False"
| "const_idx (Op es) \<longleftrightarrow> list_all const_idx es"

lemma collect_kids_bounds: "acc \<subseteq> collect_kids ks acc \<and> collect_kids ks acc \<subseteq> acc \<union> (\<Union>e \<in> set ks. read_offs e)"
  by (induction ks acc rule: collect_kids.induct) auto

lemma collect_kids_all: "list_all const_idx ks \<Longrightarrow> collect_kids ks acc = acc \<union> (\<Union>e \<in> set ks. read_offs e)"
  by (induction ks acc rule: collect_kids.induct) (auto simp: list_all_iff)

lemma finite_collect: "finite acc \<Longrightarrow> finite (collect_kids ks acc)"
  by (induction ks acc rule: collect_kids.induct) auto


section \<open>Which conditions are end-of-input checks\<close>

text \<open>The smallest offsets advance by the interval from each condition to the next.\<close>

definition progression :: "nat \<Rightarrow> nat set list \<Rightarrow> bool" where
  "progression k offs \<longleftrightarrow> (\<forall>s \<in> set offs. card s = k) \<and>
     (\<forall>i. Suc i < length offs \<longrightarrow> (word_of_nat (Min (offs ! Suc i)) - word_of_nat (Min (offs ! i)) :: u32) = word_of_nat k)"

lemma progression_Cons:
  "progression k (s # t # ss) \<longleftrightarrow> card s = k \<and> (word_of_nat (Min t) - word_of_nat (Min s) :: u32) = word_of_nat k \<and> progression k (t # ss)"
proof -
  have "(\<forall>i. Suc i < length (s # t # ss) \<longrightarrow> Q i) \<longleftrightarrow> Q 0 \<and> (\<forall>i. Suc i < length (t # ss) \<longrightarrow> Q (Suc i))" for Q
    by (metis Suc_less_eq length_Cons less_Suc_eq_0_disj not0_implies_Suc)
  then show ?thesis unfolding progression_def by (simp only: nth_Cons_Suc nth_Cons_0 set_simps ball_simps) auto
qed

lemma progression_one: "progression k [s] \<longleftrightarrow> card s = k"
  by (simp add: progression_def)

lemma steps_by_correct: "0 < k \<Longrightarrow> card s = k \<Longrightarrow> steps_by k (Min s) ss = Inr (progression k (s # ss))"
proof (induction ss arbitrary: s)
  case Nil
  then show ?case by (simp add: progression_def)
next
  case (Cons t ss)
  then show ?case by (auto simp: progression_Cons Let_def) (auto simp: progression_def)
qed

lemma isEndDetection_correct:
  assumes "0 < k" "offs \<noteq> []"
  shows "isEndDetection k offs = Inr (progression k offs)"
proof -
  obtain s ss where o: "offs = s # ss" using assms(2) by (cases offs) auto
  show ?thesis
  proof (cases "card s = k")
    case True
    then have "s \<noteq> {}" using assms(1) by auto
    with True steps_by_correct[OF assms(1) True] show ?thesis by (simp add: isEndDetection_def o)
  qed (auto simp: isEndDetection_def o progression_def)
qed

definition end_check :: "nat \<Rightarrow> nat \<Rightarrow> kexpr list \<Rightarrow> bool" where
  "end_check minc k cs \<longleftrightarrow> minc \<le> length cs \<and> progression k (map (\<lambda>c. findInputBytes c {}) cs)"

lemma filter_pcs_correct:
  assumes "0 < m_CheckInterval d" "\<forall>(pc, cs) \<in> set m. cs \<noteq> []"
  shows "filter_pcs h m d = Inr (d\<lparr>m_EDHSs := m_EDHSs d \<union>
    (\<Union>(pc, cs) \<in> {p \<in> set m. end_check (m_MinContinuous d) (m_CheckInterval d) (snd p)}. h ` set cs)\<rparr>)"
  using assms
proof (induction m arbitrary: d)
  case (Cons p m)
  obtain pc cs where p: "p = (pc, cs)" by (cases p)
  let ?E = "\<lambda>m. \<Union>(pc, cs) \<in> {p \<in> set m. end_check (m_MinContinuous d) (m_CheckInterval d) (snd p)}. h ` set cs"
  have E: "?E (p # m) = (if end_check (m_MinContinuous d) (m_CheckInterval d) cs then h ` set cs else {}) \<union> ?E m"
    unfolding p by auto
  have IH: "filter_pcs h m (d\<lparr>m_EDHSs := X\<rparr>) = Inr (d\<lparr>m_EDHSs := X \<union> ?E m\<rparr>)" for X
    using Cons.IH[of "d\<lparr>m_EDHSs := X\<rparr>"] Cons.prems by simp
  have d: "filter_pcs h m d = Inr (d\<lparr>m_EDHSs := m_EDHSs d \<union> ?E m\<rparr>)" using IH[of "m_EDHSs d"] by simp
  have i: "isEndDetection (m_CheckInterval d) (map (\<lambda>c. findInputBytes c {}) cs) = Inr (progression (m_CheckInterval d) (map (\<lambda>c. findInputBytes c {}) cs))"
    using Cons.prems p by (intro isEndDetection_correct) auto
  show ?case unfolding E unfolding p using i IH d by (simp add: end_check_def Un_assoc)
qed simp

lemma filtered_hashes:
  assumes "om_ok m"
  shows "x \<in> (\<Union>(pc, cs) \<in> {p \<in> set m. Q (snd p)}. h ` set cs) \<longleftrightarrow> (\<exists>pc cs. om_find pc m = Some cs \<and> Q cs \<and> x \<in> h ` set cs)"
  using om_find_in[OF assms] by fastforce

section \<open>The life of a detector\<close>

text \<open>
  What happens to the detector of a work state \<open>i\<close>: conditions are recorded at their places, and queries are answered.
  \<open>conds_at\<close> is what was recorded at one place, in order.
\<close>

datatype det_event = Recorded nat kexpr | Queried nat

fun detect_run :: "nat \<Rightarrow> nat \<Rightarrow> (kexpr \<Rightarrow> nat) \<Rightarrow> nat \<Rightarrow> det_event list \<Rightarrow> detector \<Rightarrow> err + bool list \<times> detector" where
  "detect_run minc interval h i [] d = Inr ([], d)"
| "detect_run minc interval h i (Recorded pc c # es) d = detect_run minc interval h i es (detect_onDisabledFork i pc c d)"
| "detect_run minc interval h i (Queried x # es) d =
     err_bind (isEndChecking minc interval h x d) (\<lambda>(b, d).
       err_bind (detect_run minc interval h i es d) (\<lambda>(bs, d). Inr (b # bs, d)))"

fun queries :: "det_event list \<Rightarrow> nat list" where
  "queries [] = []"
| "queries (Recorded pc c # es) = queries es"
| "queries (Queried x # es) = x # queries es"

definition conds_at :: "(nat \<times> kexpr) list \<Rightarrow> nat \<Rightarrow> kexpr list" where
  "conds_at cs pc = map snd (filter (\<lambda>p. fst p = pc) cs)"

definition is_end_check :: "nat \<Rightarrow> nat \<Rightarrow> (kexpr \<Rightarrow> nat) \<Rightarrow> (nat \<times> kexpr) list \<Rightarrow> nat \<Rightarrow> bool" where
  "is_end_check minc interval h cs x \<longleftrightarrow> (\<exists>pc. end_check minc interval (conds_at cs pc) \<and> x \<in> h ` set (conds_at cs pc))"

text \<open>Recording: the map holds the conditions of each place.\<close>

definition recorded :: "(nat \<times> kexpr) list \<Rightarrow> detector \<Rightarrow> bool" where
  "recorded cs d \<longleftrightarrow> om_ok (m_PCCs d) \<and> (\<forall>pc. om_find pc (m_PCCs d) = (if conds_at cs pc = [] then None else Some (conds_at cs pc)))"

lemma recorded_update: "recorded cs d \<Longrightarrow> recorded (cs @ [(pc, c)]) (updatePCCs pc c d)"
  by (auto simp: recorded_def updatePCCs_def conds_at_def split: option.splits if_splits)

lemma detect_run_records:
  assumes "i \<noteq> 0" "recorded cs d"
  obtains d' where "recorded (cs @ cs') d'" "d' = d\<lparr>m_PCCs := m_PCCs d'\<rparr>"
    "\<And>es. detect_run minc interval h i (map (\<lambda>(pc, c). Recorded pc c) cs' @ es) d = detect_run minc interval h i es d'"
proof -
  have "\<exists>d'. recorded (cs @ cs') d' \<and> d' = d\<lparr>m_PCCs := m_PCCs d'\<rparr> \<and>
      (\<forall>es. detect_run minc interval h i (map (\<lambda>(pc, c). Recorded pc c) cs' @ es) d = detect_run minc interval h i es d')"
    using assms(2)
  proof (induction cs' arbitrary: cs d)
    case Nil
    then show ?case by (intro exI[of _ d]) simp
  next
    case (Cons p cs')
    obtain pc c where p: "p = (pc, c)" by (cases p)
    from Cons.IH[OF recorded_update[OF Cons.prems], of pc c] obtain d' where d': "recorded (cs @ (pc, c) # cs') d'"
      "d' = (updatePCCs pc c d)\<lparr>m_PCCs := m_PCCs d'\<rparr>"
      "\<forall>es. detect_run minc interval h i (map (\<lambda>(pc, c). Recorded pc c) cs' @ es) (updatePCCs pc c d) = detect_run minc interval h i es d'"
      by auto
    have "d' = d\<lparr>m_PCCs := m_PCCs d'\<rparr>" by (subst d'(2)) (simp add: updatePCCs_def)
    then show ?case using d'(1,3) assms(1) p by (intro exI[of _ d']) (simp add: detect_onDisabledFork_def)
  qed
  then show ?thesis using that by blast
qed

text \<open>The first query classifies what was recorded so far.\<close>

lemma first_query:
  assumes "0 < interval" "recorded cs d" "\<not> m_filtered d" "m_EDHSs d = {}" "m_MinContinuous d = 0" "m_CheckInterval d = 0"
  obtains d' where "isEndChecking minc interval h x d = Inr (is_end_check minc interval h cs x, d')"
    "m_filtered d'" "m_EDHSs d' = {x. is_end_check minc interval h cs x}"
proof -
  let ?d = "d\<lparr>m_MinContinuous := minc, m_CheckInterval := interval\<rparr>"
  let ?E = "\<Union>(pc, cs) \<in> {p \<in> set (m_PCCs d). end_check minc interval (snd p)}. h ` set cs"
  have p: "set_params minc interval d = ?d" using assms(5,6) by (simp add: set_params_def Let_def)
  have ok: "om_ok (m_PCCs d)" and f: "\<And>pc. om_find pc (m_PCCs d) = (if conds_at cs pc = [] then None else Some (conds_at cs pc))"
    using assms(2) by (auto simp: recorded_def)
  have "\<forall>(pc, cs) \<in> set (m_PCCs d). cs \<noteq> []" using om_find_in[OF ok] f by (auto split: if_splits)
  then have "filterInputEndDetectionInternal h ?d = Inr (?d\<lparr>m_EDHSs := ?E\<rparr>)"
    unfolding filterInputEndDetectionInternal_def using filter_pcs_correct[of ?d "m_PCCs ?d" h] assms(1,4) by simp
  then have r: "isEndChecking minc interval h x d = Inr (x \<in> ?E, ?d\<lparr>m_EDHSs := ?E, m_filtered := True\<rparr>)"
    unfolding isEndChecking_def Let_def p using assms(3) by simp
  have "y \<in> ?E \<longleftrightarrow> is_end_check minc interval h cs y" for y
  proof -
    have "y \<in> ?E \<longleftrightarrow> (\<exists>pc cs'. om_find pc (m_PCCs d) = Some cs' \<and> end_check minc interval cs' \<and> y \<in> h ` set cs')" by (rule filtered_hashes[OF ok])
    also have "\<dots> \<longleftrightarrow> (\<exists>pc. conds_at cs pc \<noteq> [] \<and> end_check minc interval (conds_at cs pc) \<and> y \<in> h ` set (conds_at cs pc))" unfolding f by auto
    also have "\<dots> \<longleftrightarrow> is_end_check minc interval h cs y" unfolding is_end_check_def by (metis empty_iff image_empty list.set(1))
    finally show ?thesis .
  qed
  then have "?E = {x. is_end_check minc interval h cs x}" by blast
  then show ?thesis using that[of "?d\<lparr>m_EDHSs := ?E, m_filtered := True\<rparr>"] r by simp
qed

text \<open>From then on the classification does not change.\<close>

lemma detect_run_filtered:
  "m_filtered d \<Longrightarrow> \<exists>d'. detect_run minc interval h i es d = Inr (map (\<lambda>x. x \<in> m_EDHSs d) (queries es), d')"
proof (induction minc interval h i es d rule: detect_run.induct)
  case (2 minc interval h i pc c es d)
  have "m_filtered (detect_onDisabledFork i pc c d)" "m_EDHSs (detect_onDisabledFork i pc c d) = m_EDHSs d"
    using 2(2) by (simp_all add: detect_onDisabledFork_def updatePCCs_def)
  with 2(1) show ?case by simp
next
  case (3 minc interval h i x es d)
  let ?d = "set_params minc interval d"
  have s: "m_filtered ?d" "m_EDHSs ?d = m_EDHSs d" using 3(2) by (simp_all add: set_params_def Let_def)
  then have q: "isEndChecking minc interval h x d = Inr (x \<in> m_EDHSs d, ?d)" by (simp add: isEndChecking_def Let_def)
  from 3(1)[OF s(1)] obtain d' where "detect_run minc interval h i es ?d = Inr (map (\<lambda>x. x \<in> m_EDHSs d) (queries es), d')"
    unfolding s(2) by blast
  with q show ?case by simp
qed simp

text \<open>
  C38: end-of-input checks. Let conditions be recorded for a new work state, and then let queries be answered and further
  conditions be recorded in any order. No query fails, and every one of them, not only the first, answers whether its hash
  belongs to an end-of-input check among the conditions recorded before the first query: a condition recorded at a
  place with at least \<^verbatim>\<open>MinContinuous\<close> conditions, each of which reads exactly \<^verbatim>\<open>CheckInterval\<close> different input bytes, and
  whose smallest offsets advance by that interval from one condition to the next. Conditions recorded later are not
  classified any more. The offsets found in an operator are those of reads at constant indices; they are all of them if every index is constant.
\<close>

theorem end_checks_correct:
  assumes "0 < interval" "i \<noteq> 0"
  shows "(\<exists>d'. detect_run minc interval h i (map (\<lambda>(pc, c). Recorded pc c) cs @ Queried x # es) InputEndDetectorState =
      Inr (map (is_end_check minc interval h cs) (x # queries es), d')) \<and>
    findInputBytes (Op ks) {} \<subseteq> read_offs (Op ks) \<and> (const_idx (Op ks) \<longrightarrow> findInputBytes (Op ks) {} = read_offs (Op ks))"
proof -
  have "recorded [] InputEndDetectorState" by (simp add: recorded_def InputEndDetectorState_def conds_at_def)
  then obtain d1 where d1: "recorded cs d1" "d1 = InputEndDetectorState\<lparr>m_PCCs := m_PCCs d1\<rparr>"
    "\<And>es. detect_run minc interval h i (map (\<lambda>(pc, c). Recorded pc c) cs @ es) InputEndDetectorState = detect_run minc interval h i es d1"
    using detect_run_records[OF assms(2), of "[]" InputEndDetectorState cs minc interval h] by auto
  have "\<not> m_filtered d1" "m_EDHSs d1 = {}" "m_MinContinuous d1 = 0" "m_CheckInterval d1 = 0"
    by (subst d1(2), simp add: InputEndDetectorState_def)+
  then obtain d2 where d2: "isEndChecking minc interval h x d1 = Inr (is_end_check minc interval h cs x, d2)"
    "m_filtered d2" "m_EDHSs d2 = {x. is_end_check minc interval h cs x}"
    using first_query[OF assms(1) d1(1)] by blast
  have "\<exists>d'. detect_run minc interval h i es d2 = Inr (map (is_end_check minc interval h cs) (queries es), d')"
    using detect_run_filtered[OF d2(2), of minc interval h i es] unfolding d2(3) by simp
  then have "\<exists>d'. detect_run minc interval h i (map (\<lambda>(pc, c). Recorded pc c) cs @ Queried x # es) InputEndDetectorState =
      Inr (map (is_end_check minc interval h cs) (x # queries es), d')"
    unfolding d1(3) using d2(1) by auto
  moreover have "findInputBytes (Op ks) {} \<subseteq> read_offs (Op ks)"
    using collect_kids_bounds[of "{}" ks] by (auto simp: findInputBytes_def)
  moreover have "const_idx (Op ks) \<longrightarrow> findInputBytes (Op ks) {} = read_offs (Op ks)"
    using collect_kids_all[of ks "{}"] by (simp add: findInputBytes_def)
  ultimately show ?thesis by blast
qed

text \<open>Five comparisons of successive bytes with a constant at one place, and a single one elsewhere.\<close>

definition demo_conds :: "(nat \<times> kexpr) list" where
  "demo_conds = map (\<lambda>i. (100, Op [Constant 255, Read (Constant i)])) [10, 11, 12, 13, 14] @ [(200, Op [Constant 1, Read (Constant 40)])]"

theorem end_checks_witness:
  "\<exists>d'. detect_run 5 1 (\<lambda>e. Max (findInputBytes e {})) 3
     (map (\<lambda>(pc, c). Recorded pc c) demo_conds @ [Queried 12, Recorded 100 (Op [Read (Constant 15)]), Queried 40, Queried 14]) InputEndDetectorState
     = Inr ([True, False, True], d')"
proof -
  let ?h = "\<lambda>e. Max (findInputBytes e {})"
  have c: "conds_at demo_conds pc = (if pc = 100 then map (\<lambda>i. Op [Constant 255, Read (Constant i)]) [10, 11, 12, 13, 14]
      else if pc = 200 then [Op [Constant 1, Read (Constant 40)]] else [])" for pc
    by (simp add: conds_at_def demo_conds_def)
  have e: "end_check 5 1 (conds_at demo_conds pc) \<longleftrightarrow> pc = 100" for pc
    unfolding end_check_def c by (auto simp: progression_Cons progression_one findInputBytes_def)
  have "is_end_check 5 1 ?h demo_conds y \<longleftrightarrow> y \<in> {10, 11, 12, 13, 14}" for y
    unfolding is_end_check_def e by (simp add: c findInputBytes_def)
  then show ?thesis
    using end_checks_correct[of 1 3 5 ?h demo_conds 12 "[Recorded 100 (Op [Read (Constant 15)]), Queried 40, Queried 14]"] by simp
qed

end
