(* ===== verification/Fuzzy_S2E.thy ===== *)
theory Fuzzy_S2E
  imports End_Detector
begin

text \<open>
  The emulator side of the fuzzer (\<^verbatim>\<open>FuzzyS2E.cpp\<close>): the coverage map that it updates for every executed block,
  the scheduling of the execution states, the messages to the fuzzer, and the reaction to the guest's
  requests and to faults. Failed assertions and exits are errors; since the emulator may have written to the queue of the fuzzer
  before it dies, such an error comes with the state at that moment.
\<close>

unbundle bit_operations_syntax

section \<open>Coverage\<close>

definition AFL_BITMAP_SIZE :: nat where [simp]: "AFL_BITMAP_SIZE = 65536"

text \<open>
  \<^verbatim>\<open>updateAFLBitmapSHM\<close>: the edge from the previous location to the current one is counted.
\<close>

definition bb_location :: "u32 \<Rightarrow> u32" where
  "bb_location pc = (drop_bit 4 pc XOR push_bit 8 pc) AND word_of_nat (AFL_BITMAP_SIZE - 1)"

definition updateAFLBitmapSHM :: "buf \<Rightarrow> u32 \<Rightarrow> u32 \<Rightarrow> err + bool \<times> buf \<times> u32" where
  "updateAFLBitmapSHM bm prev pc =
     (let cur = bb_location pc in
      if unat cur \<ge> AFL_BITMAP_SIZE then Inr (False, bm, prev)
      else let i = unat (cur XOR prev) in
        if i < length bm then Inr (True, bm[i := bm ! i + 1], drop_bit 1 cur) else Inl OutOfBounds)"


section \<open>State\<close>

text \<open>
  \<open>ready\<close> is the byte of the shared array that belongs to this emulator, \<open>sent\<close> the messages written to the queue
  of the fuzzer, \<open>mainModuleDes\<close> the load address and the size of the target, \<open>ended\<close> the states handed to \<^verbatim>\<open>terminateStateEarly\<close>, and \<open>forks\<close> whether a state may fork.
\<close>

record 'e fuzzy =
  m_needFilter :: bool
  m_killRState :: bool
  m_useDrill :: bool
  m_drillFreq :: nat
  m_DrillFreqCounter :: nat
  m_mainPid :: nat
  m_parsedModInfo :: bool
  m_QEMUPid :: nat
  m_current_conditon :: nat
  m_lastID :: nat
  m_exeTimeout :: nat
  mainModuleDes :: "nat \<times> nat"
  m_aflBitmapSHM :: buf
  m_prev_loc :: "nat \<Rightarrow> u32"
  m_schedule_states :: "nat list"
  m_fault :: "nat \<Rightarrow> nat"
  pc_hits :: "nat \<Rightarrow> nat omap"
  tfilt :: "'e tfilter"
  ready :: bool
  sent :: "buf list"
  ended :: "nat list"
  forks :: "nat \<Rightarrow> bool"

text \<open>The state at the moment of a failure.\<close>

type_synonym 'e failed = "err \<times> 'e fuzzy"

definition failing_in :: "'e fuzzy \<Rightarrow> err + 'a \<Rightarrow> 'e failed + 'a" where
  "failing_in s x = (case x of Inl e \<Rightarrow> Inl (e, s) | Inr y \<Rightarrow> Inr y)"

lemma failing_in_simps [simp]: "failing_in s (Inl e) = Inl (e, s)" "failing_in s (Inr y) = Inr y"
  by (simp_all add: failing_in_def)

lemma failing_in_eq_Inr [simp]: "failing_in s x = Inr y \<longleftrightarrow> x = Inr y"
  by (cases x) simp_all

definition terminate :: "nat \<Rightarrow> 'e fuzzy \<Rightarrow> 'e fuzzy" where
  "terminate i s = s\<lparr>ended := i # ended s\<rparr>"


section \<open>Scheduling\<close>

definition selectState :: "'e fuzzy \<Rightarrow> err + nat" where
  "selectState s =
     (let ss = m_schedule_states s in
      if length ss \<ge> 3 then Inl (Fatal ''States number is weird!'')
      else if length ss = 1 then Inr (ss ! 0)
      else if 1 < length ss then Inr (ss ! 1) else Inl OutOfBounds)"

definition update_states :: "nat list \<Rightarrow> nat list \<Rightarrow> 'e fuzzy \<Rightarrow> 'e fuzzy" where
  "update_states added removed s = s\<lparr>m_schedule_states := fold remove1 removed (m_schedule_states s @ added)\<rparr>"

definition RemoveUnscheduleState :: "nat \<Rightarrow> 'e fuzzy \<Rightarrow> err + 'e fuzzy" where
  "RemoveUnscheduleState i s =
     (if m_schedule_states s = [] then Inl (Fatal ''Scheduled states collector is empty!'')
      else if i \<notin> set (m_schedule_states s) then Inl (Fatal ''invalid state removed'')
      else Inr (s\<lparr>m_schedule_states := remove1 i (m_schedule_states s)\<rparr>))"


section \<open>Messages\<close>

definition FIFOBUFFERSIZE :: nat where [simp]: "FIFOBUFFERSIZE = 512"

abbreviation (input) "FAULT_NONE_C \<equiv> (0 :: nat)"
abbreviation (input) "FAULT_CRASH_C \<equiv> (2 :: nat)"
abbreviation (input) "FAULT_REDUNDANT_C \<equiv> (6 :: nat)"

text \<open>The buffer is cleared, and \<^verbatim>\<open>"%d|%d|%lu"\<close> is printed into it.\<close>

definition message :: "nat \<Rightarrow> nat \<Rightarrow> nat \<Rightarrow> buf" where
  "message pid flt time =
     (let t = dec pid @ [124] @ dec flt @ [124] @ dec time in t @ replicate (FIFOBUFFERSIZE - length t) 0)"

definition report_redundant :: "'e fuzzy \<Rightarrow> 'e fuzzy" where
  "report_redundant s = s\<lparr>sent := sent s @ [message (m_QEMUPid s) FAULT_REDUNDANT_C 0], ready := True\<rparr>"

text \<open>\<open>time\<close> is what the state's timer shows. The message is written before anything is checked.\<close>

definition tell_afl :: "'e symex \<Rightarrow> nat \<Rightarrow> nat \<Rightarrow> bool \<Rightarrow> 'e fuzzy \<Rightarrow> 'e failed + 'e fuzzy" where
  "tell_afl P time i reserveState s =
     (let s = s\<lparr>sent := sent s @ [message (m_QEMUPid s) (m_fault s i) time]\<rparr> in
      err_bind
        (if m_needFilter s then
           err_bind (failing_in s (RemoveUnscheduleState i s)) (\<lambda>s.
             if length (m_sigID_States (tfilt s)) < m_hottestNum (tfilt s) \<and> reserveState
             then (case addSigState P i (tfilt s) of (merged, f) \<Rightarrow> Inr (merged, s\<lparr>tfilt := f\<rparr>))
             else Inr (False, s))
         else Inr (False, s))
        (\<lambda>(merged, s).
          let s = s\<lparr>m_lastID := i\<rparr> in
          if ready s then Inl (Fatal ''free before'', s)
          else let s = s\<lparr>ready := True\<rparr> in Inr (if merged then terminate i s else s)))"


section \<open>Events of the guest\<close>

definition crash :: "'e symex \<Rightarrow> nat \<Rightarrow> nat \<Rightarrow> 'e fuzzy \<Rightarrow> 'e failed + 'e fuzzy" where
  "crash P time i s =
     err_bind (tell_afl P time i True (s\<lparr>m_fault := (m_fault s)(i := FAULT_CRASH_C)\<rparr>)) (\<lambda>s.
       Inr (if m_needFilter s then s else terminate i s))"

definition onSegmentFault :: "'e symex \<Rightarrow> nat \<Rightarrow> nat \<Rightarrow> nat \<Rightarrow> 'e fuzzy \<Rightarrow> 'e failed + 'e fuzzy" where
  "onSegmentFault P time i pid s = (if pid \<noteq> m_mainPid s then Inr s else crash P time i s)"

definition onDividebyZero :: "'e symex \<Rightarrow> nat \<Rightarrow> nat \<Rightarrow> nat \<Rightarrow> 'e fuzzy \<Rightarrow> 'e failed + 'e fuzzy" where
  "onDividebyZero P time i pid s = (if pid \<noteq> m_mainPid s then Inr s else crash P time i s)"

definition onProcessUnload :: "'e symex \<Rightarrow> nat \<Rightarrow> nat \<Rightarrow> nat \<Rightarrow> 'e fuzzy \<Rightarrow> 'e failed + 'e fuzzy" where
  "onProcessUnload P time i pid s =
     (if pid \<noteq> m_mainPid s then Inr s
      else err_bind (tell_afl P time i True s) (\<lambda>s.
        Inr (if \<not> m_needFilter s then terminate i s
             else if length (m_sigID_States (tfilt s)) \<ge> m_hottestNum (tfilt s) then terminate i s else s)))"

definition onWorkStateTimeout :: "'e symex \<Rightarrow> nat \<Rightarrow> nat \<Rightarrow> 'e fuzzy \<Rightarrow> 'e failed + 'e fuzzy" where
  "onWorkStateTimeout P time i s =
     err_bind (tell_afl P time i False (s\<lparr>m_fault := (m_fault s)(i := FAULT_NONE_C)\<rparr>)) (\<lambda>s.
       Inr (terminate i (if m_needFilter s then s\<lparr>tfilt := cleanup i (tfilt s)\<rparr> else s)))"

text \<open>A block of the target starts; \<open>inkernel\<close> tells whether its address belongs to the kernel.\<close>

definition isMainModule :: "nat \<Rightarrow> 'e fuzzy \<Rightarrow> bool" where
  "isMainModule pc s = (case mainModuleDes s of (base, sz) \<Rightarrow> base \<le> pc \<and> pc \<le> (base + sz) mod 2 ^ 64)"

definition onStateForkDecide :: "nat \<Rightarrow> nat \<Rightarrow> 'e fuzzy \<Rightarrow> bool" where
  "onStateForkDecide i pc s = (i = 0 \<or> isMainModule pc s)"

definition slotExecuteBlockStart :: "'e symex \<Rightarrow> bool \<Rightarrow> nat \<Rightarrow> nat \<Rightarrow> nat \<Rightarrow> 'e fuzzy \<Rightarrow> 'e failed + 'e fuzzy" where
  "slotExecuteBlockStart P inkernel time i pc s =
     (if i = 0 \<or> inkernel \<or> \<not> isMainModule pc s then Inr s
      else err_bind (failing_in s (updateAFLBitmapSHM (m_aflBitmapSHM s) (m_prev_loc s i) (word_of_nat pc))) (\<lambda>(b, bm, prev).
        let s = s\<lparr>m_aflBitmapSHM := bm, m_prev_loc := (m_prev_loc s)(i := prev)\<rparr>
        in if m_exeTimeout s < time then onWorkStateTimeout P time i s else Inr s))"

text \<open>The guest names the process of the target, and a module that it loaded.\<close>

definition target_pid :: "nat \<Rightarrow> 'e fuzzy \<Rightarrow> err + 'e fuzzy" where
  "target_pid eax s =
     (if m_mainPid s \<noteq> 0 then Inr s else if eax = 0 then Inl (Fatal ''m_mainPid'') else Inr (s\<lparr>m_mainPid := eax\<rparr>))"

definition handleModuleLoad :: "string \<Rightarrow> string \<Rightarrow> nat \<Rightarrow> nat \<Rightarrow> 'e fuzzy \<Rightarrow> 'e fuzzy" where
  "handleModuleLoad mainModule name base sz s =
     (if mainModule = name
      then s\<lparr>mainModuleDes := (base, sz), tfilt := (if m_needFilter s then setMainImage base sz (tfilt s) else tfilt s),
        m_parsedModInfo := True\<rparr>
      else s)"

text \<open>
  \<^verbatim>\<open>wait_afl_testcase\<close>: each message of the control pipe comes with the test case then in the file and the
  value of \<^verbatim>\<open>rand()\<close>; redundant test cases are reported at once. Without a further message the emulator blocks.
  The call of \<^verbatim>\<open>simpSigStates\<close>, whose body is empty, is left out.
\<close>

type_synonym order = "buf \<times> (nat \<times> buf) option \<times> nat"

definition count_drill :: "buf \<Rightarrow> 'e fuzzy \<Rightarrow> err + 'e fuzzy" where
  "count_drill tmp s =
     (if m_useDrill s \<and> m_ModeSwitched (tfilt s) then
        if hd tmp = 110 then
          (if m_DrillFreqCounter s = 0 then Inl (Fatal ''Cannot reach zero!!!'')
           else Inr (s\<lparr>m_DrillFreqCounter := m_DrillFreqCounter s - 1\<rparr>))
        else if hd tmp = 112 then Inr (s\<lparr>m_DrillFreqCounter := m_drillFreq s\<rparr>)
        else Inr s
      else Inr s)"

fun wait_afl_testcase :: "'e symex \<Rightarrow> order list \<Rightarrow> 'e fuzzy \<Rightarrow> 'e failed + bool \<times> order list \<times> 'e fuzzy" where
  "wait_afl_testcase P [] s = Inr (False, [], s)"
| "wait_afl_testcase P ((tmp, fl, rand) # os) s =
     (if length tmp \<noteq> 4 then Inl (Fatal ''we cannot read pipe'', s)
      else if \<not> m_needFilter s then Inr (True, os, s)
      else err_bind (failing_in s (count_drill tmp s)) (\<lambda>s.
        err_bind (failing_in s (isRedundant P fl rand (tfilt s))) (\<lambda>(redundant, symbex, f).
          let s = s\<lparr>tfilt := f\<rparr> in
          if redundant then wait_afl_testcase P os (report_redundant s) else Inr (True, os, s))))"

text \<open>\<^verbatim>\<open>fork_work_state\<close>: the seed state keeps its setting, the new state \<open>j\<close> forks only in drill mode.\<close>

definition fork_work_state :: "nat \<Rightarrow> nat \<Rightarrow> 'e fuzzy \<Rightarrow> err + 'e fuzzy" where
  "fork_work_state i j s =
     (if i \<noteq> 0 then Inl (Fatal ''Should come from initial state!'')
      else Inr (s\<lparr>forks := (forks s)(j := m_needFilter s \<and> m_useDrill s \<and> m_ModeSwitched (tfilt s) \<and> m_DrillFreqCounter s = 0),
        m_current_conditon := (m_current_conditon s + 1) mod 2 ^ 64\<rparr>))"

text \<open>Whether the guest should make its input symbolic; the value is left in a register.\<close>

definition need_symbex :: "nat \<Rightarrow> 'e fuzzy \<Rightarrow> bool \<times> 'e fuzzy" where
  "need_symbex i s =
     (let max = m_hottestNum (tfilt s);
          (need, s) =
            (if \<not> m_needFilter s then (False, s)
             else
               let need = (length (m_sigID_States (tfilt s)) < (max + (2 ^ 32 - 1)) mod 2 ^ 32);
                   s = (if \<not> need then s\<lparr>tfilt := (tfilt s)\<lparr>m_ModeSwitched := True\<rparr>\<rparr> else s)
               in if m_useDrill s \<and> m_ModeSwitched (tfilt s) \<and> m_DrillFreqCounter s = 0
                  then (True, s\<lparr>m_DrillFreqCounter := m_drillFreq s\<rparr>) else (need, s))
      in (need, if m_schedule_states s = [] \<and> i = 0 then s\<lparr>m_schedule_states := [i]\<rparr> else s))"

text \<open>\<^verbatim>\<open>onStateFork\<close>: the forked states only serve to generate test cases. \<open>gen\<close> tells whether the solver finds an input.\<close>

fun drill_states :: "'e symex \<Rightarrow> nat \<Rightarrow> nat \<Rightarrow> nat list \<Rightarrow> 'e fuzzy \<Rightarrow> nat list \<Rightarrow> err + nat list \<times> 'e fuzzy" where
  "drill_states P i hc [] s gen = Inr (gen, s)"
| "drill_states P i hc (j # js) s gen =
     (if j = i then drill_states P i hc js s gen
      else err_bind (checkRedundantFast P j hc (tfilt s)) (\<lambda>(redundant, f).
        drill_states P i hc js (terminate j (s\<lparr>tfilt := f\<rparr>)) (if redundant then gen else gen @ [j])))"

definition onStateFork :: "'e symex \<Rightarrow> nat \<Rightarrow> nat list \<Rightarrow> 'e fuzzy \<Rightarrow> err + nat list \<times> 'e fuzzy" where
  "onStateFork P i js s =
     (if i = 0 then Inr ([], s)
      else
        let pc = getPc (objs (tfilt s) i);
            hc = (case om_find pc (pc_hits s i) of None \<Rightarrow> 1 | Some n \<Rightarrow> (n + 1) mod 2 ^ 64);
            s = s\<lparr>pc_hits := (pc_hits s)(i := om_set pc hc (pc_hits s i))\<rparr>
        in drill_states P i hc js s [])"

end
