(* ===== verification/Qemu_Pool.thy ===== *)
theory Qemu_Pool
  imports Fuzzy_S2E Fuzz_One Hash
begin

text \<open>
  The fuzzer side of the parallel emulators (\<^verbatim>\<open>afl-parrel-qemu.h\<close> and the code under \<^verbatim>\<open>CONFIG_S2E\<close> in
  \<^verbatim>\<open>afl-fuzz.c\<close>): choosing a free emulator for the next test case, starting it, and analysing the
  results of finished runs. The emulators are a list; \<^verbatim>\<open>curQemu\<close> is an index into it.
\<close>

section \<open>State\<close>

record qemu =
  q_pid :: nat
  q_trace :: buf
  start_us :: nat
  stop_us :: nat
  q_out_file :: "buf option"
  handled :: bool
  q_cur_queue :: "nat option"
  q_cur_stage :: stage
  q_fault :: nat
  mod_off :: int
  cover_new :: nat
  q_testcase :: "buf option"

text \<open>The three virgin maps, which also name the directories of saved test cases.\<close>

datatype vmap = VBits | VHang | VCrash

record results =
  virgin :: "vmap \<Rightarrow> buf"
  trace_bits :: buf
  rqueue :: qstate
  rcal :: cal_stats
  created :: "((vmap \<times> nat \<times> string) \<times> buf) list"
  total_crashes :: nat
  total_hangs :: nat
  unique_crashes :: nat
  unique_hangs :: nat
  queued_with_cov :: nat
  queued_discovered :: nat
  total_execs :: nat
  g_eff_map :: buf
  g_eff_cnt :: nat

text \<open>Settings and the values of other globals: \<open>describe\<close> is \<^verbatim>\<open>describe_op\<close>, \<open>now\<close> the time.\<close>

record ropts =
  r_crash_mode :: nat
  r_dumb_mode :: bool
  r_sync_id :: bool
  r_queue_cycle :: nat
  r_describe :: "nat \<Rightarrow> string"
  r_now :: nat
  r_lookup16 :: "u16 \<Rightarrow> u16"

record pool =
  qemus :: "qemu list"
  curQemu :: "nat option"
  isAfterWait :: bool
  currentQemuAfterWait :: nat
  fifo :: "buf list"
  ReadArray :: "nat \<Rightarrow> bool"
  ctrl_pipe :: "nat \<Rightarrow> buf list"
  res :: results

definition upd_qemu :: "nat \<Rightarrow> (qemu \<Rightarrow> qemu) \<Rightarrow> pool \<Rightarrow> pool" where
  "upd_qemu k f p = p\<lparr>qemus := (qemus p)[k := f (qemus p ! k)]\<rparr>"

text \<open>\<^verbatim>\<open>INIT_QEMU\<close>\<close>

definition INIT_QEMU :: "nat \<Rightarrow> qemu" where
  "INIT_QEMU pid = \<lparr>q_pid = pid, q_trace = replicate MAP_SIZE 0, start_us = 0, stop_us = 0, q_out_file = None, handled = True,
     q_cur_queue = None, q_cur_stage = STAGE_SYNC, q_fault = 0, mod_off = -1, cover_new = 1, q_testcase = None\<rparr>"


section \<open>Analysing a result\<close>

text \<open>\<^verbatim>\<open>has_new_bits\<close> in this build always looks at the trace of \<^verbatim>\<open>curQemu\<close>.\<close>

definition new_bits :: "vmap \<Rightarrow> pool \<Rightarrow> err + nat \<times> pool" where
  "new_bits v p =
     (case curQemu p of
        None \<Rightarrow> Inl NullDeref
      | Some c \<Rightarrow> (case has_new_bits (q_trace (qemus p ! c)) (virgin (res p) v) of
          (ret, vm) \<Rightarrow> Inr (ret, p\<lparr>res := (res p)\<lparr>virgin := (virgin (res p))(v := vm)\<rparr>\<rparr>)))"

definition create_file :: "vmap \<Rightarrow> nat \<Rightarrow> string \<Rightarrow> buf \<Rightarrow> pool \<Rightarrow> err + pool" where
  "create_file d n name dat p =
     (if (d, n, name) \<in> fst ` set (created (res p)) then Inl (Fatal ''Unable to create'')
      else Inr (p\<lparr>res := (res p)\<lparr>created := ((d, n, name), dat) # created (res p)\<rparr>\<rparr>))"

text \<open>The entry that gets the measurements of a run with new bits, and the measurements.\<close>

definition measure_entry :: "ropts \<Rightarrow> nat \<Rightarrow> qemu \<Rightarrow> results \<Rightarrow> results" where
  "measure_entry R q x r =
     (let us = (stop_us x + (2 ^ 64 - start_us x mod 2 ^ 64)) mod 2 ^ 64; bs = unat (count_bytes (q_trace x));
          qs = upd_entry q (\<lambda>e. e\<lparr>exec_us := us, bitmap_size := bs,
                 handicap := (if q_cur_stage x = STAGE_CALIBRATE then 0 else (r_queue_cycle R + (2 ^ 64 - 1)) mod 2 ^ 64), cal_failed := 0,
                 exec_cksum := hash32 (q_trace x) (word_of_nat MAP_SIZE) HASH_CONST\<rparr>) (rqueue r);
          c = rcal r
      in r\<lparr>rcal := \<lparr>total_cal_us = total_cal_us c + us, total_cal_cycles = total_cal_cycles c + 1,
             total_bitmap_size = total_bitmap_size c + bs, total_bitmap_entries = total_bitmap_entries c + 1\<rparr>,
           rqueue := update_bitmap_score (trace_bits r) q qs\<rparr>)"

text \<open>A new entry, except at calibration, and the mark for new tuples.\<close>

definition enqueue :: "ropts \<Rightarrow> nat \<Rightarrow> bool \<Rightarrow> buf \<Rightarrow> results \<Rightarrow> results" where
  "enqueue R hnb iscal dat r =
     (if iscal then r else r\<lparr>rqueue := add_to_queue (r_describe R hnb) (length dat) False (r_now R) (rqueue r)\<rparr>)"

definition mark_cov :: "nat \<Rightarrow> results \<Rightarrow> err + results" where
  "mark_cov hnb r =
     (if hnb \<noteq> 2 then Inr r
      else case queue_top (rqueue r) of
        None \<Rightarrow> Inl NullDeref
      | Some t \<Rightarrow> Inr (r\<lparr>rqueue := upd_entry t (\<lambda>e. e\<lparr>has_new_cov := True\<rparr>) (rqueue r), queued_with_cov := queued_with_cov r + 1\<rparr>))"

text \<open>A run that ended as expected: \<open>False\<close> when it brought nothing new.\<close>

definition queue_result :: "ropts \<Rightarrow> nat \<Rightarrow> buf \<Rightarrow> pool \<Rightarrow> err + bool \<times> pool" where
  "queue_result R k dat p =
     err_bind (new_bits VBits p) (\<lambda>(hnb, p).
       if hnb = 0 then
         let p = (if r_crash_mode R \<noteq> 0 then p\<lparr>res := (res p)\<lparr>total_crashes := total_crashes (res p) + 1\<rparr>\<rparr> else p)
         in Inr (False, upd_qemu k (\<lambda>x. x\<lparr>cover_new := 0\<rparr>) p)
       else
         let n = queued_paths (rqueue (res p)); p = upd_qemu k (\<lambda>x. x\<lparr>cover_new := 1\<rparr>) p; x = qemus p ! k;
             iscal = (q_cur_stage x = STAGE_CALIBRATE)
         in err_bind (mark_cov hnb (enqueue R hnb iscal dat (res p))) (\<lambda>r.
              case (if iscal then q_cur_queue x else queue_top (rqueue r)) of
                None \<Rightarrow> Inl (Fatal ''current queue should be set for calibration'')
              | Some q \<Rightarrow> err_bind (create_file VBits n (r_describe R hnb) dat (p\<lparr>res := measure_entry R q x r\<rparr>)) (\<lambda>p. Inr (True, p))))"

text \<open>A hang or a crash: kept if its simplified trace is new, up to a limit.\<close>

definition fault_result :: "ropts \<Rightarrow> vmap \<Rightarrow> nat \<Rightarrow> nat \<Rightarrow> buf \<Rightarrow> pool \<Rightarrow> err + pool" where
  "fault_result R v unique limit dat p =
     (if unique \<ge> limit then Inr p
      else err_bind
        (if r_dumb_mode R then Inr (1, p)
         else case curQemu p of
            None \<Rightarrow> Inl NullDeref
          | Some c \<Rightarrow> new_bits v (upd_qemu c (\<lambda>x. x\<lparr>q_trace := simplify_trace (q_trace x)\<rparr>) p))
        (\<lambda>(ret, p).
          if ret = 0 then Inr p
          else create_file v unique (r_describe R 0) dat
            (p\<lparr>res := (if v = VHang then (res p)\<lparr>unique_hangs := unique + 1\<rparr> else (res p)\<lparr>unique_crashes := unique + 1\<rparr>)\<rparr>)))"

definition save_if_interesting :: "ropts \<Rightarrow> nat \<Rightarrow> buf \<Rightarrow> nat \<Rightarrow> pool \<Rightarrow> err + bool \<times> pool" where
  "save_if_interesting R k dat flt p =
     (if q_fault (qemus p ! k) = FAULT_REDUNDANT_C then Inr (False, upd_qemu k (\<lambda>x. x\<lparr>cover_new := 2\<rparr>) p)
      else err_bind (if flt = r_crash_mode R then queue_result R k dat p else Inr (True, p)) (\<lambda>(new, p).
        if flt = r_crash_mode R \<and> \<not> new then Inr (False, p)
        else
          let keeping = (flt = r_crash_mode R) in
          if flt = 1 then
            err_bind (fault_result R VHang (unique_hangs (res p)) KEEP_UNIQUE_HANG dat
              (p\<lparr>res := (res p)\<lparr>total_hangs := total_hangs (res p) + 1\<rparr>\<rparr>)) (\<lambda>p. Inr (keeping, p))
          else if flt = FAULT_CRASH_C then
            err_bind (fault_result R VCrash (unique_crashes (res p)) KEEP_UNIQUE_CRASH dat
              (p\<lparr>res := (res p)\<lparr>total_crashes := total_crashes (res p) + 1\<rparr>\<rparr>)) (\<lambda>p. Inr (keeping, p))
          else if flt = 3 then Inl (Fatal ''Unable to execute target application'')
          else Inr (keeping, p)))"

text \<open>The input of a run, or nothing if none was written (a null pointer with length zero).\<close>

definition check_qemu_tracebits :: "ropts \<Rightarrow> nat \<Rightarrow> pool \<Rightarrow> err + pool" where
  "check_qemu_tracebits R k p =
     (let p = upd_qemu k (\<lambda>x. x\<lparr>q_trace := classify_counts (r_lookup16 R) (q_trace x)\<rparr>) p; x = qemus p ! k;
          dat = (case q_out_file x of Some m \<Rightarrow> m | None \<Rightarrow> [])
      in err_bind (save_if_interesting R k dat (q_fault x) p) (\<lambda>(kept, p).
           Inr (upd_qemu k (\<lambda>x. x\<lparr>q_out_file := None, q_cur_queue := None\<rparr>)
             (if kept then p\<lparr>res := (res p)\<lparr>queued_discovered := queued_discovered (res p) + 1\<rparr>\<rparr> else p))))"

definition do_extra_handles :: "ropts \<Rightarrow> nat \<Rightarrow> pool \<Rightarrow> err + pool" where
  "do_extra_handles R k p =
     (let x = qemus p ! k; r = res p in
      if q_cur_stage x = STAGE_SYNC \<and> \<not> r_sync_id R then Inl (Fatal ''Do not try initial stage in single fuzzer mode.'')
      else if q_cur_stage x = STAGE_FLIP8 \<and> cover_new x = 1 \<and> mod_off x \<noteq> -1 then
        let i = EFF_APOS (nat (mod_off x)) in
        if length (g_eff_map r) \<le> i then Inl OutOfBounds
        else if g_eff_map r ! i = 0 then
          Inr (upd_qemu k (\<lambda>x. x\<lparr>mod_off := -1\<rparr>) (p\<lparr>res := r\<lparr>g_eff_map := (g_eff_map r)[i := 1], g_eff_cnt := g_eff_cnt r + 1\<rparr>\<rparr>))
        else Inr p
      else Inr p)"

definition handle_onetestdone :: "ropts \<Rightarrow> nat \<Rightarrow> pool \<Rightarrow> err + pool" where
  "handle_onetestdone R k p =
     err_bind (check_qemu_tracebits R k p) (\<lambda>p. err_bind (do_extra_handles R k p) (\<lambda>p.
       let p = upd_qemu k (\<lambda>x. x\<lparr>q_cur_queue := None, handled := True\<rparr>) p in
       Inr (p\<lparr>res := (res p)\<lparr>total_execs := total_execs (res p) + 1\<rparr>\<rparr>)))"


section \<open>Dispatching\<close>

text \<open>\<^verbatim>\<open>GETQUEUEITEM\<close>: a missing second or third field would be passed to \<^verbatim>\<open>atoi\<close> as a null pointer.\<close>

definition GETQUEUEITEM :: "buf \<Rightarrow> err + nat \<times> nat \<times> nat" where
  "GETQUEUEITEM buffer =
     (case strtok 124 (cstr buffer) of
        None \<Rightarrow> Inr (0, 0, 0)
      | Some (t1, r1) \<Rightarrow>
          (case strtok 124 r1 of
             None \<Rightarrow> Inl NullDeref
           | Some (t2, r2) \<Rightarrow>
               (case strtok 124 r2 of
                  None \<Rightarrow> Inl NullDeref
                | Some (t3, r3) \<Rightarrow> Inr (unat (atoi t1), unat (atoi t2) mod 256, unat (atol t3)))))"

text \<open>The first message with a process ID that is not zero; \<open>None\<close> while the queue has none.\<close>

fun next_item :: "buf list \<Rightarrow> err + ((nat \<times> nat \<times> nat) \<times> buf list) option" where
  "next_item [] = Inr None"
| "next_item (m # ms) =
     err_bind (GETQUEUEITEM m) (\<lambda>(pid, flt, us). if pid = 0 then next_item ms else Inr (Some ((pid, flt, us), ms)))"

text \<open>The first emulator with a given process ID.\<close>

fun find_pid :: "nat \<Rightarrow> qemu list \<Rightarrow> nat option" where
  "find_pid pid [] = None"
| "find_pid pid (x # xs) = (if q_pid x = pid then Some 0 else map_option Suc (find_pid pid xs))"

text \<open>
  The choice of an emulator in \<^verbatim>\<open>write_to_testcase\<close>, with the fault of its last run. \<open>None\<close> stands for
  waiting: for a message, or for the flag of the emulator that sent it.
\<close>

definition choose_qemu :: "pool \<Rightarrow> err + (nat \<times> nat \<times> pool) option" where
  "choose_qemu p =
     (if isAfterWait p then
        let k = currentQemuAfterWait p; n = (k + 1) mod 256;
            p = p\<lparr>curQemu := Some k, currentQemuAfterWait := n\<rparr>
        in if length (qemus p) \<le> k then Inl OutOfBounds
           else Inr (Some (k, 0, if n = length (qemus p) then p\<lparr>isAfterWait := False, currentQemuAfterWait := 0\<rparr> else p))
      else err_bind (next_item (fifo p)) (\<lambda>item.
        case item of
          None \<Rightarrow> Inr None
        | Some ((pid, flt, us), ms) \<Rightarrow>
            (case find_pid pid (qemus p) of
               None \<Rightarrow> Inl (if curQemu p = None then NullDeref else Fatal ''Cannot find the target qemu, quitting.'')
             | Some k \<Rightarrow>
                 let x = qemus p ! k;
                     p = upd_qemu k (\<lambda>x. if start_us x \<noteq> 0 then x\<lparr>stop_us := start_us x + us\<rparr> else x) (p\<lparr>fifo := ms, curQemu := Some k\<rparr>)
                 in if ReadArray p (q_pid x) then Inr (Some (k, flt, p)) else Inr None)))"

definition write_to_testcase :: "ropts \<Rightarrow> buf \<Rightarrow> nat option \<Rightarrow> stage \<Rightarrow> nat \<Rightarrow> pool \<Rightarrow> err + (nat \<times> pool) option" where
  "write_to_testcase R dat cur stg off p =
     err_bind (choose_qemu p) (\<lambda>ch.
       case ch of
         None \<Rightarrow> Inr None
       | Some (k, flt, p) \<Rightarrow>
           let p = upd_qemu k (\<lambda>x. x\<lparr>q_cur_queue := cur, q_cur_stage := stg, q_fault := flt\<rparr>) p; x = qemus p ! k in
           err_bind (if start_us x \<noteq> 0 \<and> \<not> handled x then handle_onetestdone R k p else Inr p) (\<lambda>p.
             Inr (Some (k, upd_qemu k (\<lambda>x. x\<lparr>mod_off := (if stg = STAGE_FLIP8 then sint (word_of_nat off :: u32) else mod_off x),
               q_testcase := Some dat, q_out_file := Some dat\<rparr>) p))))"

text \<open>\<^verbatim>\<open>run_target\<close>: what is known of the last run is sent along (\<^verbatim>\<open>none\<close>, \<^verbatim>\<open>play\<close> or \<^verbatim>\<open>redu\<close>).\<close>

definition signal :: "nat \<Rightarrow> buf option" where
  "signal c = (if c = 0 then Some [110, 111, 110, 101] else if c = 1 then Some [112, 108, 97, 121]
     else if c = 2 then Some [114, 101, 100, 117] else None)"

definition run_target :: "nat \<Rightarrow> pool \<Rightarrow> err + pool" where
  "run_target now p =
     (case curQemu p of
        None \<Rightarrow> Inl NullDeref
      | Some k \<Rightarrow>
          let x = qemus p ! k in
          case signal (cover_new x) of
            None \<Rightarrow> Inl (Fatal ''Unknown cover_new flag'')
          | Some tmp \<Rightarrow>
              Inr (upd_qemu k (\<lambda>x. x\<lparr>q_trace := replicate (length (q_trace x)) 0, start_us := now, handled := False\<rparr>)
                (p\<lparr>ReadArray := (ReadArray p)(q_pid x := False), ctrl_pipe := (ctrl_pipe p)(q_pid x := ctrl_pipe p (q_pid x) @ [tmp])\<rparr>)))"


section \<open>Waiting for all emulators\<close>

fun find_unhandled :: "nat \<Rightarrow> qemu list \<Rightarrow> nat option" where
  "find_unhandled pid [] = None"
| "find_unhandled pid (x # xs) = (if q_pid x = pid \<and> \<not> handled x then Some 0 else map_option Suc (find_unhandled pid xs))"

definition process_item :: "ropts \<Rightarrow> buf \<Rightarrow> pool \<Rightarrow> err + pool" where
  "process_item R m p =
     err_bind (GETQUEUEITEM m) (\<lambda>(pid, flt, us).
       case find_unhandled pid (qemus p) of
         None \<Rightarrow> Inr p
       | Some k \<Rightarrow>
           if q_out_file (qemus p ! k) = None then Inr p
           else handle_onetestdone R k (upd_qemu k (\<lambda>x. x\<lparr>stop_us := start_us x + us, q_fault := flt\<rparr>) p))"

fun process_items :: "ropts \<Rightarrow> buf list \<Rightarrow> pool \<Rightarrow> err + pool" where
  "process_items R [] p = Inr p"
| "process_items R (m # ms) p = err_bind (process_item R m p) (process_items R ms)"

definition process_unhandled_qemus :: "ropts \<Rightarrow> pool \<Rightarrow> err + pool" where
  "process_unhandled_qemus R p = process_items R (fifo p) (p\<lparr>fifo := []\<rparr>)"

text \<open>\<^verbatim>\<open>WAIT_ALLQEMUS_FREE\<close>: \<open>None\<close> while some emulator is not free.\<close>

definition WAIT_ALLQEMUS_FREE :: "ropts \<Rightarrow> pool \<Rightarrow> err + pool option" where
  "WAIT_ALLQEMUS_FREE R p =
     (if list_all (\<lambda>x. ReadArray p (q_pid x)) (qemus p)
      then err_bind (process_unhandled_qemus R p) (\<lambda>p. Inr (Some (p\<lparr>isAfterWait := True, currentQemuAfterWait := 0\<rparr>)))
      else Inr None)"

end
