(* ===== verification/Fuzzy_Props.thy ===== *)
theory Fuzzy_Props
  imports Qemu_Pool Filter_Props
begin

text \<open>
  Properties of the emulator controller: the coverage map counts the executed edges, the messages are read back by the
  fuzzer as they were sent, a report is written before it is checked and a second one aborts the emulator, and the rounds
  that drill are those that complete a series without new coverage.
\<close>

text \<open>An example: the seed state and a work state are scheduled, the filter and the drill mode are on.\<close>

definition demo_s :: "nat fuzzy" where
  "demo_s = \<lparr>m_needFilter = True, m_killRState = False, m_useDrill = True, m_drillFreq = 3, m_DrillFreqCounter = 3, m_mainPid = 7,
     m_parsedModInfo = True, m_QEMUPid = 42, m_current_conditon = 1, m_lastID = 0, m_exeTimeout = 1000, mainModuleDes = (0, 4096),
     m_aflBitmapSHM = replicate AFL_BITMAP_SIZE 0, m_prev_loc = (\<lambda>_. 0), m_schedule_states = [0, 1], m_fault = (\<lambda>_. 0),
     pc_hits = (\<lambda>_. []), tfilt = demo_f\<lparr>m_ModeSwitched := True\<rparr>, ready = False, sent = [], ended = [], forks = (\<lambda>_. False)\<rparr>"


section \<open>Coverage\<close>











text \<open>The blocks that count: those of the target outside of the kernel. A block comes with what the timer shows then.\<close>

type_synonym block = "bool \<times> nat \<times> nat"

definition target_blocks :: "'e fuzzy \<Rightarrow> block list \<Rightarrow> nat list" where
  "target_blocks s bs = map (\<lambda>(inkernel, time, pc). pc) (filter (\<lambda>(inkernel, time, pc). \<not> inkernel \<and> isMainModule pc s) bs)"




lemma isMainModule_upd [simp]: "isMainModule pc (s\<lparr>m_aflBitmapSHM := bm, m_prev_loc := pl\<rparr>) = isMainModule pc s"
  by (simp add: isMainModule_def)

lemma target_blocks_upd [simp]: "target_blocks (s\<lparr>m_aflBitmapSHM := bm, m_prev_loc := pl\<rparr>) bs = target_blocks s bs"
  by (simp add: target_blocks_def)








section \<open>Messages\<close>

lemma cstr_pad: "0 \<notin> set t \<Longrightarrow> cstr (t @ replicate n 0) = t"
  by (induction t) (auto simp: cstr_def takeWhile_replicate)

lemma length_dec: "n < 10 ^ k \<Longrightarrow> 0 < k \<Longrightarrow> length (dec n) \<le> k"
proof (induction n arbitrary: k rule: dec.induct)
  case (1 n)
  show ?case
  proof (cases "n < 10")
    case True
    then show ?thesis using 1(3) by (subst dec.simps) simp
  next
    case False
    then obtain j where j: "k = Suc j" "0 < j" using 1(2,3) by (cases k; cases "k - 1") auto
    then have "n div 10 < 10 ^ j" using 1(2) by (simp add: div_less_iff_less_mult mult.commute)
    with 1(1)[OF False this j(2)] False j(1) show ?thesis by (subst dec.simps) simp
  qed
qed

lemma GETQUEUEITEM_message:
  assumes "pid < 2 ^ 31" "flt < 256" "us < 2 ^ 63"
  shows "GETQUEUEITEM (message pid flt us) = Inr (pid, flt, us)"
proof -
  let ?t = "dec pid @ [124] @ dec flt @ [124] @ dec us"
  have "0 \<notin> set ?t" using dec_digits[of pid] dec_digits[of flt] dec_digits[of us] by auto
  then have "cstr (message pid flt us) = ?t" unfolding message_def Let_def by (rule cstr_pad)
  then show ?thesis
    using assms atoi_dec[of pid "[]"] atoi_dec[of flt "[]"] atol_dec[of us "[]"] strtok_dec[of pid] strtok_dec[of flt] strtok_dec_end[of us]
    by (simp add: GETQUEUEITEM_def)
qed

text \<open>
  C39: what the emulator sends is what the fuzzer reads. A message has the fixed size of an item of the queue, and
  parsing it with \<^verbatim>\<open>GETQUEUEITEM\<close> gives back the process ID, the fault and the time.
\<close>

theorem message_roundtrip:
  assumes "pid < 2 ^ 31" "flt < 256" "us < 2 ^ 63"
  shows "length (message pid flt us) = FIFOBUFFERSIZE
    \<and> GETQUEUEITEM (message pid flt us) = Inr (pid, flt, us)"
proof -
  have "length (dec pid) \<le> 20" "length (dec flt) \<le> 20" "length (dec us) \<le> 20"
    using assms by (simp_all add: length_dec)
  then show ?thesis using GETQUEUEITEM_message[OF assms] by (simp add: message_def Let_def)
qed

theorem message_witness: "GETQUEUEITEM (message 4242 2 1500) = Inr (4242, 2, 1500)"
  using message_roundtrip[of 4242 2 1500] by simp


section \<open>Reports\<close>

lemma RemoveUnscheduleState_eq:
  "RemoveUnscheduleState i s = Inr s' \<longleftrightarrow> i \<in> set (m_schedule_states s) \<and> s' = s\<lparr>m_schedule_states := remove1 i (m_schedule_states s)\<rparr>"
  by (auto simp: RemoveUnscheduleState_def)

lemma tell_afl_schedule:
  assumes "tell_afl P time i r s = Inr s'"
  shows "m_schedule_states s' = (if m_needFilter s then remove1 i (m_schedule_states s) else m_schedule_states s)"
    and "m_needFilter s \<Longrightarrow> i \<in> set (m_schedule_states s)" and "ready s'" and "\<not> ready s"
    and "sent s' = sent s @ [message (m_QEMUPid s) (m_fault s i) time]" and "m_needFilter s' = m_needFilter s"
  using assms
  by (auto simp: tell_afl_def Let_def err_bind_eq_Inr RemoveUnscheduleState_eq terminate_def split: if_splits prod.splits)

text \<open>A report is written first and checked afterwards.\<close>

lemma tell_afl_ok:
  "(\<exists>s'. tell_afl P time i r s = Inr s') \<longleftrightarrow> (m_needFilter s \<longrightarrow> i \<in> set (m_schedule_states s)) \<and> \<not> ready s"
  by (auto simp: tell_afl_def Let_def RemoveUnscheduleState_def split: prod.splits)

lemma tell_afl_failed:
  assumes "(m_needFilter s \<and> i \<notin> set (m_schedule_states s)) \<or> ready s"
  shows "\<exists>e s'. tell_afl P time i r s = Inl (Fatal e, s') \<and> sent s' = sent s @ [message (m_QEMUPid s) (m_fault s i) time]"
  using assms by (auto simp: tell_afl_def Let_def RemoveUnscheduleState_def split: prod.splits)

text \<open>
  C40: reports and what happens to a second one. A report of a work state succeeds exactly if the state is scheduled (with the filter)
  and the emulator is not marked as free. A successful report writes one message, marks the emulator as free and unschedules the
  state. Another report of the same state then aborts the emulator (with the filter whatever the fuzzer has done in the
  meantime, without it as long as the fuzzer has not handed out the next test case), but only after a second message
  has been written to the queue of the fuzzer.
\<close>

theorem second_report_aborts:
  assumes first: "tell_afl P time i r s = Inr s'" and "distinct (m_schedule_states s)"
    and same: "m_needFilter s'' = m_needFilter s'" "m_schedule_states s'' = m_schedule_states s'"
    and "m_needFilter s \<or> ready s'' = ready s'"
  shows "(\<forall>s. (\<exists>s'. tell_afl P time i r s = Inr s') = ((m_needFilter s \<longrightarrow> i \<in> set (m_schedule_states s)) \<and> \<not> ready s))
    \<and> sent s' = sent s @ [message (m_QEMUPid s) (m_fault s i) time] \<and> ready s'
    \<and> (m_needFilter s \<longrightarrow> i \<notin> set (m_schedule_states s'))
    \<and> (\<exists>e s3. tell_afl P time' i r' s'' = Inl (Fatal e, s3) \<and> sent s3 = sent s'' @ [message (m_QEMUPid s'') (m_fault s'' i) time'])"
proof -
  have n: "m_needFilter s \<longrightarrow> i \<notin> set (m_schedule_states s')" using tell_afl_schedule(1)[OF first] assms(2) by simp
  then have "(m_needFilter s'' \<and> i \<notin> set (m_schedule_states s'')) \<or> ready s''"
    using tell_afl_schedule(3,6)[OF first] same assms(5) by auto
  from tell_afl_failed[OF this] show ?thesis using n tell_afl_ok[of P time i r] tell_afl_schedule(3,5)[OF first] by blast
qed

text \<open>A crash, then the end of the process, with the filter: the fuzzer receives two messages.\<close>

theorem second_report_witness:
  "\<exists>s' e s3. onSegmentFault demo_P 500 1 7 demo_s = Inr s' \<and> sent s' = [message 42 2 500]
    \<and> onProcessUnload demo_P 900 1 7 (s'\<lparr>ready := False\<rparr>) = Inl (Fatal e, s3) \<and> length (sent s3) = 2"
proof -
  let ?s = "demo_s\<lparr>m_fault := (m_fault demo_s)(1 := FAULT_CRASH_C)\<rparr>"
  have "\<exists>s'. tell_afl demo_P 500 1 True ?s = Inr s'" unfolding tell_afl_ok by (simp add: demo_s_def)
  then obtain s' where s': "tell_afl demo_P 500 1 True ?s = Inr s'" by blast
  have n: "m_needFilter ?s" "m_needFilter s'" "m_mainPid s' = 7"
    using tell_afl_schedule(6)[OF s'] s'
    by (auto simp: demo_s_def tell_afl_def Let_def RemoveUnscheduleState_def terminate_def split: prod.splits if_splits)
  have "onSegmentFault demo_P 500 1 7 demo_s = Inr s'" using s' n(2) by (simp add: onSegmentFault_def crash_def demo_s_def)
  moreover obtain e s3 where e: "tell_afl demo_P 900 1 True (s'\<lparr>ready := False\<rparr>) = Inl (Fatal e, s3)"
    "sent s' = [message 42 2 500]" "length (sent s3) = Suc (length (sent s'))"
    using second_report_aborts[OF s', of "s'\<lparr>ready := False\<rparr>" 900 True] n by (auto simp: demo_s_def)
  moreover have "onProcessUnload demo_P 900 1 7 (s'\<lparr>ready := False\<rparr>) = Inl (Fatal e, s3)"
    using n(3) e(1) by (simp add: onProcessUnload_def)
  ultimately show ?thesis by auto
qed


section \<open>Drilling\<close>

lemma scan_states_mode: "scan_states P sz bytes ps T F f = (r, f') \<Longrightarrow> m_ModeSwitched f' = m_ModeSwitched f"
proof (induction P sz bytes ps T F f rule: scan_states.induct)
  case (2 P sz bytes p ps T F f)
  then show ?case by (auto simp: Let_def hit_def split: fast.splits verdict.splits prod.splits if_splits option.splits)
qed simp

lemma updateHotStates_mode: "updateHotStates f = Inr (b, f') \<Longrightarrow> m_ModeSwitched f' = m_ModeSwitched f"
  by (auto simp: updateHotStates_def Let_def split: option.splits if_splits)

lemma isRedundant_mode: "isRedundant P tc rand f = Inr (b, sx, f') \<Longrightarrow> m_ModeSwitched f' = m_ModeSwitched f"
  by (auto simp: isRedundant_def sample_def hit_def err_bind_eq_Inr split: if_splits option.splits prod.splits scan.splits
      dest!: scan_states_mode updateHotStates_mode)

lemma isRedundant_errs: "isRedundant P tc rand f = Inl e \<Longrightarrow> e \<noteq> Fatal ''Cannot reach zero!!!''"
  by (auto simp: isRedundant_def sample_def updateHotStates_def Let_def err_bind_def split: if_splits option.splits prod.splits scan.splits sum.splits)

text \<open>What the other handlers leave alone.\<close>

definition same_drill :: "'e fuzzy \<Rightarrow> 'e fuzzy \<Rightarrow> bool" where
  "same_drill s s' \<longleftrightarrow> m_DrillFreqCounter s' = m_DrillFreqCounter s \<and> m_drillFreq s' = m_drillFreq s \<and> m_useDrill s' = m_useDrill s
     \<and> m_needFilter s' = m_needFilter s \<and> m_ModeSwitched (tfilt s') = m_ModeSwitched (tfilt s)"

named_theorems drill_intros \<open>steps that do not touch the drill mode\<close>

lemma same_drill_refl [drill_intros]: "same_drill s s"
  by (simp add: same_drill_def)

lemma same_drill_trans: "same_drill s s1 \<Longrightarrow> same_drill s1 s2 \<Longrightarrow> same_drill s s2"
  by (simp add: same_drill_def)

lemma addSigState_mode: "addSigState P i f = (m, f') \<Longrightarrow> m_ModeSwitched f' = m_ModeSwitched f"
  by (auto simp: addSigState_def forget_cons_def Let_def split: if_splits prod.splits)

lemma checkRedundantFast_mode: "checkRedundantFast P i n f = Inr (b, f') \<Longrightarrow> m_ModeSwitched f' = m_ModeSwitched f"
  by (auto simp: checkRedundantFast_def checkLoopBucketFast_def Let_def split: if_splits list.splits prod.splits option.splits)

lemma same_terminate [drill_intros]: "same_drill s s' \<Longrightarrow> same_drill s (terminate i s')"
  by (simp add: same_drill_def terminate_def)

lemma tell_afl_drill [drill_intros]: "tell_afl P time i r s = Inr s' \<Longrightarrow> same_drill s s'"
  by (auto simp: tell_afl_def Let_def err_bind_eq_Inr RemoveUnscheduleState_eq terminate_def same_drill_def
      split: if_splits prod.splits dest: addSigState_mode)

lemma same_fault [simp]: "same_drill (s\<lparr>m_fault := g\<rparr>) s' = same_drill s s'"
  by (simp add: same_drill_def)

lemma crash_drill [drill_intros]:
  assumes "crash P time i s = Inr s'"
  shows "same_drill s s'"
proof -
  obtain s1 where s1: "tell_afl P time i True (s\<lparr>m_fault := (m_fault s)(i := FAULT_CRASH_C)\<rparr>) = Inr s1" "s' = (if m_needFilter s1 then s1 else terminate i s1)"
    using assms by (auto simp: crash_def err_bind_eq_Inr)
  then show ?thesis using tell_afl_drill[OF s1(1)] by (simp add: same_terminate)
qed

lemma timeout_drill [drill_intros]:
  assumes "onWorkStateTimeout P time i s = Inr s'"
  shows "same_drill s s'"
proof -
  obtain s1 where s1: "tell_afl P time i False (s\<lparr>m_fault := (m_fault s)(i := FAULT_NONE_C)\<rparr>) = Inr s1"
    "s' = terminate i (if m_needFilter s1 then s1\<lparr>tfilt := cleanup i (tfilt s1)\<rparr> else s1)"
    using assms by (auto simp: onWorkStateTimeout_def err_bind_eq_Inr)
  have "same_drill s1 s'" unfolding s1(2) by (simp add: same_drill_def terminate_def cleanup_def forget_cons_def)
  then show ?thesis using tell_afl_drill[OF s1(1)] same_drill_trans by simp
qed

lemma unload_drill [drill_intros]:
  assumes "onProcessUnload P time i pid s = Inr s'"
  shows "same_drill s s'"
proof (cases "pid = m_mainPid s")
  case True
  with assms obtain s1 where s1: "tell_afl P time i True s = Inr s1" "s' = s1 \<or> s' = terminate i s1"
    by (auto simp: onProcessUnload_def err_bind_eq_Inr split: if_splits)
  then show ?thesis using tell_afl_drill[OF s1(1)] same_terminate by blast
qed (use assms in \<open>simp add: onProcessUnload_def same_drill_refl\<close>)

lemma block_drill [drill_intros]:
  assumes "slotExecuteBlockStart P k time i pc s = Inr s'"
  shows "same_drill s s'"
proof (cases "i = 0 \<or> k \<or> \<not> isMainModule pc s")
  case False
  with assms obtain bm pl where "s' = s\<lparr>m_aflBitmapSHM := bm, m_prev_loc := pl\<rparr> \<or>
      onWorkStateTimeout P time i (s\<lparr>m_aflBitmapSHM := bm, m_prev_loc := pl\<rparr>) = Inr s'"
    by (auto simp: slotExecuteBlockStart_def err_bind_eq_Inr Let_def split: if_splits)
  then show ?thesis using timeout_drill[of P time i "s\<lparr>m_aflBitmapSHM := bm, m_prev_loc := pl\<rparr>" s'] by (auto simp: same_drill_def)
qed (use assms in \<open>auto simp: slotExecuteBlockStart_def same_drill_refl\<close>)

lemma drill_states_drill: "drill_states P i hc js s gen = Inr (gen', s') \<Longrightarrow> same_drill s s'"
proof (induction P i hc js s gen rule: drill_states.induct)
  case (2 P i hc j js s gen)
  show ?case
  proof (cases "j = i")
    case False
    with 2(3) obtain b f where c: "checkRedundantFast P j hc (tfilt s) = Inr (b, f)"
      "drill_states P i hc js (terminate j (s\<lparr>tfilt := f\<rparr>)) (if b then gen else gen @ [j]) = Inr (gen', s')"
      by (auto simp: err_bind_eq_Inr)
    from 2(2)[OF False c(2)] show ?thesis
      using checkRedundantFast_mode[OF c(1)] by (simp add: same_drill_def terminate_def)
  qed (use 2 in auto)
qed (simp add: same_drill_def)

lemma fork_drill [drill_intros]: "onStateFork P i js s = Inr (gen, s') \<Longrightarrow> same_drill s s'"
  by (auto simp: onStateFork_def Let_def same_drill_def split: if_splits dest!: drill_states_drill)

text \<open>
  What the guest and the symbolic executor do between two requests for a test case: reports, faults, the end of the process,
  executed blocks, forks and their conditions, states that come and go or change, and the announcements of the target.
\<close>

inductive guest_step :: "'e symex \<Rightarrow> 'e fuzzy \<Rightarrow> 'e fuzzy \<Rightarrow> bool" for P where
  gs_report: "tell_afl P time i True s = Inr s' \<Longrightarrow> guest_step P s s'"
| gs_segv: "onSegmentFault P time i pid s = Inr s' \<Longrightarrow> guest_step P s s'"
| gs_div: "onDividebyZero P time i pid s = Inr s' \<Longrightarrow> guest_step P s s'"
| gs_unload: "onProcessUnload P time i pid s = Inr s' \<Longrightarrow> guest_step P s s'"
| gs_block: "slotExecuteBlockStart P k time i pc s = Inr s' \<Longrightarrow> guest_step P s s'"
| gs_fork: "onStateFork P i js s = Inr (gen, s') \<Longrightarrow> guest_step P s s'"
| gs_cond: "guest_step P s (s\<lparr>tfilt := onDisabledFork i c (tfilt s)\<rparr>)"
| gs_states: "guest_step P s (update_states added removed s)"
| gs_exec: "guest_step P s (s\<lparr>tfilt := (tfilt s)\<lparr>objs := xs\<rparr>\<rparr>)"
| gs_pid: "target_pid eax s = Inr s' \<Longrightarrow> guest_step P s s'"
| gs_module: "guest_step P s (handleModuleLoad mainModule name base sz s)"

lemma guest_step_drill: "guest_step P s s' \<Longrightarrow> same_drill s s'"
proof (induction rule: guest_step.induct)
  case (gs_segv time i pid s s')
  then show ?case by (auto simp: onSegmentFault_def intro: drill_intros split: if_splits)
next
  case (gs_div time i pid s s')
  then show ?case by (auto simp: onDividebyZero_def intro: drill_intros split: if_splits)
next
  case (gs_cond s i c)
  show ?case by (simp add: same_drill_def onDisabledFork_def split: option.split)
next
  case (gs_states s added removed)
  show ?case by (simp add: same_drill_def update_states_def)
next
  case (gs_exec s xs)
  show ?case by (simp add: same_drill_def)
next
  case (gs_pid eax s s')
  then show ?case by (auto simp: same_drill_def target_pid_def split: if_splits)
next
  case (gs_module s mainModule name base sz)
  show ?case by (simp add: same_drill_def handleModuleLoad_def setMainImage_def)
qed (auto intro: drill_intros)

text \<open>After a redundant test case the fuzzer announces the next one with \<^verbatim>\<open>redu\<close>, which does not count.\<close>

abbreviation underflow :: "'e failed + 'a \<Rightarrow> bool" where
  "underflow x \<equiv> (\<exists>s'. x = Inl (Fatal ''Cannot reach zero!!!'', s'))"

lemma wait_redu:
  assumes "\<forall>m \<in> set os. hd (fst m) = 114"
  shows "\<not> underflow (wait_afl_testcase P os s)"
    and "wait_afl_testcase P os s = Inr (b, os', s') \<Longrightarrow> same_drill s s'"
proof -
  have "\<not> underflow (wait_afl_testcase P os s) \<and> (wait_afl_testcase P os s = Inr (b, os', s') \<longrightarrow> same_drill s s')"
    using assms
  proof (induction os arbitrary: s)
    case (Cons m os)
    obtain tmp tc rand where m: "m = (tmp, tc, rand)" by (cases m)
    have c: "count_drill tmp s = Inr s" using Cons.prems m by (simp add: count_drill_def)
    show ?case
    proof (cases "length tmp \<noteq> 4 \<or> \<not> m_needFilter s")
      case False
      show ?thesis
      proof (cases "isRedundant P tc rand (tfilt s)")
        case (Inl e)
        then show ?thesis using isRedundant_errs[OF Inl] c False m by auto
      next
        case (Inr r)
        obtain red sx f where r: "r = (red, sx, f)" by (cases r)
        have same: "same_drill s (s\<lparr>tfilt := f\<rparr>)" "same_drill s (report_redundant (s\<lparr>tfilt := f\<rparr>))"
          using isRedundant_mode[OF Inr[unfolded r]] by (simp_all add: same_drill_def report_redundant_def)
        let ?s = "report_redundant (s\<lparr>tfilt := f\<rparr>)"
        have IH: "\<not> underflow (wait_afl_testcase P os ?s) \<and> (wait_afl_testcase P os ?s = Inr (b, os', s') \<longrightarrow> same_drill ?s s')"
          by (rule Cons.IH) (use Cons.prems in simp)
        have "wait_afl_testcase P (m # os) s =
            (if red then wait_afl_testcase P os (report_redundant (s\<lparr>tfilt := f\<rparr>)) else Inr (True, os, s\<lparr>tfilt := f\<rparr>))"
          using False c Inr r m by (simp add: Let_def)
        then show ?thesis using IH same same_drill_trans[OF same(2)] by (cases red) auto
      qed
    qed (auto simp: m same_drill_def)
  qed (simp add: same_drill_def)
  then show "\<not> underflow (wait_afl_testcase P os s)" "wait_afl_testcase P os s = Inr (b, os', s') \<Longrightarrow> same_drill s s'" by blast+
qed

text \<open>What the first message of a round does to the counter.\<close>

definition next_count :: "'e fuzzy \<Rightarrow> u8 \<Rightarrow> nat" where
  "next_count s c = (if m_ModeSwitched (tfilt s) \<and> c = 110 then m_DrillFreqCounter s - 1
     else if m_ModeSwitched (tfilt s) \<and> c = 112 then m_drillFreq s else m_DrillFreqCounter s)"

definition drill_ok :: "'e fuzzy \<Rightarrow> bool" where
  "drill_ok s \<longleftrightarrow> m_useDrill s \<and> m_needFilter s \<and> 0 < m_DrillFreqCounter s \<and> 0 < m_drillFreq s"

lemma count_first: "drill_ok s \<Longrightarrow> count_drill tmp s = Inr (s\<lparr>m_DrillFreqCounter := next_count s (hd tmp)\<rparr>)"
  by (auto simp: count_drill_def drill_ok_def next_count_def)

lemma drill_wait:
  assumes "drill_ok s" "\<forall>m \<in> set (tl os). hd (fst m) = 114"
  shows "\<not> underflow (wait_afl_testcase P os s)"
    and "wait_afl_testcase P os s = Inr (True, os', s') \<Longrightarrow> same_drill (s\<lparr>m_DrillFreqCounter := next_count s (hd (fst (hd os)))\<rparr>) s'"
proof -
  have "\<not> underflow (wait_afl_testcase P os s) \<and> (wait_afl_testcase P os s = Inr (True, os', s') \<longrightarrow>
      same_drill (s\<lparr>m_DrillFreqCounter := next_count s (hd (fst (hd os)))\<rparr>) s')"
  proof (cases "os = [] \<or> length (fst (hd os)) \<noteq> 4")
    case True
    then show ?thesis by (cases os) auto
  next
    case False
    then obtain tmp tc rand ms where os: "os = (tmp, tc, rand) # ms" "length tmp = 4" by (cases os) auto
    have n: "m_needFilter s" using assms(1) by (simp add: drill_ok_def)
    let ?s1 = "s\<lparr>m_DrillFreqCounter := next_count s (hd tmp)\<rparr>"
    show ?thesis
    proof (cases "isRedundant P tc rand (tfilt s)")
      case (Inl e)
      then show ?thesis using isRedundant_errs[OF Inl] count_first[OF assms(1), of tmp] os n by auto
    next
      case (Inr r)
      obtain red sx f where r: "r = (red, sx, f)" by (cases r)
      have same: "same_drill ?s1 (?s1\<lparr>tfilt := f\<rparr>)" "same_drill ?s1 (report_redundant (?s1\<lparr>tfilt := f\<rparr>))"
        using isRedundant_mode[OF Inr[unfolded r]] by (simp_all add: same_drill_def report_redundant_def)
      have ms: "\<forall>m \<in> set ms. hd (fst m) = 114" using assms(2) os by simp
      have "wait_afl_testcase P os s = (if red then wait_afl_testcase P ms (report_redundant (?s1\<lparr>tfilt := f\<rparr>)) else Inr (True, ms, ?s1\<lparr>tfilt := f\<rparr>))"
        using os n count_first[OF assms(1), of tmp] Inr r by (simp add: Let_def)
      then show ?thesis using wait_redu[OF ms, of P "report_redundant (?s1\<lparr>tfilt := f\<rparr>)"] same os
        by (auto split: if_splits intro: same_drill_trans)
    qed
  qed
  then show "\<not> underflow (wait_afl_testcase P os s)"
    "wait_afl_testcase P os s = Inr (True, os', s') \<Longrightarrow> same_drill (s\<lparr>m_DrillFreqCounter := next_count s (hd (fst (hd os)))\<rparr>) s'" by blast+
qed


text \<open>
  A round: the seed state waits for a test case that is not redundant and forks a work state \<open>j\<close>, which then asks whether to make its
  input symbolic. The result tells whether the work state may fork and what it is answered; \<open>None\<close> means that the emulator
  still waits.
\<close>

definition drill_round :: "'e symex \<Rightarrow> nat \<Rightarrow> order list \<Rightarrow> 'e fuzzy \<Rightarrow> 'e failed + (bool \<times> bool \<times> 'e fuzzy) option" where
  "drill_round P j os s = err_bind (wait_afl_testcase P os s) (\<lambda>(got, os', s).
     if \<not> got then Inr None
     else err_bind (failing_in s (fork_work_state 0 j s)) (\<lambda>s.
       case need_symbex j s of (need, s') \<Rightarrow> Inr (Some (forks s j, need, s'))))"

lemma need_symbex_drill:
  assumes "m_needFilter x" "m_useDrill x" "m_DrillFreqCounter x = 0 \<Longrightarrow> m_ModeSwitched (tfilt x)"
  shows "m_DrillFreqCounter x = 0 \<Longrightarrow> fst (need_symbex j x)"
    and "m_DrillFreqCounter (snd (need_symbex j x)) = (if m_DrillFreqCounter x = 0 then m_drillFreq x else m_DrillFreqCounter x)"
    and "m_drillFreq (snd (need_symbex j x)) = m_drillFreq x" "m_useDrill (snd (need_symbex j x))" "m_needFilter (snd (need_symbex j x))"
  using assms by (cases "m_DrillFreqCounter x = 0"; simp add: need_symbex_def Let_def)+

lemma drill_round_effect:
  assumes ok: "drill_ok s" and redu: "\<forall>m \<in> set (tl os). hd (fst m) = 114" and r: "drill_round P j os s = Inr (Some (b, need, s'))"
  defines "n \<equiv> next_count s (hd (fst (hd os)))"
  shows "b \<longleftrightarrow> n = 0" "b \<longrightarrow> need" "drill_ok s'" "m_drillFreq s' = m_drillFreq s"
    "m_DrillFreqCounter s' = (if n = 0 then m_drillFreq s else n)"
proof -
  obtain os' s1 where w: "wait_afl_testcase P os s = Inr (True, os', s1)"
    and e: "b = forks (s1\<lparr>forks := (forks s1)(j := m_needFilter s1 \<and> m_useDrill s1 \<and> m_ModeSwitched (tfilt s1) \<and> m_DrillFreqCounter s1 = 0),
        m_current_conditon := (m_current_conditon s1 + 1) mod 2 ^ 64\<rparr>) j"
      "need_symbex j (s1\<lparr>forks := (forks s1)(j := m_needFilter s1 \<and> m_useDrill s1 \<and> m_ModeSwitched (tfilt s1) \<and> m_DrillFreqCounter s1 = 0),
        m_current_conditon := (m_current_conditon s1 + 1) mod 2 ^ 64\<rparr>) = (need, s')"
    using r by (auto simp: drill_round_def err_bind_eq_Inr fork_work_state_def split: if_splits prod.splits)
  have c: "m_DrillFreqCounter s1 = n" "m_drillFreq s1 = m_drillFreq s" "m_useDrill s1" "m_needFilter s1"
      "m_ModeSwitched (tfilt s1) = m_ModeSwitched (tfilt s)"
    using drill_wait(2)[OF ok redu w] ok by (simp_all add: same_drill_def drill_ok_def n_def)
  have z: "n = 0 \<Longrightarrow> m_ModeSwitched (tfilt s)" using ok by (auto simp: n_def next_count_def drill_ok_def split: if_splits)
  show "b \<longleftrightarrow> n = 0" using e(1) c z by auto
  obtain x where x: "need_symbex j x = (need, s')" "m_DrillFreqCounter x = n" "m_drillFreq x = m_drillFreq s" "m_useDrill x" "m_needFilter x"
      "m_ModeSwitched (tfilt x) = m_ModeSwitched (tfilt s)"
    using e(2) c by fastforce
  note d = need_symbex_drill[OF x(5,4), unfolded x(2,3,6), OF z, where j = j, unfolded x(1) fst_conv snd_conv]
  show "b \<longrightarrow> need" using d(1) \<open>b \<longleftrightarrow> n = 0\<close> by simp
  show "m_drillFreq s' = m_drillFreq s" by (rule d(3))
  show m: "m_DrillFreqCounter s' = (if n = 0 then m_drillFreq s else n)" by (rule d(2))
  have "m_useDrill s'" "m_needFilter s'" using d(4,5) by simp_all
  then show "drill_ok s'" using m \<open>m_drillFreq s' = m_drillFreq s\<close> ok by (simp add: drill_ok_def)
qed

text \<open>
  A history of an emulator: rounds, and any events of the guest in between. It lists for each round whether the filter had
  already switched its mode, the first letter of the message that announced the first test case of the round, and whether
  the work state of the round may fork. Messages after redundant test cases are \<^verbatim>\<open>redu\<close>, as \<^verbatim>\<open>run_target\<close> sends them.
\<close>

inductive drill_run :: "'e symex \<Rightarrow> 'e fuzzy \<Rightarrow> ((bool \<times> u8) \<times> bool) list \<Rightarrow> 'e fuzzy \<Rightarrow> bool" for P s0 where
  dr_start: "drill_run P s0 [] s0"
| dr_guest: "drill_run P s0 tr s \<Longrightarrow> guest_step P s s' \<Longrightarrow> drill_run P s0 tr s'"
| dr_round: "drill_run P s0 tr s \<Longrightarrow> \<forall>m \<in> set (tl os). hd (fst m) = 114 \<Longrightarrow> drill_round P j os s = Inr (Some (b, need, s')) \<Longrightarrow>
    drill_run P s0 (tr @ [((m_ModeSwitched (tfilt s), hd (fst (hd os))), b)]) s'"

text \<open>
  The number of rounds in a row that were announced with \<^verbatim>\<open>none\<close>, since the last round announced with \<^verbatim>\<open>play\<close> or since
  \<open>d\<close> such rounds were complete; rounds before the switch do not count.
\<close>

fun quiet_after :: "nat \<Rightarrow> bool \<times> u8 \<Rightarrow> nat \<Rightarrow> nat" where
  "quiet_after d (switched, c) k =
     (if switched \<and> c = 110 then (if Suc k = d then 0 else Suc k) else if switched \<and> c = 112 then 0 else k)"

definition quiet_rounds :: "nat \<Rightarrow> (bool \<times> u8) list \<Rightarrow> nat" where
  "quiet_rounds d rs = fold (quiet_after d) rs 0"

definition drill_due :: "nat \<Rightarrow> (bool \<times> u8) list \<Rightarrow> bool \<times> u8 \<Rightarrow> bool" where
  "drill_due d rs = (\<lambda>(switched, c). switched \<and> c = 110 \<and> Suc (quiet_rounds d rs) = d)"

lemma quiet_rounds_less: "0 < d \<Longrightarrow> quiet_rounds d rs < d"
  unfolding quiet_rounds_def by (induction rs rule: rev_induct) (auto simp: split_paired_all split: if_splits)

lemma drill_run_counter:
  assumes "drill_run P s0 tr s" "drill_ok s0" "m_DrillFreqCounter s0 = m_drillFreq s0"
  defines "d \<equiv> m_drillFreq s0"
  shows "drill_ok s \<and> m_drillFreq s = d \<and> m_DrillFreqCounter s = d - quiet_rounds d (map fst tr) \<and>
    (\<forall>n < length tr. snd (tr ! n) = drill_due d (map fst (take n tr)) (fst (tr ! n)))"
  using assms(1)
proof (induction rule: drill_run.induct)
  case dr_start
  then show ?case using assms(2,3) by (simp add: quiet_rounds_def d_def)
next
  case (dr_guest tr s s')
  have "same_drill s s'" by (rule guest_step_drill[OF dr_guest.hyps(2)])
  then have "drill_ok s' = drill_ok s" "m_drillFreq s' = m_drillFreq s" "m_DrillFreqCounter s' = m_DrillFreqCounter s"
    by (simp_all add: same_drill_def drill_ok_def)
  with dr_guest.IH show ?case by simp
next
  case (dr_round tr s os j b need s')
  let ?r = "(m_ModeSwitched (tfilt s), hd (fst (hd os)))" and ?q = "quiet_rounds d (map fst tr)"
  have IH: "drill_ok s" "m_drillFreq s = d" "m_DrillFreqCounter s = d - ?q" using dr_round.IH by auto
  have d: "0 < d" "?q < d" using IH(1,2) quiet_rounds_less by (auto simp: drill_ok_def)
  note e = drill_round_effect[OF IH(1) dr_round.hyps(2,3)]
  have n: "next_count s (hd (fst (hd os))) = 0 \<longleftrightarrow> drill_due d (map fst tr) ?r"
    using IH d by (auto simp: next_count_def drill_due_def)
  have q: "quiet_rounds d (map fst (tr @ [(?r, b)])) = quiet_after d ?r ?q" by (simp add: quiet_rounds_def)
  have "m_DrillFreqCounter s' = d - quiet_after d ?r ?q"
    unfolding e(5) IH(2) using IH d by (auto simp: next_count_def)
  moreover have "snd ((tr @ [(?r, b)]) ! n) = drill_due d (map fst (take n (tr @ [(?r, b)]))) (fst ((tr @ [(?r, b)]) ! n))"
    if "n < length (tr @ [(?r, b)])" for n
    using dr_round.IH that e(1) \<open>next_count s (hd (fst (hd os))) = 0 \<longleftrightarrow> drill_due d (map fst tr) ?r\<close>
    by (cases "n = length tr") (auto simp: nth_append)
  ultimately show ?case using e(3,4) IH(2) unfolding q by blast
qed

text \<open>
  C9: when the emulator drills. Start with the drill mode as it is initialised and let rounds and events of the guest follow
  each other in any order, where the fuzzer announces a test case that follows a redundant one with \<^verbatim>\<open>redu\<close>. A round
  drills, that is, its work state may fork, exactly if it is announced with \<^verbatim>\<open>none\<close>, after the switch of the filter's mode,
  and completes \<^verbatim>\<open>drillFreq\<close> such rounds in a row since the last one announced with \<^verbatim>\<open>play\<close> or the last one that drilled. The assertion that
  the counter is not zero never fails, and a work state that may fork is told to make its input symbolic.
\<close>

theorem drill_schedule:
  assumes "m_useDrill s0" "m_needFilter s0" "0 < m_drillFreq s0" "m_DrillFreqCounter s0 = m_drillFreq s0" "drill_run P s0 tr s"
  shows "(\<forall>n < length tr. snd (tr ! n) \<longleftrightarrow> drill_due (m_drillFreq s0) (map fst (take n tr)) (fst (tr ! n)))
    \<and> (\<forall>os. (\<forall>m \<in> set (tl os). hd (fst m) = 114) \<longrightarrow> (\<forall>s'. wait_afl_testcase P os s \<noteq> Inl (Fatal ''Cannot reach zero!!!'', s'))
      \<and> (\<forall>j b need s'. drill_round P j os s = Inr (Some (b, need, s')) \<longrightarrow> b \<longrightarrow> need))"
proof -
  have "drill_ok s0" using assms(1-4) by (simp add: drill_ok_def)
  note c = drill_run_counter[OF assms(5) this assms(4)]
  then have ok: "drill_ok s" by blast
  show ?thesis using c drill_wait(1)[OF ok] drill_round_effect(2)[OF ok] by blast
qed

text \<open>With a frequency of two, the second of two rounds without new coverage drills.\<close>

definition demo_d :: "nat fuzzy" where
  "demo_d = demo_s\<lparr>m_drillFreq := 2, m_DrillFreqCounter := 2\<rparr>"

definition demo_order :: "order list" where
  "demo_order = [([110, 111, 110, 101], Some (2, [1, 2]), 0)]"

lemma demo_rounds:
  obtains need s1 need' s2 b b' where "drill_round demo_P 2 demo_order demo_d = Inr (Some (b, need, s1))"
    "drill_round demo_P 3 demo_order s1 = Inr (Some (b', need', s2))" "m_ModeSwitched (tfilt demo_d)" "m_ModeSwitched (tfilt s1)"
  by (simp add: drill_round_def demo_order_def demo_d_def demo_s_def demo_eq filter_start_def count_drill_def isRedundant_def om_get_def
      om_find_def sample_def demo_P_def om_insert_def fork_work_state_def need_symbex_def) blast

theorem drill_schedule_witness:
  "\<exists>s. drill_run demo_P demo_d [((True, 110), False), ((True, 110), True)] s"
proof -
  obtain need s1 need' s2 b b' where r: "drill_round demo_P 2 demo_order demo_d = Inr (Some (b, need, s1))"
    "drill_round demo_P 3 demo_order s1 = Inr (Some (b', need', s2))" "m_ModeSwitched (tfilt demo_d)" "m_ModeSwitched (tfilt s1)"
    by (rule demo_rounds)
  have o: "\<forall>m \<in> set (tl demo_order). hd (fst m) = 114" "hd (fst (hd demo_order)) = 110" by (simp_all add: demo_order_def)
  have run: "drill_run demo_P demo_d [((True, 110), b), ((True, 110), b')] s2"
    using dr_round[OF dr_round[OF dr_start o(1) r(1)] o(1) r(2)] r(3,4) o(2) by simp
  have "m_useDrill demo_d" "m_needFilter demo_d" "0 < m_drillFreq demo_d" "m_DrillFreqCounter demo_d = m_drillFreq demo_d"
    by (simp_all add: demo_d_def demo_s_def)
  from drill_schedule[OF this run] have "n < 2 \<longrightarrow> snd ([((True, 110 :: u8), b), ((True, 110), b')] ! n) = drill_due 2 (take n [(True, 110), (True, 110)]) (True, 110)" for n
    by (auto simp: demo_d_def less_Suc_eq numeral_2_eq_2)
  from this[of 0] this[of 1] have "\<not> b" "b'" by (simp_all add: drill_due_def quiet_rounds_def)
  then show ?thesis using run by auto
qed

end
