(* ===== verification/Pool_Frame.thy ===== *)
theory Pool_Frame
  imports Qemu_Pool
begin

text \<open>
  What the analysis of a result (\<^const>\<open>handle_onetestdone\<close>) leaves alone: the queue of messages, the flags and pipes, and all
  of an emulator but its trace and what was learned from it.
\<close>

text \<open>The fields of an emulator that only dispatching changes, and the rest of the pool as the protocol sees it.\<close>

definition core :: "qemu \<Rightarrow> nat \<times> nat \<times> nat \<times> buf option \<times> bool \<times> nat option \<times> stage \<times> nat \<times> buf option" where
  "core x = (q_pid x, start_us x, stop_us x, q_out_file x, handled x, q_cur_queue x, q_cur_stage x, q_fault x, q_testcase x)"

text \<open>Nothing was ever found to win a slot of the map: the global map is empty, and no entry is favored.\<close>

definition calm :: "qstate \<Rightarrow> bool" where
  "calm st \<longleftrightarrow> (\<forall>t \<in> set (top_rated st). t = None) \<and> \<not> score_changed st \<and> (\<forall>e \<in> set (heap st). \<not> favored e)"

definition quiet :: "results \<Rightarrow> bool" where
  "quiet r \<longleftrightarrow> (\<forall>b \<in> set (trace_bits r). b = 0) \<and> calm (rqueue r)"

definition frame :: "pool \<Rightarrow> pool \<Rightarrow> bool" where
  "frame p p' \<longleftrightarrow> map core (qemus p') = map core (qemus p) \<and> curQemu p' = curQemu p \<and> isAfterWait p' = isAfterWait p
     \<and> currentQemuAfterWait p' = currentQemuAfterWait p \<and> fifo p' = fifo p \<and> ReadArray p' = ReadArray p \<and> ctrl_pipe p' = ctrl_pipe p
     \<and> total_execs (res p') = total_execs (res p) \<and> ((\<forall>x \<in> set (qemus p). cover_new x \<le> 2) \<longrightarrow> (\<forall>x \<in> set (qemus p'). cover_new x \<le> 2))
     \<and> (quiet (res p) \<longrightarrow> quiet (res p'))"

named_theorems framed

lemma frame_refl [framed]: "frame p p"
  by (simp add: frame_def)

lemma frame_trans: "frame p p1 \<Longrightarrow> frame p1 p2 \<Longrightarrow> frame p p2"
  by (simp add: frame_def)

lemma frame_if [framed]: "frame p q \<Longrightarrow> frame p q' \<Longrightarrow> frame p (if b then q else q')"
  by simp

lemma frame_res [framed]: "frame p q \<Longrightarrow> total_execs r = total_execs (res q) \<Longrightarrow> (quiet (res q) \<Longrightarrow> quiet r) \<Longrightarrow> frame p (q\<lparr>res := r\<rparr>)"
  by (simp add: frame_def)

lemma map_core_upd:
  assumes "\<And>x. core (f x) = core x"
  shows "map core ((qemus p)[k := f (qemus p ! k)]) = map core (qemus p)"
  using assms by (cases "k < length (qemus p)") (auto simp: map_update list_update_same_conv list_update_beyond)

lemma set_updD:
  assumes "\<And>x. P x \<Longrightarrow> P (f x)" "\<forall>x \<in> set xs. P x"
  shows "\<forall>x \<in> set (xs[k := f (xs ! k)]). P x"
proof (cases "k < length xs")
  case True
  then show ?thesis using assms set_update_subset_insert[of xs k "f (xs ! k)"] by fastforce
next
  case False
  then show ?thesis using assms(2) by (simp add: list_update_beyond)
qed

lemma quiet_upd_simps [simp]:
  "quiet (r\<lparr>virgin := a\<rparr>) = quiet r" "quiet (r\<lparr>created := b\<rparr>) = quiet r" "quiet (r\<lparr>total_crashes := n\<rparr>) = quiet r"
  "quiet (r\<lparr>total_hangs := n\<rparr>) = quiet r" "quiet (r\<lparr>unique_crashes := n\<rparr>) = quiet r" "quiet (r\<lparr>unique_hangs := n\<rparr>) = quiet r"
  "quiet (r\<lparr>queued_with_cov := n\<rparr>) = quiet r" "quiet (r\<lparr>queued_discovered := n\<rparr>) = quiet r" "quiet (r\<lparr>total_execs := n\<rparr>) = quiet r"
  "quiet (r\<lparr>g_eff_map := m, g_eff_cnt := n\<rparr>) = quiet r" "quiet (r\<lparr>rcal := c\<rparr>) = quiet r"
  by (simp_all add: quiet_def)

lemma calm_upd_entry: "calm st \<Longrightarrow> (\<And>e. favored (f e) = favored e) \<Longrightarrow> calm (upd_entry q f st)"
  using set_updD[where P = "\<lambda>e. \<not> favored e" and f = f and xs = "heap st" and k = q] by (simp add: calm_def upd_entry_def)

lemma calm_upd_simps [simp]:
  "calm (st\<lparr>max_depth := a\<rparr>) = calm st" "calm (st\<lparr>queue_top := b\<rparr>) = calm st" "calm (st\<lparr>q_prev100 := b\<rparr>) = calm st"
  "calm (st\<lparr>queue := c\<rparr>) = calm st" "calm (st\<lparr>last_path_time := a\<rparr>) = calm st"
  "calm (st\<lparr>queued_paths := a, pending_not_fuzzed := a', cycles_wo_finds := a''\<rparr>) = calm st"
  by (simp_all add: calm_def)

lemma calm_add:
  assumes "calm st"
  shows "calm (add_to_queue name len det now st)"
proof -
  define e where "e = blank_entry\<lparr>fname := name, q_len := len, depth := cur_depth st + 1, passed_det := det\<rparr>"
  define st1 where "st1 = st\<lparr>heap := heap st @ [e]\<rparr>"
  define st2 where "st2 = (if depth e > max_depth st1 then st1\<lparr>max_depth := depth e\<rparr> else st1)"
  define st3 where "st3 = (case queue_top st2 of
      Some t \<Rightarrow> (upd_entry t (\<lambda>e. e\<lparr>next_ent := Some (length (heap st))\<rparr>) st2)\<lparr>queue_top := Some (length (heap st))\<rparr>
    | None \<Rightarrow> st2\<lparr>q_prev100 := Some (length (heap st)), queue := Some (length (heap st)), queue_top := Some (length (heap st))\<rparr>)"
  define st4 where "st4 = st3\<lparr>queued_paths := queued_paths st3 + 1, pending_not_fuzzed := pending_not_fuzzed st3 + 1, cycles_wo_finds := 0\<rparr>"
  have "calm st1" using assms by (simp add: st1_def e_def calm_def blank_entry_def)
  then have "calm st2" by (simp add: st2_def)
  then have "calm st3" by (cases "queue_top st2") (simp_all add: st3_def calm_upd_entry)
  then have "calm st4" by (simp add: st4_def)
  then have "calm (link_100 (length (heap st)) st4)"
    by (cases "q_prev100 st4") (simp_all add: link_100_def calm_upd_entry)
  moreover have "add_to_queue name len det now st = (link_100 (length (heap st)) st4)\<lparr>last_path_time := now\<rparr>"
    by (simp only: add_to_queue_def Let_def e_def st1_def st2_def st3_def st4_def)
  ultimately show ?thesis by simp
qed

lemma update_bitmap_score_zero: "\<forall>b \<in> set tb. b = 0 \<Longrightarrow> update_bitmap_score tb q st = st"
proof -
  assume z: "\<forall>b \<in> set tb. b = 0"
  have "fold (score_slot tb f q) is st = st" if "\<forall>i \<in> set is. i < length tb" for f "is" st
    using that z by (induction "is") (auto simp: score_slot_def)
  then show ?thesis by (simp add: update_bitmap_score_def)
qed

lemma quiet_results:
  assumes "quiet r"
  shows "quiet (enqueue R hnb iscal dat r)" "mark_cov hnb r = Inr r' \<Longrightarrow> quiet r'" "quiet (measure_entry R q x r)"
  using assms
  by (auto simp: quiet_def enqueue_def mark_cov_def measure_entry_def Let_def update_bitmap_score_zero calm_add split: if_splits option.splits
      intro!: calm_upd_entry)

lemma results_execs [simp]:
  "total_execs (enqueue R hnb iscal dat r) = total_execs r" "mark_cov hnb r = Inr r' \<Longrightarrow> total_execs r' = total_execs r"
  "total_execs (measure_entry R q x r) = total_execs r"
  by (auto simp: enqueue_def mark_cov_def measure_entry_def Let_def split: if_splits option.splits)

lemma frame_upd [framed]:
  assumes "frame p q" "\<And>x. core (f x) = core x" "\<And>x. cover_new x \<le> 2 \<Longrightarrow> cover_new (f x) \<le> 2"
  shows "frame p (upd_qemu k f q)"
proof -
  have "map core (qemus (upd_qemu k f q)) = map core (qemus q)"
    unfolding upd_qemu_def by (simp add: map_core_upd[OF assms(2)])
  moreover have "\<forall>x \<in> set (qemus (upd_qemu k f q)). cover_new x \<le> 2" if "\<forall>x \<in> set (qemus q). cover_new x \<le> 2"
    unfolding upd_qemu_def by (simp, rule set_updD[OF assms(3) that])
  moreover have "curQemu (upd_qemu k f q) = curQemu q" "isAfterWait (upd_qemu k f q) = isAfterWait q"
    "currentQemuAfterWait (upd_qemu k f q) = currentQemuAfterWait q" "fifo (upd_qemu k f q) = fifo q"
    "ReadArray (upd_qemu k f q) = ReadArray q" "ctrl_pipe (upd_qemu k f q) = ctrl_pipe q" "res (upd_qemu k f q) = res q"
    by (simp_all add: upd_qemu_def)
  ultimately have "frame q (upd_qemu k f q)" by (simp only: frame_def) blast
  with assms(1) show ?thesis by (rule frame_trans)
qed

lemma frame_new_bits: "new_bits v q = Inr (h, p') \<Longrightarrow> frame p q \<Longrightarrow> frame p p'"
  by (auto simp: new_bits_def split: option.splits prod.splits intro: framed)

lemma frame_create_file: "create_file d n name dat q = Inr p' \<Longrightarrow> frame p q \<Longrightarrow> frame p p'"
  by (auto simp: create_file_def split: if_splits intro: framed)

lemma frame_queue_result: "queue_result R k dat p = Inr (b, p') \<Longrightarrow> frame p p'"
proof -
  assume a: "queue_result R k dat p = Inr (b, p')"
  then obtain h p1 where n: "new_bits VBits p = Inr (h, p1)" by (auto simp: queue_result_def err_bind_eq_Inr)
  have p1: "frame p p1" by (rule frame_new_bits[OF n frame_refl])
  show ?thesis
  proof (cases "h = 0")
    case True
    have "frame p (upd_qemu k (\<lambda>x. x\<lparr>cover_new := 0\<rparr>) p1)" "frame p (upd_qemu k (\<lambda>x. x\<lparr>cover_new := 0\<rparr>) (p1\<lparr>res := (res p1)\<lparr>total_crashes := c\<rparr>\<rparr>))" for c
      by (rule framed p1 | simp add: core_def)+
    then show ?thesis using a n True by (auto simp: queue_result_def Let_def split: if_splits)
  next
    case False
    let ?p = "upd_qemu k (\<lambda>x. x\<lparr>cover_new := 1\<rparr>) p1" and ?cal = "q_cur_stage (qemus (upd_qemu k (\<lambda>x. x\<lparr>cover_new := 1\<rparr>) p1) ! k) = STAGE_CALIBRATE"
    from a n False obtain r q where r: "mark_cov h (enqueue R h ?cal dat (res ?p)) = Inr r"
      and c: "create_file VBits (queued_paths (rqueue (res p1))) (r_describe R h) dat (?p\<lparr>res := measure_entry R q (qemus ?p ! k) r\<rparr>) = Inr p'"
      by (auto simp: queue_result_def Let_def err_bind_eq_Inr split: option.splits simp del: if_split)
    have "frame p ?p" by (rule p1 framed | simp add: core_def)+
    then have "frame p (?p\<lparr>res := measure_entry R q (qemus ?p ! k) r\<rparr>)"
      using r by (intro frame_res) (auto intro: quiet_results)
    from frame_create_file[OF c this] show ?thesis .
  qed
qed

lemma frame_fault_result: "fault_result R v unique limit dat q = Inr p' \<Longrightarrow> frame p q \<Longrightarrow> frame p p'"
proof -
  assume a: "fault_result R v unique limit dat q = Inr p'" and f: "frame p q"
  show ?thesis
  proof (cases "limit \<le> unique")
    case False
    with a obtain h p1 where h: "(if r_dumb_mode R then Inr (1, q)
         else case curQemu q of None \<Rightarrow> Inl NullDeref
          | Some c \<Rightarrow> new_bits v (upd_qemu c (\<lambda>x. x\<lparr>q_trace := simplify_trace (q_trace x)\<rparr>) q)) = Inr (h, p1)"
      and r: "(if h = 0 then Inr p1 else create_file v unique (r_describe R 0) dat
            (p1\<lparr>res := (if v = VHang then (res p1)\<lparr>unique_hangs := unique + 1\<rparr> else (res p1)\<lparr>unique_crashes := unique + 1\<rparr>)\<rparr>)) = Inr p'"
      by (auto simp: fault_result_def err_bind_eq_Inr)
    have "frame p (upd_qemu c (\<lambda>x. x\<lparr>q_trace := simplify_trace (q_trace x)\<rparr>) q)" for c
      by (rule f framed | simp add: core_def)+
    then have "frame p p1" using h f by (auto split: if_splits option.splits dest: frame_new_bits)
    then show ?thesis using r by (auto split: if_splits elim!: frame_create_file intro!: frame_res)
  qed (use a f in \<open>simp add: fault_result_def\<close>)
qed

lemma frame_save: "save_if_interesting R k dat flt p = Inr (b, p') \<Longrightarrow> frame p p'"
proof -
  assume a: "save_if_interesting R k dat flt p = Inr (b, p')"
  have r: "frame p (upd_qemu k (\<lambda>x. x\<lparr>cover_new := 2\<rparr>) p)" by (rule framed | simp add: core_def)+
  show ?thesis
  proof (cases "q_fault (qemus p ! k) = FAULT_REDUNDANT_C")
    case False
    with a obtain new p1 where n: "(if flt = r_crash_mode R then queue_result R k dat p else Inr (True, p)) = Inr (new, p1)"
      by (auto simp: save_if_interesting_def err_bind_eq_Inr)
    then have p1: "frame p p1" by (auto split: if_splits intro: framed dest: frame_queue_result)
    have "frame p (p1\<lparr>res := (res p1)\<lparr>total_hangs := c\<rparr>\<rparr>)" "frame p (p1\<lparr>res := (res p1)\<lparr>total_crashes := c\<rparr>\<rparr>)" for c
      by (rule p1 framed | simp)+
    then show ?thesis using a n False p1
      by (auto simp: save_if_interesting_def err_bind_eq_Inr Let_def split: if_splits dest: frame_fault_result)
  qed (use a r in \<open>auto simp: save_if_interesting_def\<close>)
qed

lemma frame_extra: "do_extra_handles R k p = Inr p' \<Longrightarrow> frame p p'"
proof -
  have "frame p (upd_qemu k (\<lambda>x. x\<lparr>mod_off := -1\<rparr>) (p\<lparr>res := (res p)\<lparr>g_eff_map := m, g_eff_cnt := c\<rparr>\<rparr>))" for m c
    by (rule framed | simp add: core_def)+
  then show "do_extra_handles R k p = Inr p' \<Longrightarrow> frame p p'"
    by (auto simp: do_extra_handles_def Let_def split: if_splits intro: framed)
qed

text \<open>An analysed result: the emulator is marked as handled, its input is released, and the run is counted.\<close>

definition done_with :: "nat \<Rightarrow> pool \<Rightarrow> pool" where
  "done_with k p = (upd_qemu k (\<lambda>x. x\<lparr>q_out_file := None, q_cur_queue := None, handled := True\<rparr>) p)
     \<lparr>res := (res p)\<lparr>total_execs := total_execs (res p) + 1\<rparr>\<rparr>"

lemma cover_map: "(\<forall>x \<in> set xs. cover_new x \<le> 2) \<longleftrightarrow> (\<forall>c \<in> set (map cover_new xs). c \<le> 2)"
  by simp

lemma frame_upd_cong:
  assumes "frame p q" "\<And>x y. core x = core y \<Longrightarrow> core (f x) = core (f y)" "\<And>x. cover_new (f x) = cover_new x"
  shows "frame (upd_qemu k f p) (upd_qemu k f q)"
proof -
  have m: "map core (qemus q) = map core (qemus p)" and len: "length (qemus q) = length (qemus p)"
    using assms(1) by (auto simp: frame_def dest: map_eq_imp_length_eq)
  have "map core ((qemus q)[k := f (qemus q ! k)]) = map core ((qemus p)[k := f (qemus p ! k)])"
  proof (cases "k < length (qemus p)")
    case True
    then have "core (qemus q ! k) = core (qemus p ! k)" using m len by (metis nth_map)
    then show ?thesis using m assms(2)[of "qemus q ! k" "qemus p ! k"] by (simp add: map_update)
  qed (use m len in \<open>simp add: list_update_beyond\<close>)
  moreover have "map cover_new (xs[k := f (xs ! k)]) = map cover_new xs" for xs
    using assms(3) by (cases "k < length xs") (auto simp: map_update list_update_same_conv list_update_beyond)
  then have "(\<forall>x \<in> set (xs[k := f (xs ! k)]). cover_new x \<le> 2) \<longleftrightarrow> (\<forall>x \<in> set xs. cover_new x \<le> 2)" for xs
    by (simp only: cover_map)
  ultimately show ?thesis using assms(1) by (simp add: frame_def upd_qemu_def)
qed

lemma upd_upd: "upd_qemu k f (upd_qemu k g p) = upd_qemu k (\<lambda>x. f (g x)) p"
  by (cases "k < length (qemus p)") (simp_all add: upd_qemu_def list_update_beyond)

lemma frame_count: "frame p q \<Longrightarrow> frame (p\<lparr>res := (res p)\<lparr>total_execs := total_execs (res p) + 1\<rparr>\<rparr>) (q\<lparr>res := (res q)\<lparr>total_execs := total_execs (res q) + 1\<rparr>\<rparr>)"
  by (simp add: frame_def)

lemma handle_frame:
  assumes "handle_onetestdone R k p = Inr p'"
  shows "frame (done_with k p) p'"
proof -
  define U where "U = upd_qemu k (\<lambda>x. x\<lparr>q_out_file := None, q_cur_queue := None\<rparr>)"
  define W where "W = upd_qemu k (\<lambda>x. x\<lparr>q_cur_queue := None, handled := True\<rparr>)"
  let ?pa = "upd_qemu k (\<lambda>x. x\<lparr>q_trace := classify_counts (r_lookup16 R) (q_trace x)\<rparr>) p"
  from assms obtain kept pb pd where
      s: "save_if_interesting R k (case q_out_file (qemus ?pa ! k) of Some m \<Rightarrow> m | None \<Rightarrow> []) (q_fault (qemus ?pa ! k)) ?pa = Inr (kept, pb)"
    and d: "do_extra_handles R k (U (if kept then pb\<lparr>res := (res pb)\<lparr>queued_discovered := queued_discovered (res pb) + 1\<rparr>\<rparr> else pb)) = Inr pd"
    and p': "p' = (W pd)\<lparr>res := (res (W pd))\<lparr>total_execs := total_execs (res (W pd)) + 1\<rparr>\<rparr>"
    by (auto simp: handle_onetestdone_def check_qemu_tracebits_def err_bind_eq_Inr Let_def U_def W_def)
  have "frame p ?pa" by (rule framed | simp add: core_def)+
  then have "frame p pb" using frame_save[OF s] by (rule frame_trans)
  then have "frame p (if kept then pb\<lparr>res := (res pb)\<lparr>queued_discovered := queued_discovered (res pb) + 1\<rparr>\<rparr> else pb)"
    by (auto intro: framed)
  then have "frame (U p) (U (if kept then pb\<lparr>res := (res pb)\<lparr>queued_discovered := queued_discovered (res pb) + 1\<rparr>\<rparr> else pb))"
    unfolding U_def by (rule frame_upd_cong) (auto simp: core_def)
  then have "frame (U p) pd" using frame_extra[OF d] by (rule frame_trans)
  then have "frame (W (U p)) (W pd)" unfolding W_def by (rule frame_upd_cong) (auto simp: core_def)
  moreover have "done_with k p = (W (U p))\<lparr>res := (res (W (U p)))\<lparr>total_execs := total_execs (res (W (U p))) + 1\<rparr>\<rparr>"
    by (simp add: done_with_def W_def U_def upd_upd) (simp add: upd_qemu_def)
  ultimately show ?thesis unfolding p' by (simp only: frame_count)
qed

end
