(* ===== verification/Pool_Props.thy ===== *)
theory Pool_Props
  imports Pool_Frame Fuzzy_Props
begin

text \<open>
  The pool of emulators as a whole: the fuzzer and the emulators as one transition system, and the protocol between them.
\<close>

section \<open>The fuzzer and its emulators\<close>

text \<open>
  An emulator waits for an order on its control pipe, runs the test, and reports: it first writes a message to the shared
  queue and then sets its flag (\<^const>\<open>tell_afl\<close>, \<^const>\<open>report_redundant\<close>). \<open>started\<close> counts the tests that were started.
  This is an emulator that works as intended: it reports each test once, and it does not exit or abort. The lemmas on
  simulation below show that the successful reports of the controller are such steps; a controller that reports a state twice
  writes a message more and aborts, which is outside of this relation.
\<close>

datatype phase = Waiting | Running | Reported

record sys =
  pl :: pool
  phase :: "nat \<Rightarrow> phase"
  started :: nat

abbreviation pid_of :: "pool \<Rightarrow> nat \<Rightarrow> nat" where
  "pid_of p k \<equiv> q_pid (qemus p ! k)"

inductive emu_step :: "sys \<Rightarrow> sys \<Rightarrow> bool" where
  em_take: "k < length (qemus (pl s)) \<Longrightarrow> phase s k = Waiting \<Longrightarrow> ctrl_pipe (pl s) (pid_of (pl s) k) = m # ms
    \<Longrightarrow> emu_step s (s\<lparr>pl := (pl s)\<lparr>ctrl_pipe := (ctrl_pipe (pl s))(pid_of (pl s) k := ms)\<rparr>, phase := (phase s)(k := Running)\<rparr>)"
| em_report: "k < length (qemus (pl s)) \<Longrightarrow> phase s k = Running \<Longrightarrow> flt < 256 \<Longrightarrow> us < 2 ^ 63
    \<Longrightarrow> emu_step s (s\<lparr>pl := upd_qemu k (\<lambda>x. x\<lparr>q_trace := tr\<rparr>) ((pl s)\<lparr>fifo := fifo (pl s) @ [message (pid_of (pl s) k) flt us]\<rparr>),
          phase := (phase s)(k := Reported)\<rparr>)"
| em_ready: "k < length (qemus (pl s)) \<Longrightarrow> phase s k = Reported
    \<Longrightarrow> emu_step s (s\<lparr>pl := (pl s)\<lparr>ReadArray := (ReadArray (pl s))(pid_of (pl s) k := True)\<rparr>, phase := (phase s)(k := Waiting)\<rparr>)"

text \<open>
  A controller stands for emulator \<open>k\<close>. Its successful reports are simulated by steps of the emulator, which append to the queue
  exactly what the controller has sent; the trace that the fuzzer sees is then the controller's coverage map.
\<close>

definition mirrors :: "'e fuzzy \<Rightarrow> nat \<Rightarrow> sys \<Rightarrow> bool" where
  "mirrors c k s \<longleftrightarrow> k < length (qemus (pl s)) \<and> m_QEMUPid c = pid_of (pl s) k \<and> (ready c \<longleftrightarrow> ReadArray (pl s) (pid_of (pl s) k))"

lemma report_steps:
  assumes "mirrors c k s" "phase s k = Running" "flt < 256" "us < 2 ^ 63" "m_QEMUPid c' = m_QEMUPid c" "ready c'"
  shows "\<exists>s'. emu_step\<^sup>*\<^sup>* s s' \<and> mirrors c' k s' \<and> phase s' k = Waiting \<and>
    fifo (pl s') = fifo (pl s) @ [message (m_QEMUPid c) flt us] \<and> q_trace (qemus (pl s') ! k) = m_aflBitmapSHM c'"
proof -
  have k: "k < length (qemus (pl s))" "m_QEMUPid c = pid_of (pl s) k" using assms(1) by (simp_all add: mirrors_def)
  let ?s1 = "s\<lparr>pl := upd_qemu k (\<lambda>x. x\<lparr>q_trace := m_aflBitmapSHM c'\<rparr>) ((pl s)\<lparr>fifo := fifo (pl s) @ [message (pid_of (pl s) k) flt us]\<rparr>),
      phase := (phase s)(k := Reported)\<rparr>"
  have 1: "emu_step s ?s1" by (rule em_report[OF k(1) assms(2-4)])
  have s1: "k < length (qemus (pl ?s1))" "phase ?s1 k = Reported" "pid_of (pl ?s1) k = pid_of (pl s) k"
      "fifo (pl ?s1) = fifo (pl s) @ [message (pid_of (pl s) k) flt us]" "q_trace (qemus (pl ?s1) ! k) = m_aflBitmapSHM c'"
    using k(1) by (simp_all add: upd_qemu_def)
  let ?s2 = "?s1\<lparr>pl := (pl ?s1)\<lparr>ReadArray := (ReadArray (pl ?s1))(pid_of (pl ?s1) k := True)\<rparr>, phase := (phase ?s1)(k := Waiting)\<rparr>"
  have "emu_step ?s1 ?s2" by (rule em_ready[OF s1(1,2)])
  with 1 have "emu_step\<^sup>*\<^sup>* s ?s2" by (meson converse_rtranclp_into_rtranclp r_into_rtranclp)
  moreover have "mirrors c' k ?s2" using s1(1,3) k assms(5,6) by (simp add: mirrors_def)
  moreover have "fifo (pl ?s2) = fifo (pl s) @ [message (m_QEMUPid c) flt us]" "phase ?s2 k = Waiting"
      "q_trace (qemus (pl ?s2) ! k) = m_aflBitmapSHM c'" using s1(4,5) k by simp_all
  ultimately show ?thesis by blast
qed

lemma tell_afl_simulated:
  assumes "mirrors c k s" "phase s k = Running" "tell_afl P time i r c = Inr c'" "m_fault c i < 256" "time < 2 ^ 63"
  shows "\<exists>s'. emu_step\<^sup>*\<^sup>* s s' \<and> mirrors c' k s' \<and> phase s' k = Waiting \<and>
    fifo (pl s') = fifo (pl s) @ drop (length (sent c)) (sent c') \<and> q_trace (qemus (pl s') ! k) = m_aflBitmapSHM c'"
proof -
  have "m_QEMUPid c' = m_QEMUPid c" using assms(3)
    by (auto simp: tell_afl_def Let_def err_bind_eq_Inr RemoveUnscheduleState_eq terminate_def split: if_splits prod.splits)
  then show ?thesis using report_steps[OF assms(1,2,4,5), of c'] tell_afl_schedule(3,5)[OF assms(3)] by simp
qed

lemma report_redundant_simulated:
  assumes "mirrors c k s" "phase s k = Running"
  shows "\<exists>s'. emu_step\<^sup>*\<^sup>* s s' \<and> mirrors (report_redundant c) k s' \<and> phase s' k = Waiting \<and>
    fifo (pl s') = fifo (pl s) @ drop (length (sent c)) (sent (report_redundant c))"
  using report_steps[OF assms, of FAULT_REDUNDANT_C 0 "report_redundant c"] by (auto simp: report_redundant_def)

text \<open>The fuzzer hands out a test case or waits for all emulators, or an emulator makes a step.\<close>

inductive sys_step :: "sys \<Rightarrow> sys \<Rightarrow> bool" where
  st_test: "write_to_testcase R dat cur stg off (pl s) = Inr (Some (k, p1)) \<Longrightarrow> run_target now p1 = Inr p2 \<Longrightarrow> 0 < now
    \<Longrightarrow> sys_step s (s\<lparr>pl := p2, started := started s + 1\<rparr>)"
| st_wait: "WAIT_ALLQEMUS_FREE R (pl s) = Inr (Some p) \<Longrightarrow> sys_step s (s\<lparr>pl := p\<rparr>)"
| st_emu: "emu_step s s' \<Longrightarrow> sys_step s s'"

text \<open>At the start every emulator has announced itself once, in any order.\<close>

definition sys_start :: "nat list \<Rightarrow> nat list \<Rightarrow> results \<Rightarrow> sys" where
  "sys_start pids ms r = \<lparr>pl = \<lparr>qemus = map INIT_QEMU pids, curQemu = None, isAfterWait = False, currentQemuAfterWait = 0,
     fifo = map (\<lambda>pid. message pid 0 0) ms, ReadArray = (\<lambda>pid. pid \<in> set pids), ctrl_pipe = (\<lambda>_. []), res = r\<rparr>,
     phase = (\<lambda>_. Waiting), started = total_execs r\<rparr>"

definition pids_ok :: "nat list \<Rightarrow> nat list \<Rightarrow> bool" where
  "pids_ok pids ms \<longleftrightarrow> pids \<noteq> [] \<and> length pids < 256 \<and> distinct pids \<and> (\<forall>pid \<in> set pids. 0 < pid \<and> pid < 65536) \<and> mset ms = mset pids"


section \<open>The protocol\<close>

text \<open>The number of messages of an emulator in the queue, and whether it is known to be free without one.\<close>

definition item_pid :: "buf \<Rightarrow> nat" where
  "item_pid m = (case GETQUEUEITEM m of Inl e \<Rightarrow> 0 | Inr (pid, flt, us) \<Rightarrow> pid)"

definition msgs :: "pool \<Rightarrow> nat \<Rightarrow> nat" where
  "msgs p pid = count_list (map item_pid (fifo p)) pid"

definition avail :: "pool \<Rightarrow> nat \<Rightarrow> bool" where
  "avail p k \<longleftrightarrow> isAfterWait p \<and> currentQemuAfterWait p \<le> k"

definition free :: "sys \<Rightarrow> nat \<Rightarrow> bool" where
  "free s k \<longleftrightarrow> phase s k = Waiting \<and> ctrl_pipe (pl s) (pid_of (pl s) k) = []"

definition emu_ok :: "sys \<Rightarrow> nat \<Rightarrow> bool" where
  "emu_ok s k \<longleftrightarrow> (let p = pl s; x = qemus p ! k in
     (ReadArray p (q_pid x) \<longleftrightarrow> free s k)
     \<and> msgs p (q_pid x) = (if phase s k = Reported \<or> free s k \<and> \<not> avail p k then 1 else 0)
     \<and> length (ctrl_pipe p (q_pid x)) \<le> (if phase s k = Waiting then 1 else 0)
     \<and> (avail p k \<longrightarrow> free s k \<and> handled x) \<and> (\<not> free s k \<longrightarrow> \<not> handled x)
     \<and> (\<not> handled x \<longrightarrow> q_out_file x \<noteq> None \<and> start_us x \<noteq> 0))"

definition unhandled :: "pool \<Rightarrow> nat set" where
  "unhandled p = {k. k < length (qemus p) \<and> \<not> handled (qemus p ! k)}"

definition item_ok :: "qemu list \<Rightarrow> buf \<Rightarrow> bool" where
  "item_ok xs m \<longleftrightarrow> (\<exists>pid flt us. pid \<in> q_pid ` set xs \<and> flt < 256 \<and> us < 2 ^ 63 \<and> m = message pid flt us)"

definition pool_wf :: "pool \<Rightarrow> bool" where
  "pool_wf p \<longleftrightarrow> qemus p \<noteq> [] \<and> length (qemus p) < 256 \<and> distinct (map q_pid (qemus p))
     \<and> (\<forall>x \<in> set (qemus p). 0 < q_pid x \<and> q_pid x < 65536 \<and> cover_new x \<le> 2)
     \<and> (isAfterWait p \<longrightarrow> currentQemuAfterWait p < length (qemus p)) \<and> (\<forall>m \<in> set (fifo p). item_ok (qemus p) m)"

definition pool_ok :: "sys \<Rightarrow> bool" where
  "pool_ok s \<longleftrightarrow> pool_wf (pl s) \<and> (\<forall>k < length (qemus (pl s)). emu_ok s k)
     \<and> started s = total_execs (res (pl s)) + card (unhandled (pl s))"

lemma frame_pool_wf: "frame p p' \<Longrightarrow> pool_wf p \<Longrightarrow> pool_wf p'"
proof -
  assume f: "frame p p'" and w: "pool_wf p"
  have c: "map core (qemus p') = map core (qemus p)" using f by (simp add: frame_def)
  have "map q_pid (qemus p') = map fst (map core (qemus p'))" "map q_pid (qemus p) = map fst (map core (qemus p))" by (simp_all add: core_def)
  then have pids: "map q_pid (qemus p') = map q_pid (qemus p)" using c by simp
  then have "q_pid ` set (qemus p') = q_pid ` set (qemus p)" by (metis list.set_map)
  moreover from this have "(\<forall>x \<in> set (qemus p'). 0 < q_pid x \<and> q_pid x < 65536) \<longleftrightarrow> (\<forall>x \<in> set (qemus p). 0 < q_pid x \<and> q_pid x < 65536)"
    by (metis (no_types, lifting) imageE imageI)
  moreover have "length (qemus p') = length (qemus p)" using c by (rule map_eq_imp_length_eq)
  ultimately show ?thesis using f w pids unfolding pool_wf_def frame_def item_ok_def by (metis length_0_conv)
qed

lemma frame_nth:
  assumes "frame p p'" "k < length (qemus p)"
  shows "core (qemus p' ! k) = core (qemus p ! k)" "length (qemus p') = length (qemus p)"
proof -
  have m: "map core (qemus p') = map core (qemus p)" using assms(1) by (simp add: frame_def)
  then show "length (qemus p') = length (qemus p)" by (rule map_eq_imp_length_eq)
  then show "core (qemus p' ! k) = core (qemus p ! k)" using m assms(2) by (metis nth_map)
qed

lemma frame_emu_ok:
  assumes "frame p p'" "k < length (qemus p)" "emu_ok (s\<lparr>pl := p\<rparr>) k"
  shows "emu_ok (s\<lparr>pl := p'\<rparr>) k"
  using assms(1,3) frame_nth(1)[OF assms(1,2)]
  by (simp add: emu_ok_def Let_def free_def avail_def msgs_def frame_def core_def)

lemma frame_unhandled: "frame p p' \<Longrightarrow> unhandled p' = unhandled p"
proof -
  assume f: "frame p p'"
  have "length (qemus p') = length (qemus p)" using f by (auto simp: frame_def dest: map_eq_imp_length_eq)
  then show ?thesis using frame_nth(1)[OF f] by (auto simp: unhandled_def core_def)
qed

lemma frame_pool_ok: "frame p p' \<Longrightarrow> pool_ok (s\<lparr>pl := p\<rparr>) \<Longrightarrow> pool_ok (s\<lparr>pl := p'\<rparr>)"
proof -
  assume f: "frame p p'" and ok: "pool_ok (s\<lparr>pl := p\<rparr>)"
  have "length (qemus p') = length (qemus p)" using f by (auto simp: frame_def dest: map_eq_imp_length_eq)
  then show ?thesis using ok f frame_pool_wf[OF f] frame_emu_ok[OF f] frame_unhandled[OF f]
    by (auto simp: pool_ok_def frame_def)
qed

text \<open>Choosing an emulator: it is a free one, its message is consumed, and nothing else of the protocol changes.\<close>

definition picked :: "nat \<Rightarrow> pool \<Rightarrow> pool \<Rightarrow> bool" where
  "picked k p p0 \<longleftrightarrow> k < length (qemus p) \<and> (\<exists>t. qemus p0 = (qemus p)[k := (qemus p ! k)\<lparr>stop_us := t\<rparr>]) \<and> curQemu p0 = Some k
     \<and> ReadArray p0 = ReadArray p \<and> ctrl_pipe p0 = ctrl_pipe p \<and> res p0 = res p
     \<and> msgs p0 (pid_of p k) = 0 \<and> (\<forall>pid. pid \<noteq> pid_of p k \<longrightarrow> msgs p0 pid = msgs p pid)
     \<and> (\<forall>j < length (qemus p). avail p0 j \<longleftrightarrow> avail p j \<and> j \<noteq> k) \<and> set (fifo p0) \<subseteq> set (fifo p)
     \<and> (isAfterWait p0 \<longrightarrow> currentQemuAfterWait p0 < length (qemus p))"

lemma find_pid_nth:
  "distinct (map q_pid xs) \<Longrightarrow> k < length xs \<Longrightarrow> find_pid (q_pid (xs ! k)) xs = Some k"
proof (induction xs arbitrary: k)
  case (Cons x xs)
  then show ?case by (cases k) (auto simp: image_iff)
qed simp

lemma item_okE:
  assumes "item_ok (qemus p) m" "pool_wf p"
  obtains k flt us where "k < length (qemus p)" "flt < 256" "us < 2 ^ 63" "m = message (pid_of p k) flt us"
    "GETQUEUEITEM m = Inr (pid_of p k, flt, us)" "item_pid m = pid_of p k" "0 < pid_of p k"
proof -
  obtain x flt us where x: "x \<in> set (qemus p)" "flt < 256" "us < 2 ^ 63" "m = message (q_pid x) flt us"
    using assms(1) by (auto simp: item_ok_def)
  obtain k where k: "k < length (qemus p)" "x = qemus p ! k" using x(1) by (auto simp: in_set_conv_nth)
  have "0 < q_pid x" "q_pid x < 65536" using assms(2) x(1) by (auto simp: pool_wf_def)
  then have "GETQUEUEITEM m = Inr (q_pid x, flt, us)" unfolding x(4) by (intro GETQUEUEITEM_message x(2,3)) simp
  then show ?thesis using that[OF k(1) x(2,3)] k(2) x(4) \<open>0 < q_pid x\<close> by (simp add: item_pid_def)
qed

lemma pid_inj: "pool_wf p \<Longrightarrow> j < length (qemus p) \<Longrightarrow> k < length (qemus p) \<Longrightarrow> pid_of p j = pid_of p k \<longleftrightarrow> j = k"
  by (auto simp: pool_wf_def distinct_conv_nth)

lemma choose_after_wait:
  assumes "pool_ok s" "isAfterWait (pl s)"
  obtains k p0 where "choose_qemu (pl s) = Inr (Some (k, 0, p0))" "picked k (pl s) p0" "free s k"
proof -
  let ?p = "pl s" let ?k = "currentQemuAfterWait ?p"
  have w: "pool_wf ?p" and k: "?k < length (qemus ?p)" "?k + 1 < 257" using assms by (auto simp: pool_ok_def pool_wf_def)
  have "avail ?p ?k" using assms(2) by (simp add: avail_def)
  moreover have "emu_ok s ?k" using assms(1) k by (simp add: pool_ok_def)
  ultimately have e: "free s ?k" "msgs ?p (pid_of ?p ?k) = 0" by (auto simp: emu_ok_def Let_def free_def)
  let ?q = "?p\<lparr>curQemu := Some ?k, currentQemuAfterWait := ?k + 1\<rparr>"
  let ?r = "if ?k + 1 = length (qemus ?p) then ?q\<lparr>isAfterWait := False, currentQemuAfterWait := 0\<rparr> else ?q"
  have "length (qemus ?p) < 256" using w by (simp add: pool_wf_def)
  then have m: "(?k + 1) mod 256 = ?k + 1" using k by simp
  have "choose_qemu ?p = Inr (Some (?k, 0, ?r))" using assms(2) k m by (simp add: choose_qemu_def Let_def)
  moreover have "picked ?k ?p ?r"
    using k e assms(2) by (auto simp: picked_def msgs_def avail_def intro!: exI[of _ "stop_us (qemus ?p ! ?k)"])
  ultimately show ?thesis using that e(1) by blast
qed

lemma emu_okD:
  assumes "pool_ok s" "k < length (qemus (pl s))"
  shows "ReadArray (pl s) (pid_of (pl s) k) \<longleftrightarrow> free s k"
    and "msgs (pl s) (pid_of (pl s) k) = (if phase s k = Reported \<or> free s k \<and> \<not> avail (pl s) k then 1 else 0)"
    and "length (ctrl_pipe (pl s) (pid_of (pl s) k)) \<le> (if phase s k = Waiting then 1 else 0)"
    and "avail (pl s) k \<Longrightarrow> free s k \<and> handled (qemus (pl s) ! k)" and "\<not> free s k \<Longrightarrow> \<not> handled (qemus (pl s) ! k)"
    and "\<not> handled (qemus (pl s) ! k) \<Longrightarrow> q_out_file (qemus (pl s) ! k) \<noteq> None \<and> start_us (qemus (pl s) ! k) \<noteq> 0"
proof -
  have "emu_ok s k" using assms by (simp add: pool_ok_def)
  then show "ReadArray (pl s) (pid_of (pl s) k) \<longleftrightarrow> free s k"
    and "msgs (pl s) (pid_of (pl s) k) = (if phase s k = Reported \<or> free s k \<and> \<not> avail (pl s) k then 1 else 0)"
    and "length (ctrl_pipe (pl s) (pid_of (pl s) k)) \<le> (if phase s k = Waiting then 1 else 0)"
    and "avail (pl s) k \<Longrightarrow> free s k \<and> handled (qemus (pl s) ! k)" and "\<not> free s k \<Longrightarrow> \<not> handled (qemus (pl s) ! k)"
    and "\<not> handled (qemus (pl s) ! k) \<Longrightarrow> q_out_file (qemus (pl s) ! k) \<noteq> None \<and> start_us (qemus (pl s) ! k) \<noteq> 0"
    unfolding emu_ok_def Let_def by blast+
qed

lemma choose_message:
  assumes ok: "pool_ok s" and "\<not> isAfterWait (pl s)" and f: "fifo (pl s) = m # ms"
  obtains k flt p0 where "k < length (qemus (pl s))" "picked k (pl s) p0"
    "choose_qemu (pl s) = (if free s k then Inr (Some (k, flt, p0)) else Inr None)"
proof -
  let ?p = "pl s"
  have w: "pool_wf ?p" using ok by (simp add: pool_ok_def)
  have "item_ok (qemus ?p) m" using w f by (simp add: pool_wf_def)
  from item_okE[OF this w] obtain k flt us where k: "k < length (qemus ?p)" "GETQUEUEITEM m = Inr (pid_of ?p k, flt, us)"
    "item_pid m = pid_of ?p k" "0 < pid_of ?p k" by metis
  define p0 where "p0 = upd_qemu k (\<lambda>x. if start_us x \<noteq> 0 then x\<lparr>stop_us := start_us x + us\<rparr> else x) (?p\<lparr>fifo := ms, curQemu := Some k\<rparr>)"
  have fp: "find_pid (pid_of ?p k) (qemus ?p) = Some k" using w k(1) by (intro find_pid_nth) (simp_all add: pool_wf_def)
  have c: "choose_qemu ?p = (if free s k then Inr (Some (k, flt, p0)) else Inr None)"
    using assms(2) f k fp emu_okD(1)[OF ok k(1)] by (simp add: choose_qemu_def Let_def p0_def upd_qemu_def)
  have "msgs ?p pid = (if pid = pid_of ?p k then 1 else 0) + count_list (map item_pid ms) pid" for pid
    using f k(3) by (simp add: msgs_def)
  moreover have "msgs ?p (pid_of ?p k) \<le> 1" using emu_okD(2)[OF ok k(1)] by simp
  ultimately have "picked k ?p p0"
    using assms(2) f k unfolding picked_def p0_def upd_qemu_def msgs_def avail_def
    by (auto intro!: exI[of _ "if start_us (qemus ?p ! k) \<noteq> 0 then start_us (qemus ?p ! k) + us else stop_us (qemus ?p ! k)"])
  with k(1) c show ?thesis using that by blast
qed

lemma choose_cases:
  assumes "pool_ok s"
  obtains (chosen) k flt p0 where "choose_qemu (pl s) = Inr (Some (k, flt, p0))" "picked k (pl s) p0" "free s k"
    | (blocked) k where "choose_qemu (pl s) = Inr None" "k < length (qemus (pl s))" "\<not> free s k"
proof (cases "isAfterWait (pl s)")
  case True
  then show ?thesis using choose_after_wait[OF assms True] chosen by metis
next
  case False
  show ?thesis
  proof (cases "fifo (pl s)")
    case Nil
    have n: "0 < length (qemus (pl s))" using assms by (auto simp: pool_ok_def pool_wf_def)
    have "\<not> free s 0" using emu_okD(2)[OF assms n] Nil False by (auto simp: msgs_def avail_def)
    then show ?thesis using blocked[of 0] n Nil False by (simp add: choose_qemu_def)
  next
    case (Cons m ms)
    from choose_message[OF assms False Cons] obtain k flt p0 where "k < length (qemus (pl s))" "picked k (pl s) p0"
      "choose_qemu (pl s) = (if free s k then Inr (Some (k, flt, p0)) else Inr None)" by metis
    then show ?thesis using chosen blocked by (cases "free s k") auto
  qed
qed

text \<open>A chosen emulator that is given an order, with the run before it counted if it was not yet.\<close>

lemma order_emu_ok:
  assumes ok: "pool_ok s" and pk: "picked k (pl s) p0" and j: "j < length (qemus (pl s))"
    and q: "qemus q = (qemus (pl s))[k := x]" "fifo q = fifo p0" "isAfterWait q = isAfterWait p0" "currentQemuAfterWait q = currentQemuAfterWait p0"
      "ReadArray q = (ReadArray (pl s))(pid_of (pl s) k := False)" "ctrl_pipe q = (ctrl_pipe (pl s))(pid_of (pl s) k := [m])"
    and x: "q_pid x = pid_of (pl s) k" "\<not> handled x" "q_out_file x \<noteq> None" "start_us x \<noteq> 0" and fr: "free s k"
  shows "emu_ok (s\<lparr>pl := q, started := c\<rparr>) j"
proof -
  let ?p = "pl s"
  have w: "pool_wf ?p" and k: "k < length (qemus ?p)" using ok pk by (simp_all add: pool_ok_def picked_def)
  have ms: "msgs q pid = msgs p0 pid" and av: "avail q j = avail p0 j" for pid using q by (simp_all add: msgs_def avail_def)
  show ?thesis
  proof (cases "j = k")
    case True
    have "msgs p0 (pid_of ?p k) = 0" "\<not> avail p0 k" using pk k by (auto simp: picked_def)
    then show ?thesis using True fr x k q ms av by (simp add: emu_ok_def Let_def free_def)
  next
    case False
    then have pid: "pid_of ?p j \<noteq> pid_of ?p k" using pid_inj[OF w j k] by simp
    then have "msgs p0 (pid_of ?p j) = msgs ?p (pid_of ?p j)" "avail p0 j = avail ?p j" using pk j False by (auto simp: picked_def)
    then show ?thesis using ok j False pid q ms av by (simp add: pool_ok_def emu_ok_def Let_def free_def)
  qed
qed

lemma order_ok:
  assumes ok: "pool_ok s" and pk: "picked k (pl s) p0" and fr: "free s k"
    and q: "qemus q = (qemus (pl s))[k := x]" "fifo q = fifo p0" "isAfterWait q = isAfterWait p0" "currentQemuAfterWait q = currentQemuAfterWait p0"
      "ReadArray q = (ReadArray (pl s))(pid_of (pl s) k := False)" "ctrl_pipe q = (ctrl_pipe (pl s))(pid_of (pl s) k := [m])"
      "total_execs (res q) = total_execs (res (pl s)) + (if handled (qemus (pl s) ! k) then 0 else 1)"
    and x: "q_pid x = pid_of (pl s) k" "\<not> handled x" "q_out_file x \<noteq> None" "start_us x \<noteq> 0" "cover_new x \<le> 2"
  shows "pool_ok (s\<lparr>pl := q, started := started s + 1\<rparr>)"
proof -
  let ?p = "pl s"
  have w: "pool_wf ?p" and k: "k < length (qemus ?p)" using ok pk by (simp_all add: pool_ok_def picked_def)
  have pids: "map q_pid (qemus q) = map q_pid (qemus ?p)"
    using x(1) k by (simp add: q(1) map_update list_update_same_conv)
  then have "q_pid ` set (qemus q) = q_pid ` set (qemus ?p)" by (metis list.set_map)
  then have "item_ok (qemus q) = item_ok (qemus ?p)" by (simp add: item_ok_def fun_eq_iff)
  moreover have "\<forall>y \<in> set (qemus q). 0 < q_pid y \<and> q_pid y < 65536 \<and> cover_new y \<le> 2"
  proof -
    let ?A = "{y. 0 < q_pid y \<and> q_pid y < 65536 \<and> cover_new y \<le> 2} :: qemu set"
    have "set (qemus ?p) \<subseteq> ?A" using w by (auto simp: pool_wf_def)
    moreover from this have "qemus ?p ! k \<in> ?A" using nth_mem[OF k] by (rule subsetD)
    with x(1,5) have "x \<in> ?A" by simp
    ultimately have "set ((qemus ?p)[k := x]) \<subseteq> ?A" by (rule set_update_subsetI)
    then show ?thesis unfolding q(1) by (simp only: subset_iff Ball_def mem_Collect_eq)
  qed
  ultimately have "pool_wf q" using w pk q pids by (auto simp: pool_wf_def picked_def)
  moreover have "emu_ok (s\<lparr>pl := q, started := started s + 1\<rparr>) j" if "j < length (qemus q)" for j
    by (rule order_emu_ok[OF ok pk _ q(1-6) x(1-4) fr]) (use that q(1) in simp)
  moreover have "unhandled q = insert k (unhandled ?p)" using x(2) k q(1) by (auto simp: unhandled_def nth_list_update)
  moreover have "finite (unhandled ?p)" "k \<in> unhandled ?p \<longleftrightarrow> \<not> handled (qemus ?p ! k)" using k by (auto simp: unhandled_def)
  ultimately show ?thesis using ok q(7) by (simp add: pool_ok_def card_insert_if)
qed

lemma frame_order: "frame p q \<Longrightarrow> frame (p\<lparr>ReadArray := a, ctrl_pipe := c\<rparr>) (q\<lparr>ReadArray := a, ctrl_pipe := c\<rparr>)"
  by (simp add: frame_def)

text \<open>The pool after \<^const>\<open>write_to_testcase\<close>, as far as the protocol sees it.\<close>

definition written :: "nat \<Rightarrow> nat \<Rightarrow> buf \<Rightarrow> nat option \<Rightarrow> stage \<Rightarrow> nat \<Rightarrow> pool \<Rightarrow> pool" where
  "written k flt dat cur stg off p0 =
     (let pa = upd_qemu k (\<lambda>x. x\<lparr>q_cur_queue := cur, q_cur_stage := stg, q_fault := flt\<rparr>) p0
      in upd_qemu k (\<lambda>x. x\<lparr>mod_off := (if stg = STAGE_FLIP8 then sint (word_of_nat off :: u32) else mod_off x),
           q_testcase := Some dat, q_out_file := Some dat\<rparr>) (if handled (qemus p0 ! k) then pa else done_with k pa))"

lemma write_frame:
  assumes ok: "pool_ok s" and wt: "write_to_testcase R dat cur stg off (pl s) = Inr (Some (k, p1))"
  obtains flt p0 where "picked k (pl s) p0" "free s k" "frame (written k flt dat cur stg off p0) p1"
proof -
  let ?p = "pl s"
  obtain flt p0 where ch: "choose_qemu ?p = Inr (Some (k, flt, p0))"
    using wt by (auto simp: write_to_testcase_def err_bind_eq_Inr Let_def split: option.splits)
  have "picked k ?p p0 \<and> free s k" by (cases rule: choose_cases[OF ok]) (simp_all add: ch)
  then have pk: "picked k ?p p0" and fr: "free s k" by simp_all
  have k: "k < length (qemus ?p)" using pk by (simp add: picked_def)
  define pa where "pa = upd_qemu k (\<lambda>x. x\<lparr>q_cur_queue := cur, q_cur_stage := stg, q_fault := flt\<rparr>) p0"
  define F where "F = (\<lambda>x :: qemu. x\<lparr>mod_off := (if stg = STAGE_FLIP8 then sint (word_of_nat off :: u32) else mod_off x), q_testcase := Some dat, q_out_file := Some dat\<rparr>)"
  have same: "handled (qemus pa ! k) = handled (qemus ?p ! k)" "start_us (qemus pa ! k) = start_us (qemus ?p ! k)" "handled (qemus p0 ! k) = handled (qemus ?p ! k)"
    using pk k by (auto simp: pa_def upd_qemu_def picked_def)
  have "write_to_testcase R dat cur stg off ?p =
      err_bind (if start_us (qemus pa ! k) \<noteq> 0 \<and> \<not> handled (qemus pa ! k) then handle_onetestdone R k pa else Inr pa)
        (\<lambda>p. Inr (Some (k, upd_qemu k F p)))"
    unfolding write_to_testcase_def ch by (simp only: err_bind_simps option.case prod.case Let_def pa_def F_def)
  with wt obtain pb where h: "(if start_us (qemus pa ! k) \<noteq> 0 \<and> \<not> handled (qemus pa ! k) then handle_onetestdone R k pa else Inr pa) = Inr pb"
    and p1: "p1 = upd_qemu k F pb"
    by (auto simp: err_bind_eq_Inr simp del: if_split)
  have "frame (if handled (qemus p0 ! k) then pa else done_with k pa) pb"
    using h emu_okD(6)[OF ok k] same by (auto split: if_splits intro: handle_frame frame_refl)
  then have "frame (written k flt dat cur stg off p0) p1"
    unfolding p1 written_def Let_def pa_def[symmetric] F_def[symmetric] by (rule frame_upd_cong) (auto simp: F_def core_def)
  with pk fr show ?thesis using that by blast
qed

lemma written_simps:
  assumes "picked k p p0" "k < length (qemus p)"
  shows "curQemu (written k flt dat cur stg off p0) = Some k" "ReadArray (written k flt dat cur stg off p0) = ReadArray p"
    "ctrl_pipe (written k flt dat cur stg off p0) = ctrl_pipe p" "fifo (written k flt dat cur stg off p0) = fifo p0"
    "isAfterWait (written k flt dat cur stg off p0) = isAfterWait p0" "currentQemuAfterWait (written k flt dat cur stg off p0) = currentQemuAfterWait p0"
    "total_execs (res (written k flt dat cur stg off p0)) = total_execs (res p) + (if handled (qemus p ! k) then 0 else 1)"
    "\<exists>x. qemus (written k flt dat cur stg off p0) = (qemus p)[k := x] \<and> q_pid x = pid_of p k \<and> q_out_file x = Some dat \<and> cover_new x = cover_new (qemus p ! k)"
proof -
  obtain t where t: "qemus p0 = (qemus p)[k := (qemus p ! k)\<lparr>stop_us := t\<rparr>]" using assms(1) by (auto simp: picked_def)
  show "curQemu (written k flt dat cur stg off p0) = Some k" "ReadArray (written k flt dat cur stg off p0) = ReadArray p"
    "ctrl_pipe (written k flt dat cur stg off p0) = ctrl_pipe p" "fifo (written k flt dat cur stg off p0) = fifo p0"
    "isAfterWait (written k flt dat cur stg off p0) = isAfterWait p0" "currentQemuAfterWait (written k flt dat cur stg off p0) = currentQemuAfterWait p0"
    "total_execs (res (written k flt dat cur stg off p0)) = total_execs (res p) + (if handled (qemus p ! k) then 0 else 1)"
    using assms t by (simp_all add: written_def Let_def done_with_def upd_qemu_def picked_def)
  show "\<exists>x. qemus (written k flt dat cur stg off p0) = (qemus p)[k := x] \<and> q_pid x = pid_of p k \<and> q_out_file x = Some dat \<and> cover_new x = cover_new (qemus p ! k)"
    using assms t by (auto simp: written_def Let_def done_with_def upd_qemu_def)
qed

lemma started_pl: "s\<lparr>started := c, pl := p\<rparr> = s\<lparr>pl := p, started := c\<rparr>"
  by simp

lemma phase_pl: "s\<lparr>phase := c, pl := p\<rparr> = s\<lparr>pl := p, phase := c\<rparr>"
  by simp

lemma step_test:
  assumes ok: "pool_ok s" and wt: "write_to_testcase R dat cur stg off (pl s) = Inr (Some (k, p1))"
    and rt: "run_target now p1 = Inr p2" and now: "0 < now"
  shows "pool_ok (s\<lparr>pl := p2, started := started s + 1\<rparr>)"
proof -
  let ?p = "pl s" let ?pid = "pid_of ?p k"
  obtain flt p0 where pk: "picked k ?p p0" and fr: "free s k" and f1: "frame (written k flt dat cur stg off p0) p1"
    by (rule write_frame[OF ok wt])
  define q1 where "q1 = written k flt dat cur stg off p0"
  define G where "G = (\<lambda>x :: qemu. x\<lparr>q_trace := replicate (length (q_trace x)) 0, start_us := now, handled := False\<rparr>)"
  have k: "k < length (qemus ?p)" using pk by (simp add: picked_def)
  note ws = written_simps[OF pk k, of flt dat cur stg off, folded q1_def]
  obtain x where x: "qemus q1 = (qemus ?p)[k := x]" "q_pid x = ?pid" "q_out_file x = Some dat" "cover_new x = cover_new (qemus ?p ! k)"
    using ws(8) by blast
  have f: "frame q1 p1" using f1 by (simp add: q1_def)
  have "core (qemus p1 ! k) = core (qemus q1 ! k)" using frame_nth(1)[OF f, of k] x(1) k by simp
  then have "pid_of p1 k = ?pid" using x k by (simp add: core_def)
  moreover have "curQemu p1 = Some k" "ReadArray p1 = ReadArray ?p" "ctrl_pipe p1 = ctrl_pipe ?p" using f ws by (simp_all add: frame_def)
  moreover have "ctrl_pipe ?p ?pid = []" using fr by (simp add: free_def)
  ultimately obtain tmp where p2: "p2 = upd_qemu k G (p1\<lparr>ReadArray := (ReadArray ?p)(?pid := False), ctrl_pipe := (ctrl_pipe ?p)(?pid := [tmp])\<rparr>)"
    using rt by (auto simp: run_target_def Let_def G_def split: option.splits)
  define q2 where "q2 = upd_qemu k G (q1\<lparr>ReadArray := (ReadArray ?p)(?pid := False), ctrl_pipe := (ctrl_pipe ?p)(?pid := [tmp])\<rparr>)"
  have f2: "frame q2 p2" unfolding q2_def p2 by (intro frame_upd_cong frame_order f) (auto simp: G_def core_def)
  have qs: "qemus q2 = (qemus ?p)[k := G x]" using x(1) k by (simp add: q2_def upd_qemu_def)
  have "cover_new x \<le> 2" using ok k x(4) by (simp add: pool_ok_def pool_wf_def)
  then have "pool_ok (s\<lparr>pl := q2, started := started s + 1\<rparr>)"
    using ws x now by (intro order_ok[OF ok pk fr qs]) (simp_all add: q2_def upd_qemu_def G_def)
  then show ?thesis using frame_pool_ok[OF f2, of "s\<lparr>started := started s + 1\<rparr>"] by (simp only: started_pl)
qed

text \<open>Waiting for all: every message belongs to an emulator whose result is analysed unless it was before.\<close>

lemma find_unhandled_nth:
  "distinct (map q_pid xs) \<Longrightarrow> k < length xs \<Longrightarrow> find_unhandled (q_pid (xs ! k)) xs = (if handled (xs ! k) then None else Some k)"
proof (induction xs arbitrary: k)
  case (Cons x xs)
  have "find_unhandled pid ys = None" if "pid \<notin> q_pid ` set ys" for pid ys using that by (induction ys) auto
  with Cons show ?case by (cases k) (auto simp: image_iff)
qed simp

text \<open>What holds between two messages.\<close>

definition draining :: "nat \<Rightarrow> pool \<Rightarrow> buf list \<Rightarrow> pool \<Rightarrow> bool" where
  "draining c p ms q \<longleftrightarrow> pool_wf q \<and> length (qemus q) = length (qemus p) \<and> (\<forall>k < length (qemus p). pid_of q k = pid_of p k)
     \<and> fifo q = [] \<and> ReadArray q = ReadArray p \<and> ctrl_pipe q = ctrl_pipe p
     \<and> (\<forall>m \<in> set ms. item_ok (qemus q) m)
     \<and> (\<forall>k \<in> unhandled q. q_out_file (qemus q ! k) \<noteq> None \<and> pid_of q k \<in> item_pid ` set ms)
     \<and> c = total_execs (res q) + card (unhandled q)"

lemma frame_draining: "frame q q' \<Longrightarrow> draining c p ms q \<Longrightarrow> draining c p ms q'"
proof -
  assume f: "frame q q'" and d: "draining c p ms q"
  have len: "length (qemus q') = length (qemus q)" using f by (auto simp: frame_def dest: map_eq_imp_length_eq)
  have nth: "pid_of q' k = pid_of q k" "q_out_file (qemus q' ! k) = q_out_file (qemus q ! k)" if "k < length (qemus q)" for k
    using frame_nth(1)[OF f that] by (simp_all add: core_def)
  then have "q_pid ` set (qemus q') = q_pid ` set (qemus q)"
    using f by (metis (no_types, lifting) len list.set_map map_equality_iff nth_map length_map)
  then have "item_ok (qemus q') = item_ok (qemus q)" by (simp add: item_ok_def fun_eq_iff)
  then show ?thesis
    using d len nth frame_pool_wf[OF f] frame_unhandled[OF f] f by (auto simp: draining_def frame_def unhandled_def)
qed

lemma upd_wf:
  assumes "pool_wf p" "\<And>x. q_pid (g x) = q_pid x" "\<And>x. cover_new (g x) = cover_new x"
  shows "pool_wf (upd_qemu k g p)" "item_ok (qemus (upd_qemu k g p)) = item_ok (qemus p)" "pid_of (upd_qemu k g p) j = pid_of p j"
proof -
  let ?xs = "(qemus p)[k := g (qemus p ! k)]"
  have m: "map q_pid ?xs = map q_pid (qemus p)" "map cover_new ?xs = map cover_new (qemus p)"
    using assms(2,3) by (cases "k < length (qemus p)"; simp add: map_update list_update_same_conv list_update_beyond)+
  then have s: "q_pid ` set ?xs = q_pid ` set (qemus p)" "cover_new ` set ?xs = cover_new ` set (qemus p)" by (metis list.set_map)+
  then show i: "item_ok (qemus (upd_qemu k g p)) = item_ok (qemus p)" by (simp add: item_ok_def fun_eq_iff upd_qemu_def)
  have "(\<forall>y \<in> q_pid ` set ?xs. 0 < y \<and> y < 65536) \<longleftrightarrow> (\<forall>y \<in> q_pid ` set (qemus p). 0 < y \<and> y < 65536)"
    "(\<forall>y \<in> cover_new ` set ?xs. y \<le> 2) \<longleftrightarrow> (\<forall>y \<in> cover_new ` set (qemus p). y \<le> 2)" by (simp_all only: s)
  then show "pool_wf (upd_qemu k g p)" using assms(1) m(1) i unfolding pool_wf_def upd_qemu_def by auto
  show "pid_of (upd_qemu k g p) j = pid_of p j"
    using assms(2) by (cases "k < length (qemus p)"; cases "j = k") (simp_all add: upd_qemu_def list_update_beyond)
qed

lemma draining_upd:
  assumes "draining c p ms q" "\<And>x. q_pid (g x) = q_pid x" "\<And>x. cover_new (g x) = cover_new x" "\<And>x. handled (g x) = handled x" "\<And>x. q_out_file (g x) = q_out_file x"
  shows "draining c p ms (upd_qemu k g q)"
proof -
  have w: "pool_wf q" using assms(1) by (simp add: draining_def)
  have "handled (qemus (upd_qemu k g q) ! j) = handled (qemus q ! j)" "q_out_file (qemus (upd_qemu k g q) ! j) = q_out_file (qemus q ! j)" for j
    using assms(4,5) by (cases "k < length (qemus q)"; cases "j = k"; simp add: upd_qemu_def list_update_beyond)+
  moreover from this have "unhandled (upd_qemu k g q) = unhandled q" by (simp add: unhandled_def) (simp add: upd_qemu_def)
  ultimately show ?thesis using assms(1) upd_wf[OF w assms(2,3), of k] unfolding draining_def by (simp add: upd_qemu_def)
qed

lemma done_with_draining:
  assumes d: "draining c p (m # ms) q" and k: "k \<in> unhandled q" "item_pid m = pid_of q k"
  shows "draining c p ms (done_with k q)"
proof -
  define g where "g = (\<lambda>x :: qemu. x\<lparr>q_out_file := None, q_cur_queue := None, handled := True\<rparr>)"
  have w: "pool_wf q" using d by (simp add: draining_def)
  have kl: "k < length (qemus q)" using k by (simp add: unhandled_def)
  have dw: "done_with k q = (upd_qemu k g q)\<lparr>res := (res q)\<lparr>total_execs := total_execs (res q) + 1\<rparr>\<rparr>"
    by (simp add: done_with_def g_def)
  have u: "unhandled (done_with k q) = unhandled q - {k}"
    using kl by (auto simp: dw unhandled_def upd_qemu_def g_def nth_list_update split: if_splits)
  have fin: "finite (unhandled q)" by (simp add: unhandled_def)
  have "card (unhandled q) = card (unhandled q - {k}) + 1" using card_Suc_Diff1[OF fin k(1)] by simp
  moreover have "pid_of q j \<in> item_pid ` set ms" "q_out_file (qemus (done_with k q) ! j) \<noteq> None" if "j \<in> unhandled q - {k}" for j
    using that d k(2) pid_inj[OF w, of j k] kl by (auto simp: draining_def unhandled_def dw upd_qemu_def)
  moreover have "pool_wf (done_with k q)" "item_ok (qemus (done_with k q)) = item_ok (qemus q)" "pid_of (done_with k q) j = pid_of q j" for j
    using upd_wf[OF w, of g k] by (simp_all add: dw g_def pool_wf_def)
  ultimately show ?thesis using d u by (auto simp: draining_def dw upd_qemu_def)
qed

lemma process_item_draining:
  assumes d: "draining c p (m # ms) q" and r: "process_item R m q = Inr q'"
  shows "draining c p ms q'"
proof -
  have w: "pool_wf q" and i: "item_ok (qemus q) m" using d by (simp_all add: draining_def)
  obtain k flt us where k: "k < length (qemus q)" "GETQUEUEITEM m = Inr (pid_of q k, flt, us)" "item_pid m = pid_of q k"
    using item_okE[OF i w] by metis
  have f: "find_unhandled (pid_of q k) (qemus q) = (if handled (qemus q ! k) then None else Some k)"
    using w k(1) by (intro find_unhandled_nth) (simp_all add: pool_wf_def)
  show ?thesis
  proof (cases "handled (qemus q ! k)")
    case True
    then have "q' = q" using r k f by (simp add: process_item_def)
    moreover have "j \<noteq> k" "pid_of q j \<noteq> pid_of q k" if "j \<in> unhandled q" for j using that True pid_inj[OF w, of j k] k(1) by (auto simp: unhandled_def)
    ultimately show ?thesis using d k(3) by (auto simp: draining_def)
  next
    case False
    let ?q = "upd_qemu k (\<lambda>x. x\<lparr>stop_us := start_us x + us, q_fault := flt\<rparr>) q"
    have kq: "k \<in> unhandled q" using k(1) False by (simp add: unhandled_def)
    then have "q_out_file (qemus q ! k) \<noteq> None" using d by (auto simp: draining_def)
    then have h: "handle_onetestdone R k ?q = Inr q'" using r k f False by (auto simp: process_item_def)
    have dq: "draining c p (m # ms) ?q" by (rule draining_upd[OF d]) simp_all
    have "k \<in> unhandled ?q" "pid_of ?q k = pid_of q k" using k(1) False by (simp_all add: unhandled_def upd_qemu_def)
    then have "draining c p ms (done_with k ?q)" using dq k(3) by (intro done_with_draining) simp_all
    then show ?thesis by (rule frame_draining[OF handle_frame[OF h]])
  qed
qed

lemma process_items_draining: "draining c p ms q \<Longrightarrow> process_items R ms q = Inr q' \<Longrightarrow> draining c p [] q'"
  by (induction R ms q rule: process_items.induct) (auto simp: err_bind_eq_Inr dest: process_item_draining)

lemma step_wait:
  assumes ok: "pool_ok s" and wt: "WAIT_ALLQEMUS_FREE R (pl s) = Inr (Some p)"
  shows "pool_ok (s\<lparr>pl := p\<rparr>)" and "unhandled p = {}"
proof -
  let ?p = "pl s"
  from wt obtain q where ra: "\<forall>x \<in> set (qemus ?p). ReadArray ?p (q_pid x)" and pu: "process_items R (fifo ?p) (?p\<lparr>fifo := []\<rparr>) = Inr q"
    and p: "p = q\<lparr>isAfterWait := True, currentQemuAfterWait := 0\<rparr>"
    by (auto simp: WAIT_ALLQEMUS_FREE_def process_unhandled_qemus_def err_bind_eq_Inr list_all_iff split: if_splits)
  have w: "pool_wf ?p" using ok by (simp add: pool_ok_def)
  have fr: "free s k" if "k < length (qemus ?p)" for k using ra emu_okD(1)[OF ok that] that by simp
  have "pid_of ?p k \<in> item_pid ` set (fifo ?p)" if "k \<in> unhandled ?p" for k
  proof -
    have k: "k < length (qemus ?p)" using that by (simp add: unhandled_def)
    have "\<not> avail ?p k" using that emu_okD(4)[OF ok k] by (auto simp: unhandled_def)
    then have "msgs ?p (pid_of ?p k) = 1" using emu_okD(2)[OF ok k] fr[OF k] by simp
    then show ?thesis unfolding msgs_def by (metis count_list_0_iff list.set_map zero_neq_one)
  qed
  then have "draining (started s) ?p (fifo ?p) (?p\<lparr>fifo := []\<rparr>)"
    using ok w emu_okD(6)[OF ok] by (auto simp: draining_def pool_ok_def pool_wf_def unhandled_def)
  from process_items_draining[OF this pu] have d: "draining (started s) ?p [] q" .
  then have u: "unhandled q = {}" by (auto simp: draining_def)
  then show "unhandled p = {}" by (simp add: unhandled_def p)
  have h: "handled (qemus q ! k)" if "k < length (qemus ?p)" for k using u that d by (auto simp: unhandled_def draining_def)
  have "emu_ok (s\<lparr>pl := p\<rparr>) k" if "k < length (qemus ?p)" for k
    using fr[OF that] h[OF that] that d ra by (auto simp: emu_ok_def Let_def free_def p avail_def msgs_def draining_def)
  then show "pool_ok (s\<lparr>pl := p\<rparr>)" using d u by (auto simp: pool_ok_def draining_def pool_wf_def p unhandled_def)
qed

lemma step_take:
  assumes ok: "pool_ok s" and k: "k < length (qemus (pl s))" and ph: "phase s k = Waiting" "ctrl_pipe (pl s) (pid_of (pl s) k) = m # ms"
  shows "pool_ok (s\<lparr>pl := (pl s)\<lparr>ctrl_pipe := (ctrl_pipe (pl s))(pid_of (pl s) k := ms)\<rparr>, phase := (phase s)(k := Running)\<rparr>)"
proof -
  let ?s = "s\<lparr>pl := (pl s)\<lparr>ctrl_pipe := (ctrl_pipe (pl s))(pid_of (pl s) k := ms)\<rparr>, phase := (phase s)(k := Running)\<rparr>"
  have w: "pool_wf (pl s)" using ok by (simp add: pool_ok_def)
  have nf: "\<not> free s k" "ms = []" using ph emu_okD(3)[OF ok k] by (auto simp: free_def)
  have "emu_ok ?s j" if j: "j < length (qemus (pl s))" for j
  proof (cases "j = k")
    case True
    then show ?thesis using nf ph emu_okD[OF ok k] by (auto simp: emu_ok_def Let_def free_def avail_def msgs_def)
  next
    case False
    then have "emu_ok ?s j = emu_ok s j" using pid_inj[OF w j k] by (simp add: emu_ok_def Let_def free_def avail_def msgs_def)
    then show ?thesis using ok j by (simp add: pool_ok_def)
  qed
  then show ?thesis using ok by (simp add: pool_ok_def pool_wf_def unhandled_def)
qed

lemma step_ready:
  assumes ok: "pool_ok s" and k: "k < length (qemus (pl s))" and ph: "phase s k = Reported"
  shows "pool_ok (s\<lparr>pl := (pl s)\<lparr>ReadArray := (ReadArray (pl s))(pid_of (pl s) k := True)\<rparr>, phase := (phase s)(k := Waiting)\<rparr>)"
proof -
  let ?s = "s\<lparr>pl := (pl s)\<lparr>ReadArray := (ReadArray (pl s))(pid_of (pl s) k := True)\<rparr>, phase := (phase s)(k := Waiting)\<rparr>"
  have w: "pool_wf (pl s)" using ok by (simp add: pool_ok_def)
  have nf: "\<not> free s k" "ctrl_pipe (pl s) (pid_of (pl s) k) = []" using ph emu_okD(3)[OF ok k] by (auto simp: free_def)
  have "emu_ok ?s j" if j: "j < length (qemus (pl s))" for j
  proof (cases "j = k")
    case True
    then show ?thesis using nf ph emu_okD[OF ok k] by (auto simp: emu_ok_def Let_def free_def avail_def msgs_def)
  next
    case False
    then have "emu_ok ?s j = emu_ok s j" using pid_inj[OF w j k] by (simp add: emu_ok_def Let_def free_def avail_def msgs_def)
    then show ?thesis using ok j by (simp add: pool_ok_def)
  qed
  then show ?thesis using ok by (simp add: pool_ok_def pool_wf_def unhandled_def)
qed

lemma step_report:
  assumes ok: "pool_ok s" and k: "k < length (qemus (pl s))" and ph: "phase s k = Running" and flt: "flt < 256" "us < 2 ^ 63"
  shows "pool_ok (s\<lparr>pl := upd_qemu k (\<lambda>x. x\<lparr>q_trace := tr\<rparr>) ((pl s)\<lparr>fifo := fifo (pl s) @ [message (pid_of (pl s) k) flt us]\<rparr>),
          phase := (phase s)(k := Reported)\<rparr>)"
proof -
  let ?p = "(pl s)\<lparr>fifo := fifo (pl s) @ [message (pid_of (pl s) k) flt us]\<rparr>"
  let ?s = "s\<lparr>phase := (phase s)(k := Reported), pl := ?p\<rparr>"
  have w: "pool_wf (pl s)" using ok by (simp add: pool_ok_def)
  have i: "item_ok (qemus (pl s)) (message (pid_of (pl s) k) flt us)" using flt nth_mem[OF k] by (auto simp: item_ok_def)
  have "item_pid (message (pid_of (pl s) k) flt us) = pid_of (pl s) k"
    using w nth_mem[OF k] GETQUEUEITEM_message[of "pid_of (pl s) k" flt us] flt by (auto simp: item_pid_def pool_wf_def)
  then have ms: "msgs ?p pid = msgs (pl s) pid + (if pid = pid_of (pl s) k then 1 else 0)" for pid by (simp add: msgs_def count_list_append)
  have nf: "\<not> free s k" using ph by (simp add: free_def)
  have "emu_ok ?s j" if j: "j < length (qemus (pl s))" for j
  proof (cases "j = k")
    case True
    then show ?thesis using nf ph emu_okD[OF ok k] ms by (auto simp: emu_ok_def Let_def free_def avail_def)
  next
    case False
    then have "emu_ok ?s j = emu_ok s j" using pid_inj[OF w j k] ms by (simp add: emu_ok_def Let_def free_def avail_def)
    then show ?thesis using ok j by (simp add: pool_ok_def)
  qed
  then have "pool_ok ?s" using ok i by (simp add: pool_ok_def pool_wf_def unhandled_def)
  moreover have "frame ?p (upd_qemu k (\<lambda>x. x\<lparr>q_trace := tr\<rparr>) ?p)" by (rule framed | simp add: core_def)+
  ultimately have "pool_ok (s\<lparr>phase := (phase s)(k := Reported), pl := upd_qemu k (\<lambda>x. x\<lparr>q_trace := tr\<rparr>) ?p\<rparr>)"
    using frame_pool_ok by blast
  then show ?thesis by (simp only: phase_pl)
qed

lemma sys_step_ok: "sys_step s s' \<Longrightarrow> pool_ok s \<Longrightarrow> pool_ok s'"
proof (induction rule: sys_step.induct)
  case (st_test R dat cur stg off s k p1 now p2)
  then show ?case using step_test[of s R dat cur stg off k p1 now p2] by simp
next
  case (st_wait R s p)
  then show ?case using step_wait(1)[of s R p] by simp
next
  case (st_emu s s')
  then show ?case by (auto elim!: emu_step.cases intro: step_take step_report step_ready)
qed

lemma start_ok:
  assumes "pids_ok pids ms"
  shows "pool_ok (sys_start pids ms r)"
proof -
  let ?s = "sys_start pids ms r"
  have pids: "pids \<noteq> []" "length pids < 256" "distinct pids" "\<forall>pid \<in> set pids. 0 < pid \<and> pid < 65536" "mset ms = mset pids"
    using assms by (simp_all add: pids_ok_def)
  have set: "set ms = set pids" using pids(5) by (metis set_mset_mset)
  have qs: "qemus (pl ?s) = map INIT_QEMU pids" by (simp add: sys_start_def)
  have pid: "map q_pid (map INIT_QEMU pids) = pids" by (simp add: INIT_QEMU_def comp_def)
  have item: "item_pid (message pid 0 0) = pid" if "pid \<in> set pids" for pid
    using that pids(4) GETQUEUEITEM_message[of pid 0 0] by (auto simp: item_pid_def)
  then have "map item_pid (fifo (pl ?s)) = ms" using set by (auto simp: sys_start_def comp_def intro!: map_idI)
  then have ms: "msgs (pl ?s) pid = 1" if "pid \<in> set pids" for pid
  proof -
    have "count_list ms pid = count (mset pids) pid" unfolding pids(5)[symmetric] by (rule count_mset[symmetric])
    also have "\<dots> = 1" using that pids(3) distinct_count_atmost_1[of pids] by simp
    finally show ?thesis using \<open>map item_pid (fifo (pl ?s)) = ms\<close> by (simp add: msgs_def)
  qed
  have "emu_ok ?s k" if "k < length pids" for k
    using ms[of "pids ! k"] that by (auto simp: emu_ok_def Let_def free_def avail_def sys_start_def INIT_QEMU_def)
  moreover have "pool_wf (pl ?s)"
  proof -
    have "q_pid ` set (map INIT_QEMU pids) = set pids" using pid by (metis list.set_map)
    then have "\<forall>m \<in> set (fifo (pl ?s)). item_ok (map INIT_QEMU pids) m" using set
      by (auto simp: sys_start_def item_ok_def intro!: exI conjI)
    then show ?thesis using pids(1-4) pid unfolding pool_wf_def qs by (auto simp: sys_start_def INIT_QEMU_def)
  qed
  moreover have "unhandled (pl ?s) = {}" by (auto simp: unhandled_def sys_start_def INIT_QEMU_def)
  ultimately show ?thesis by (simp add: pool_ok_def qs) (simp add: sys_start_def)
qed

lemma reachable_ok:
  assumes "pids_ok pids ms" "sys_step\<^sup>*\<^sup>* (sys_start pids ms r) s"
  shows "pool_ok s"
  using assms(2)
proof (induction rule: rtranclp_induct)
  case base
  show ?case by (rule start_ok[OF assms(1)])
next
  case (step s s')
  show ?case by (rule sys_step_ok[OF step(2,3)])
qed

text \<open>
  C1: the protocol between the fuzzer and its emulators. In every reachable state an emulator has at most one order
  outstanding and at most one message in the queue, its flag is set exactly while it waits for an order, the fuzzer hands
  out test cases only to such emulators, and every test that was started has been analysed exactly once or belongs to an
  emulator that is not yet handled; waiting for all emulators leaves none of these. The emulators are those of
  \<^const>\<open>emu_step\<close>: each reports every test once and none exits or aborts.
\<close>

theorem pool_protocol:
  assumes "pids_ok pids ms" "sys_step\<^sup>*\<^sup>* (sys_start pids ms r) s"
  shows "(\<forall>k < length (qemus (pl s)). msgs (pl s) (pid_of (pl s) k) \<le> 1
      \<and> length (ctrl_pipe (pl s) (pid_of (pl s) k)) \<le> (if phase s k = Waiting then 1 else 0) \<and> (ReadArray (pl s) (pid_of (pl s) k) \<longleftrightarrow> free s k))
    \<and> (\<forall>R dat cur stg off k p. write_to_testcase R dat cur stg off (pl s) = Inr (Some (k, p)) \<longrightarrow> k < length (qemus (pl s)) \<and> free s k)
    \<and> started s = total_execs (res (pl s)) + card (unhandled (pl s))
    \<and> (\<forall>R p. WAIT_ALLQEMUS_FREE R (pl s) = Inr (Some p) \<longrightarrow> unhandled p = {} \<and> total_execs (res p) = started s)"
proof -
  have ok: "pool_ok s" by (rule reachable_ok[OF assms])
  have "k < length (qemus (pl s)) \<and> free s k" if "write_to_testcase R dat cur stg off (pl s) = Inr (Some (k, p))" for R dat cur stg off k p
    using write_frame[OF ok that] by (auto simp: picked_def)
  moreover have "unhandled p = {} \<and> total_execs (res p) = started s" if "WAIT_ALLQEMUS_FREE R (pl s) = Inr (Some p)" for R p
    using step_wait[OF ok that] by (simp add: pool_ok_def)
  moreover have "started s = total_execs (res (pl s)) + card (unhandled (pl s))" using ok by (simp add: pool_ok_def)
  ultimately show ?thesis using emu_okD(1-3)[OF ok] by auto
qed

definition demo_r :: results where
  "demo_r = \<lparr>virgin = (\<lambda>_. replicate MAP_SIZE 255), trace_bits = replicate MAP_SIZE 0, rqueue = empty_queue MAP_SIZE, rcal = \<lparr>total_cal_us = 0,
     total_cal_cycles = 0, total_bitmap_size = 0, total_bitmap_entries = 0\<rparr>, created = [], total_crashes = 0, total_hangs = 0,
     unique_crashes = 0, unique_hangs = 0, queued_with_cov = 0, queued_discovered = 0, total_execs = 0, g_eff_map = [], g_eff_cnt = 0\<rparr>"

lemma demo_test:
  obtains p p' where "write_to_testcase R [65] None STAGE_HAVOC 0 (pl (sys_start [7, 9] [9, 7] demo_r)) = Inr (Some (1, p))"
    "run_target 5 p = Inr p'" "length (qemus p') = 2" "q_testcase (qemus p' ! 1) = Some [65]"
  using GETQUEUEITEM_message[of 9 0 0]
  by (simp add: write_to_testcase_def choose_qemu_def sys_start_def INIT_QEMU_def run_target_def signal_def Let_def upd_qemu_def)

theorem pool_protocol_witness:
  "\<exists>s. sys_step\<^sup>*\<^sup>* (sys_start [7, 9] [9, 7] demo_r) s \<and> q_testcase (qemus (pl s) ! 1) = Some [65] \<and> started s = total_execs (res (pl s)) + card (unhandled (pl s))"
proof -
  obtain p p' where d: "write_to_testcase undefined [65] None STAGE_HAVOC 0 (pl (sys_start [7, 9] [9, 7] demo_r)) = Inr (Some (1, p))"
    "run_target 5 p = Inr p'" "q_testcase (qemus p' ! 1) = Some [65]" by (rule demo_test)
  let ?s = "(sys_start [7, 9] [9, 7] demo_r)\<lparr>pl := p', started := started (sys_start [7, 9] [9, 7] demo_r) + 1\<rparr>"
  have r: "sys_step\<^sup>*\<^sup>* (sys_start [7, 9] [9, 7] demo_r) ?s" using st_test[OF d(1,2)] by simp
  then show ?thesis using pool_protocol[OF _ r] d(3) by (intro exI[of _ ?s]) (simp add: pids_ok_def)
qed


section \<open>Progress\<close>

text \<open>How many steps the emulators are from all being free.\<close>

definition weight :: "sys \<Rightarrow> nat \<Rightarrow> nat" where
  "weight s k = (case phase s k of Running \<Rightarrow> 2 | Reported \<Rightarrow> 1 | Waiting \<Rightarrow> if ctrl_pipe (pl s) (pid_of (pl s) k) = [] then 0 else 3)"

definition load :: "sys \<Rightarrow> nat" where
  "load s = (\<Sum>k < length (qemus (pl s)). weight s k)"

lemma load_less:
  assumes "k < length (qemus (pl s))" "length (qemus (pl s')) = length (qemus (pl s))"
    and "\<And>j. j < length (qemus (pl s)) \<Longrightarrow> j \<noteq> k \<Longrightarrow> weight s' j = weight s j" "weight s' k < weight s k"
  shows "load s' < load s"
proof -
  have "weight s' j \<le> weight s j" if "j < length (qemus (pl s))" for j using assms(3)[OF that] assms(4) by (cases "j = k") simp_all
  then show ?thesis unfolding load_def assms(2) using assms(1,4) by (intro sum_strict_mono_ex1) (auto intro: bexI[of _ k])
qed

lemma emu_progress:
  assumes ok: "pool_ok s" and k: "k < length (qemus (pl s))" "\<not> free s k"
  shows "\<exists>s'. emu_step s s' \<and> load s' < load s"
proof (cases "phase s k")
  case Waiting
  then obtain m ms where c: "ctrl_pipe (pl s) (pid_of (pl s) k) = m # ms" using k(2) by (auto simp: free_def neq_Nil_conv)
  have w: "pool_wf (pl s)" using ok by (simp add: pool_ok_def)
  let ?s = "s\<lparr>pl := (pl s)\<lparr>ctrl_pipe := (ctrl_pipe (pl s))(pid_of (pl s) k := ms)\<rparr>, phase := (phase s)(k := Running)\<rparr>"
  have "load ?s < load s"
    using Waiting c pid_inj[OF w _ k(1)] by (intro load_less[OF k(1)]) (auto simp: weight_def)
  then show ?thesis using em_take[OF k(1) Waiting c] by blast
next
  case Running
  let ?s = "s\<lparr>pl := upd_qemu k (\<lambda>x. x\<lparr>q_trace := []\<rparr>) ((pl s)\<lparr>fifo := fifo (pl s) @ [message (pid_of (pl s) k) 0 0]\<rparr>), phase := (phase s)(k := Reported)\<rparr>"
  have "load ?s < load s"
    using Running by (intro load_less[OF k(1)]) (auto simp: weight_def upd_qemu_def)
  then show ?thesis using em_report[OF k(1) Running, of 0 0 "[]"] by auto
next
  case Reported
  let ?s = "s\<lparr>pl := (pl s)\<lparr>ReadArray := (ReadArray (pl s))(pid_of (pl s) k := True)\<rparr>, phase := (phase s)(k := Waiting)\<rparr>"
  have "ctrl_pipe (pl s) (pid_of (pl s) k) = []" using emu_okD(3)[OF ok k(1)] Reported by simp
  then have "load ?s < load s" using Reported by (intro load_less[OF k(1)]) (auto simp: weight_def)
  then show ?thesis using em_ready[OF k(1) Reported] by blast
qed

lemma emus_become_free:
  assumes "pool_ok s"
  shows "\<exists>s'. emu_step\<^sup>*\<^sup>* s s' \<and> pool_ok s' \<and> (\<forall>k < length (qemus (pl s')). free s' k)"
  using assms
proof (induction "load s" arbitrary: s rule: less_induct)
  case less
  show ?case
  proof (cases "\<forall>k < length (qemus (pl s)). free s k")
    case False
    then obtain s1 where s1: "emu_step s s1" "load s1 < load s" using emu_progress[OF less.prems] by blast
    have "pool_ok s1" using sys_step_ok[OF st_emu[OF s1(1)]] less.prems by simp
    from less.hyps[OF s1(2) this] show ?thesis using s1(1) by (meson converse_rtranclp_into_rtranclp)
  qed (use less.prems in blast)
qed

text \<open>
  C2: dispatching neither fails nor deadlocks. In every reachable state the choice of an emulator succeeds or waits, but
  never aborts because a message is malformed or names no emulator; and from every reachable state the emulators can, by
  steps of their own only, reach a state where it succeeds and where \<^verbatim>\<open>WAIT_ALLQEMUS_FREE\<close> no longer waits. As in the protocol above, the
  emulators report every test once and none exits or aborts.
\<close>

theorem dispatch_live:
  assumes "pids_ok pids ms" "sys_step\<^sup>*\<^sup>* (sys_start pids ms r) s"
  shows "(\<exists>ch. choose_qemu (pl s) = Inr ch)
    \<and> (\<exists>s' k flt p. emu_step\<^sup>*\<^sup>* s s' \<and> choose_qemu (pl s') = Inr (Some (k, flt, p)) \<and> free s' k
        \<and> (\<forall>R. WAIT_ALLQEMUS_FREE R (pl s') \<noteq> Inr None))"
proof -
  have ok: "pool_ok s" by (rule reachable_ok[OF assms])
  have "\<exists>ch. choose_qemu (pl s) = Inr ch" by (rule choose_cases[OF ok]) blast+
  obtain s' where s': "emu_step\<^sup>*\<^sup>* s s'" "pool_ok s'" "\<forall>k < length (qemus (pl s')). free s' k"
    using emus_become_free[OF ok] by blast
  have "\<exists>k flt p. choose_qemu (pl s') = Inr (Some (k, flt, p)) \<and> free s' k"
    by (rule choose_cases[OF s'(2)]) (use s'(3) in blast)+
  moreover have "\<forall>x \<in> set (qemus (pl s')). ReadArray (pl s') (q_pid x)"
    using emu_okD(1)[OF s'(2)] s'(3) by (auto simp: in_set_conv_nth)
  then have "WAIT_ALLQEMUS_FREE R (pl s') \<noteq> Inr None" for R
    by (auto simp: WAIT_ALLQEMUS_FREE_def list_all_iff err_bind_eq_Inr)
  ultimately show ?thesis using \<open>\<exists>ch. choose_qemu (pl s) = Inr ch\<close> s'(1) by blast
qed

theorem dispatch_live_witness: "\<exists>k flt p. choose_qemu (pl (sys_start [7, 9] [9, 7] demo_r)) = Inr (Some (k, flt, p))"
proof -
  let ?s = "sys_start [7, 9] [9, 7] demo_r"
  have "\<exists>ch. choose_qemu (pl ?s) = Inr ch" using dispatch_live[of "[7, 9]" "[9, 7]" demo_r ?s] by (simp add: pids_ok_def)
  then show ?thesis using GETQUEUEITEM_message[of 9 0 0]
    by (auto simp: choose_qemu_def sys_start_def INIT_QEMU_def Let_def upd_qemu_def split: option.splits)
qed

end
