(* ===== verification/Pool_Results.thy ===== *)
theory Pool_Results
  imports Pool_Props
begin

text \<open>
  What becomes of the results in the build with parallel emulators: the winners of the slots of the map are computed from the
  global trace, which no emulator writes, so there are none.
\<close>

section \<open>No winners\<close>

lemma quiet_done_with: "quiet (res p) \<Longrightarrow> quiet (res (done_with k p))"
  by (simp add: done_with_def)

lemma handle_quiet: "handle_onetestdone R k p = Inr p' \<Longrightarrow> quiet (res p) \<Longrightarrow> quiet (res p')"
  using handle_frame[of R k p p'] quiet_done_with[of p k] by (simp add: frame_def)

lemma upd_qemu_res [simp]: "res (upd_qemu k f p) = res p"
  by (simp add: upd_qemu_def)

lemma choose_res:
  assumes "choose_qemu p = Inr (Some (k, flt, p0))"
  shows "res p0 = res p"
proof (cases "isAfterWait p")
  case True
  then show ?thesis using assms by (auto simp: choose_qemu_def Let_def split: if_splits)
next
  case False
  obtain item where i: "next_item (fifo p) = Inr item" using assms False by (cases "next_item (fifo p)") (auto simp: choose_qemu_def)
  then obtain it where "item = Some it" using assms False by (cases item) (auto simp: choose_qemu_def)
  moreover obtain pid f us ms where "it = ((pid, f, us), ms)" by (metis surj_pair)
  ultimately show ?thesis using assms False i
    by (cases "find_pid pid (qemus p)") (auto simp: choose_qemu_def Let_def split: if_splits)
qed

lemma write_quiet:
  assumes "write_to_testcase R dat cur stg off p = Inr (Some (k, p'))" "quiet (res p)"
  shows "quiet (res p')"
proof -
  obtain flt p0 where c: "choose_qemu p = Inr (Some (k, flt, p0))"
    using assms(1) by (auto simp: write_to_testcase_def err_bind_eq_Inr Let_def split: option.splits)
  let ?pa = "upd_qemu k (\<lambda>x. x\<lparr>q_cur_queue := cur, q_cur_stage := stg, q_fault := flt\<rparr>) p0"
  obtain pb where "(if start_us (qemus ?pa ! k) \<noteq> 0 \<and> \<not> handled (qemus ?pa ! k) then handle_onetestdone R k ?pa else Inr ?pa) = Inr pb"
    and r: "res p' = res pb"
    using assms(1) unfolding write_to_testcase_def c
    by (simp only: err_bind_simps option.case prod.case Let_def) (auto simp: err_bind_eq_Inr simp del: if_split)
  moreover have "quiet (res ?pa)" using assms(2) choose_res[OF c] by simp
  ultimately have "quiet (res pb)" by (auto split: if_splits dest: handle_quiet)
  with r show ?thesis by simp
qed

lemma process_items_quiet: "process_items R ms p = Inr p' \<Longrightarrow> quiet (res p) \<Longrightarrow> quiet (res p')"
proof (induction R ms p rule: process_items.induct)
  case (2 R m ms p)
  then obtain p1 where p1: "process_item R m p = Inr p1" "process_items R ms p1 = Inr p'" by (auto simp: err_bind_eq_Inr)
  have "quiet (res p1)" using p1(1) 2(3)
    by (auto simp: process_item_def err_bind_eq_Inr split: option.splits if_splits dest!: handle_quiet)
  then show ?case using 2(1)[OF p1(2)] by blast
qed simp

lemma sys_step_quiet: "sys_step s s' \<Longrightarrow> quiet (res (pl s)) \<Longrightarrow> quiet (res (pl s'))"
proof (induction rule: sys_step.induct)
  case (st_test R dat cur stg off s k p1 now p2)
  then show ?case using write_quiet[OF st_test(1)] by (auto simp: run_target_def Let_def split: option.splits)
next
  case (st_wait R s p)
  then show ?case
    by (auto simp: WAIT_ALLQEMUS_FREE_def process_unhandled_qemus_def err_bind_eq_Inr split: if_splits dest!: process_items_quiet)
next
  case (st_emu s s')
  then show ?case by (auto elim!: emu_step.cases)
qed

lemma reachable_quiet: "sys_step\<^sup>*\<^sup>* s s' \<Longrightarrow> quiet (res (pl s)) \<Longrightarrow> quiet (res (pl s'))"
  by (induction rule: rtranclp_induct) (blast dest: sys_step_quiet)+

text \<open>
  C13: with parallel emulators no entry ever becomes favored. If the global trace is empty and no slot has a winner at the
  start, then in every reachable state, whatever coverage the emulators report, still no slot has a winner, no entry is
  favored, and \<^verbatim>\<open>cull_queue\<close> does nothing.
\<close>

theorem no_favored:
  assumes "\<forall>b \<in> set (trace_bits r). b = 0" "\<forall>t \<in> set (top_rated (rqueue r)). t = None" "\<not> score_changed (rqueue r)"
    "\<forall>e \<in> set (heap (rqueue r)). \<not> favored e" "sys_step\<^sup>*\<^sup>* (sys_start pids ms r) s"
  shows "(\<forall>t \<in> set (top_rated (rqueue (res (pl s)))). t = None) \<and> (\<forall>e \<in> set (heap (rqueue (res (pl s)))). \<not> favored e)
    \<and> cull_queue (rqueue (res (pl s))) = Inr (rqueue (res (pl s)))"
proof -
  have "quiet (res (pl (sys_start pids ms r)))" using assms(1-4) by (simp add: sys_start_def quiet_def calm_def)
  from reachable_quiet[OF assms(5) this] show ?thesis by (simp add: quiet_def calm_def cull_queue_def)
qed

theorem no_favored_witness:
  "\<exists>s. sys_step\<^sup>*\<^sup>* (sys_start [7, 9] [9, 7] demo_r) s \<and> q_testcase (qemus (pl s) ! 1) = Some [65]
    \<and> cull_queue (rqueue (res (pl s))) = Inr (rqueue (res (pl s)))"
proof -
  obtain p p' where d: "write_to_testcase undefined [65] None STAGE_HAVOC 0 (pl (sys_start [7, 9] [9, 7] demo_r)) = Inr (Some (1, p))"
    "run_target 5 p = Inr p'" "q_testcase (qemus p' ! 1) = Some [65]" by (rule demo_test)
  let ?s = "(sys_start [7, 9] [9, 7] demo_r)\<lparr>pl := p', started := started (sys_start [7, 9] [9, 7] demo_r) + 1\<rparr>"
  have r: "sys_step\<^sup>*\<^sup>* (sys_start [7, 9] [9, 7] demo_r) ?s" using st_test[OF d(1,2)] by simp
  have q: "\<forall>b \<in> set (trace_bits demo_r). b = 0" "\<forall>t \<in> set (top_rated (rqueue demo_r)). t = None" "\<not> score_changed (rqueue demo_r)"
    "\<forall>e \<in> set (heap (rqueue demo_r)). \<not> favored e"
    by (simp_all add: demo_r_def empty_queue_def)
  show ?thesis using no_favored[OF q r] r d(3) by (intro exI[of _ ?s]) simp
qed

end
