(* ===== verification/Spec2Isabelle.thy ===== *)
theory Spec2Isabelle
  imports Bitcount Config Hash Rng Queue Favored Score Det Det_Stages Det_Extras Det_Redundant Havoc Havoc_Safe Fuzz_One
    Dict Dict_Props Std_Map Test_Filter Filter_Props Decimal End_Detector Fuzzy_S2E Qemu_Pool Fuzzy_Props Pool_Frame
    Pool_Props Pool_Results
begin

text \<open>
  \<^bold>\<open>FFuzz\<close> couples the fuzzer AFL (\<^verbatim>\<open>src/afl-ffuzz\<close>) with S2E emulators (\<^verbatim>\<open>src/s2e-ffuzz\<close>). The fuzzer keeps a queue of
  inputs, mutates one of them at a time and hands each test case to one of several emulators; an emulator runs the target on it,
  counts the executed edges in a map shared with the fuzzer, and reports the outcome. A plugin of the emulator recognises test cases
  that would take a path already seen and reports them without running them; another mode (drilling) lets a run fork to
  generate new inputs. The development models the build with \<^verbatim>\<open>CONFIG_S2E\<close> on x86-64.

  \<^bold>\<open>Conventions.\<close> Bytes and machine words are words of their width, buffers are lists of bytes, pointers to queue
  entries and execution states are indices. A failed assertion, an abort, a division by zero, a null pointer and an access out of
  bounds are values of the type \<^verbatim>\<open>err\<close>; steps that may fail return \<^verbatim>\<open>err + 'a\<close>. The handlers of the emulator, which may have written to
  the fuzzer before they fail, return the state at the failure with the error. Loops are structural recursion or have a termination
  proof. Code outside the repository and code that is only called (libc \<^verbatim>\<open>random\<close>, \<^verbatim>\<open>qsort\<close>, the file system, the solver, the
  evaluation and hashing of expressions, the run of a test case in the fuzzing stages) are parameters.

  \<^bold>\<open>Shared.\<close> \<^verbatim>\<open>Fuzz_Prelude\<close> holds the types of \<^verbatim>\<open>types.h\<close>, errors, byte order and list lemmas; \<^verbatim>\<open>Std_Map\<close> the ordered maps of
  the C++ library with their contract (locale \<^verbatim>\<open>std_map\<close>); \<^verbatim>\<open>Decimal\<close> the decimal numbers of \<^verbatim>\<open>sprintf\<close>, \<^verbatim>\<open>atoi\<close>, \<^verbatim>\<open>atol\<close> and \<^verbatim>\<open>strtok\<close>;
  \<^verbatim>\<open>Config\<close> the tunables of \<^verbatim>\<open>config.h\<close>.

  \<^bold>\<open>The fuzzer (\<^verbatim>\<open>afl-fuzz.c\<close>, \<^verbatim>\<open>hash.h\<close>, \<^verbatim>\<open>libtokencap.so.c\<close>).\<close>
  \<^item> \<^verbatim>\<open>Bitmap\<close>, \<^verbatim>\<open>Bitcount\<close>: \<^verbatim>\<open>classify_counts\<close>, \<^verbatim>\<open>simplify_trace\<close>, \<^verbatim>\<open>has_new_bits\<close>, \<^verbatim>\<open>count_bits\<close>, \<^verbatim>\<open>count_bytes\<close>, \<^verbatim>\<open>minimize_bits\<close>. The
    word-wise code equals its byte-wise specification, what counts as new is judged exactly against all traces seen before, and the
    counters do not wrap.
  \<^item> \<^verbatim>\<open>Hash\<close>: \<^verbatim>\<open>hash32\<close>; changing one word of a map always changes the checksum state.
  \<^item> \<^verbatim>\<open>Rng\<close>: \<^verbatim>\<open>UR\<close>, \<^verbatim>\<open>shuffle_ptrs\<close>, \<^verbatim>\<open>choose_block_len\<close>; bounds for every generator, permutation.
  \<^item> \<^verbatim>\<open>Queue\<close>, \<^verbatim>\<open>Favored\<close>: \<^verbatim>\<open>add_to_queue\<close>, the walk along shortcuts, \<^verbatim>\<open>update_bitmap_score\<close>, \<^verbatim>\<open>cull_queue\<close>. Reference counts of winners
    stay exact, and the favored entries cover every byte that has a winner.
  \<^item> \<^verbatim>\<open>Score\<close>: \<^verbatim>\<open>calculate_score\<close> with double arithmetic, \<^verbatim>\<open>next_p2\<close>, \<^verbatim>\<open>locate_diffs\<close>.
  \<^item> \<^verbatim>\<open>Det\<close>, \<^verbatim>\<open>Det_Stages\<close>, \<^verbatim>\<open>Det_Extras\<close>, \<^verbatim>\<open>Det_Redundant\<close>: the deterministic stages of \<^verbatim>\<open>fuzz_one\<close>. Each tests exactly a specified list
    of inputs in order and, unless a run asks to abandon the entry, restores its buffer; flipped bits are specified bit by bit, and the
    insertion stage never writes outside its scratch buffer. What the redundancy tests skip has been tested on bytes, and a counterexample shows
    where it has not on words.
  \<^item> \<^verbatim>\<open>Havoc\<close>, \<^verbatim>\<open>Havoc_Safe\<close>: the stacked tweaks and the havoc stage. No access leaves the buffer and its size stays within limits for
    every random source. The stage is run with fuel; 32768 iterations are proved to be enough, since its length stops doubling.
  \<^item> \<^verbatim>\<open>Fuzz_One\<close>: one round of fuzzing, with skipping, splicing and bookkeeping.
  \<^item> \<^verbatim>\<open>Dict\<close>, \<^verbatim>\<open>Dict_Props\<close>: dictionaries; type of a loaded dictionary, invariant of the automatic one, round trips through the files
    of \<^verbatim>\<open>libtokencap\<close> and of \<^verbatim>\<open>save_auto\<close>.

  \<^bold>\<open>The emulator (\<^verbatim>\<open>Plugins/AFLControllers\<close>).\<close>
  \<^item> \<^verbatim>\<open>Test_Filter\<close>, \<^verbatim>\<open>Filter_Props\<close> (\<^verbatim>\<open>TestcaseFilter.cpp\<close>): the tables of kept states. They stay consistent along every sequence of
    calls. A test case that satisfies the path constraint and all recorded conditions of a kept state of its size is redundant, a redundant
    one satisfies the path constraint or all recorded conditions of such a state, and where these agree the test is exact. Eviction removes one
    cold state everywhere, and the drill filter refines a set of known branches.
  \<^item> \<^verbatim>\<open>End_Detector\<close> (\<^verbatim>\<open>InputEndDetector.cpp\<close> and \<^verbatim>\<open>CollectSignificantOffs\<close>): which conditions count as end-of-input
    checks, for all queries in the life of a state; the first one fixes the classification.
  \<^item> \<^verbatim>\<open>Fuzzy_S2E\<close>, \<^verbatim>\<open>Fuzzy_Props\<close> (\<^verbatim>\<open>FuzzyS2E.cpp\<close>): coverage, scheduling, messages, faults, orders, forking. The map counts edges modulo
    256, also when a run ends by a timeout; messages are read back as sent; a report is written before it is checked, so a second report
    of a run still reaches the fuzzer before the emulator aborts; and over every history of rounds the drill mode forks exactly when a series of
    \<^verbatim>\<open>drillFreq\<close> rounds without new coverage is complete.

  \<^bold>\<open>The two together.\<close>
  \<^item> \<^verbatim>\<open>Qemu_Pool\<close> (\<^verbatim>\<open>write_to_testcase\<close>, \<^verbatim>\<open>run_target\<close>, \<^verbatim>\<open>process_unhandled_qemus\<close>, \<^verbatim>\<open>WAIT_ALLQEMUS_FREE\<close>, \<^verbatim>\<open>save_if_interesting\<close>): the
    fuzzer's side of the pool. Waiting is the value \<^verbatim>\<open>None\<close>.
  \<^item> \<^verbatim>\<open>Pool_Frame\<close>, \<^verbatim>\<open>Pool_Props\<close>: the fuzzer and its emulators as one step relation. Emulators write their message first and set
    their flag second, in separate steps, so all interleavings are covered. The emulators of this relation work as intended: they report
    each test once and neither exit nor abort; successful reports of the controller of \<^verbatim>\<open>Fuzzy_S2E\<close> are simulated by their steps. Orders go only to waiting emulators, every started test
    is analysed exactly once, and dispatching neither fails nor deadlocks.
  \<^item> \<^verbatim>\<open>Pool_Results\<close>: no entry becomes favored in this build, because winners are computed from a trace that no emulator writes.

  \<^bold>\<open>Not modelled.\<close> The user interface, statistics and command line of \<^verbatim>\<open>afl-fuzz\<close>; the set-up of directories, processes, pipes
  and shared memory on both sides (the initial state of the pool stands for it); the fork server and trimming, which this build skips;
  the solver call that generates a drilled input; the guest agent and the other plugins, which consist of system calls and events of the
  guest; the stand-alone tools, compiler wrappers and other back ends of AFL; S2E, KLEE and QEMU themselves, which are vendored projects
  of other authors.
\<close>

end
